(* ===== verification/Lwipc_Prelude.thy ===== *)
theory Lwipc_Prelude
  imports Main "HOL-Library.Word"
begin

text \<open>
  Shared vocabulary of the LwIPC development: names for the machine integers of the C++ code,
  generic lemmas on words, lists and byte encodings, the power-of-two capacity check that the
  ring buffers and the pool state as a \<open>static_assert\<close>, and the reachability predicate with
  the invariant interfaces that the concurrent models instantiate.
\<close>

unbundle bit_operations_syntax

section \<open>Machine integers\<close>

type_synonym u8 = "8 word"
type_synonym u16 = "16 word"
type_synonym u32 = "32 word"
type_synonym u64 = "64 word"
type_synonym byte = "8 word"

text \<open>The equations that take a byte image apart and put it together.\<close>

named_theorems codec_simps

section \<open>Power-of-two capacities\<close>

definition valid_capacity :: "u64 \<Rightarrow> bool" where
  "valid_capacity C \<longleftrightarrow> C \<ge> 2 \<and> C AND (C - 1) = 0"

definition kMask :: "u64 \<Rightarrow> u64" where
  "kMask C = C - 1"

definition slot_index :: "u64 \<Rightarrow> u64 \<Rightarrow> nat" where
  "slot_index C pos = unat (pos AND kMask C)"

lemma nat_and_pred_power_of_two:
  "0 < (n::nat) \<Longrightarrow> n AND (n - 1) = 0 \<Longrightarrow> \<exists>k. n = 2 ^ k"
proof (induction n rule: less_induct)
  case (less n)
  show ?case
  proof (cases "even n")
    case True
    then obtain m where m: "n = 2 * m" by blast
    with less.prems have m0: "0 < m" by simp
    have "n - 1 = 2 * (m - 1) + 1" using m m0 by simp
    then have "n AND (n - 1) = 2 * (m AND (m - 1))"
      using m by (simp add: and_nat_unfold [of "2 * m"])
    with less.prems have "m AND (m - 1) = 0" by simp
    with less.IH [of m] m m0 obtain k where "m = 2 ^ k" by auto
    with m have "n = 2 ^ Suc k" by simp
    then show ?thesis by blast
  next
    case False
    then obtain m where m: "n = 2 * m + 1" using oddE by blast
    then have "n AND (n - 1) = 2 * m"
      by (simp add: and_nat_unfold [of "Suc (2 * m)"])
    with less.prems have "n = 2 ^ 0" using m by simp
    then show ?thesis by blast
  qed
qed

lemma valid_capacity_power:
  assumes "valid_capacity C"
  obtains k where "0 < k" "k < 64" "unat C = 2 ^ k" "kMask C = mask k"
proof -
  from assms have ge: "2 \<le> unat C" and z: "C AND (C - 1) = 0"
    by (auto simp: valid_capacity_def word_le_nat_alt)
  have pred: "unat (C - 1) = unat C - 1"
    using ge by (metis One_nat_def unat_1 unat_gt_0 unat_minus_one unsigned_0 not_numeral_le_zero)
  have "unat C AND (unat C - 1) = unat (C AND (C - 1))"
    by (simp only: pred [symmetric] unsigned_and_eq)
  then have "unat C AND (unat C - 1) = 0" by (simp add: z)
  with nat_and_pred_power_of_two [of "unat C"] ge obtain k where k: "unat C = 2 ^ k" by auto
  have "unat C < 2 ^ 64" using unsigned_less [of C] by simp
  with k have k64: "k < 64" by (metis power_less_imp_less_exp one_less_numeral_iff semiring_norm(76))
  have k0: "0 < k" using k ge by (cases k) auto
  have "C = of_nat (unat C)" by simp
  then have "C = 2 ^ k" by (simp only: k of_nat_power of_nat_numeral)
  then have "kMask C = mask k" by (simp add: kMask_def mask_eq_exp_minus_1)
  with k0 k64 k show thesis by (rule that)
qed

lemma slot_index_mod:
  assumes "valid_capacity C"
  shows "slot_index C pos = unat pos mod unat C"
proof -
  from assms obtain k where k: "k < 64" "unat C = 2 ^ k" "kMask C = mask k"
    by (rule valid_capacity_power)
  have "pos AND mask k = take_bit k pos" by (simp add: take_bit_eq_mask)
  with k show ?thesis
    by (simp add: slot_index_def unsigned_take_bit_eq flip: take_bit_eq_mod)
qed

text \<open>Two positions of a window no longer than a lap are in different slots.\<close>

lemma window_mod_inj:
  assumes "p mod n = q mod n" "p < m" "q < m" "m \<le> p + n" "m \<le> q + n"
  shows "p = (q::nat)"
proof (rule ccontr)
  assume "p \<noteq> q"
  have "n dvd (max p q - min p q)"
    using assms(1) by (metis max_def min_def mod_eq_dvd_iff_nat nle_le)
  moreover have "0 < max p q - min p q" "max p q - min p q < n" using \<open>p \<noteq> q\<close> assms by auto
  ultimately show False using dvd_imp_le by fastforce
qed

lemma valid_capacity_ge2: "valid_capacity C \<Longrightarrow> 2 \<le> unat C"
  by (simp add: valid_capacity_def word_le_nat_alt)

section \<open>Unsigned arithmetic without wrap-around\<close>

lemma unat_add_lt:
  "unat (a :: 'a::len word) + unat b < 2 ^ LENGTH('a) \<Longrightarrow> unat (a + b) = unat a + unat b"
  by (simp add: unat_word_ariths)

lemma unat_mult_lt:
  "unat (a :: 'a::len word) * unat b < 2 ^ LENGTH('a) \<Longrightarrow> unat (a * b) = unat a * unat b"
  by (simp add: unat_word_ariths)

lemma unat_sub_le:
  "(b :: 'a::len word) \<le> a \<Longrightarrow> unat (a - b) = unat a - unat b"
  by (simp add: unat_sub_if_size word_le_nat_alt)

lemma unat_suc_u64: "unat (a :: u64) < 2 ^ 64 - 1 \<Longrightarrow> unat (a + 1) = Suc (unat a)"
  by (simp add: unat_add_lt)

lemma unat_of_nat_u64: "n < 2 ^ 64 \<Longrightarrow> unat (of_nat n :: u64) = n"
  by (simp add: unsigned_of_nat take_bit_nat_eq_self)

lemma slot_index_of_nat:
  assumes "valid_capacity C" "p < 2 ^ 64"
  shows "slot_index C (of_nat p) = p mod unat C"
  using slot_index_mod [OF assms(1)] assms(2) by (simp add: unat_of_nat_u64)

lemma unat_u64_less: "unat (a :: u64) < 2 ^ 64"
  by (rule order_less_le_trans, rule unsigned_less) simp

lemma unat_u16_less: "unat (a :: u16) < 2 ^ 16"
  by (rule order_less_le_trans, rule unsigned_less) simp

lemma unat_ucast_up:
  "LENGTH('a) \<le> LENGTH('b) \<Longrightarrow> unat (ucast (w :: 'a::len word) :: 'b::len word) = unat w"
  by (simp add: unsigned_ucast_eq take_bit_nat_eq_self_iff)
    (metis unsigned_less order_less_le_trans power_increasing one_le_numeral)

lemma unat_take_bit: "unat (take_bit n (w :: 'a::len word)) = unat w mod 2 ^ n"
proof -
  have "unat (take_bit n w) = take_bit n (unat w)" by (simp only: unsigned_take_bit_eq)
  then show ?thesis by (simp only: take_bit_eq_mod)
qed

section \<open>Little-endian byte images\<close>

definition le_bytes :: "nat \<Rightarrow> 'a::len word \<Rightarrow> byte list" where
  "le_bytes n w = map (\<lambda>i. ucast (drop_bit (8 * i) w)) [0..<n]"

fun le_word :: "byte list \<Rightarrow> 'a::len word" where
  "le_word [] = 0"
| "le_word (b # bs) = ucast b OR push_bit 8 (le_word bs)"

lemma length_le_bytes [simp]: "length (le_bytes n w) = n"
  by (simp add: le_bytes_def)

lemma le_bytes_Suc: "le_bytes (Suc n) w = ucast w # le_bytes n (drop_bit 8 w)"
  unfolding le_bytes_def by (simp only: upt_conv_Cons map_Suc_upt [symmetric] list.map map_map o_def) (simp add: add.commute)

lemma bit_le_word:
  "bit (le_word bs :: 'a::len word) i \<longleftrightarrow>
     i < LENGTH('a) \<and> i < 8 * length bs \<and> bit (bs ! (i div 8)) (i mod 8)"
proof (induction bs arbitrary: i)
  case Nil
  then show ?case by simp
next
  case (Cons b bs)
  show ?case
  proof (cases "i < 8")
    case True
    then show ?thesis by (auto simp: bit_or_iff bit_push_bit_iff bit_unsigned_iff)
  next
    case False
    then have "\<not> bit b i" using bit_imp_le_length [of b i] by auto
    moreover have "i div 8 = Suc ((i - 8) div 8)" and "i mod 8 = (i - 8) mod 8"
      using False by (simp_all add: le_div_geq le_mod_geq)
    ultimately show ?thesis
      using False Cons.IH [of "i - 8"] by (auto simp: bit_or_iff bit_push_bit_iff bit_unsigned_iff)
  qed
qed

lemma nth_le_bytes: "i < n \<Longrightarrow> le_bytes n w ! i = ucast (drop_bit (8 * i) w)"
  by (simp add: le_bytes_def)

lemma le_word_le_bytes:
  assumes "LENGTH('a::len) = 8 * n"
  shows "le_word (le_bytes n (w :: 'a word)) = w"
proof (rule bit_word_eqI)
  fix i assume "i < LENGTH('a)"
  then show "bit (le_word (le_bytes n w) :: 'a word) i = bit w i"
    using assms by (simp add: bit_le_word nth_le_bytes bit_unsigned_iff bit_drop_bit_eq)
qed

lemma le_bytes_le_word:
  assumes "LENGTH('a::len) = 8 * n" and "length bs = n"
  shows "le_bytes n (le_word bs :: 'a word) = bs"
proof (rule nth_equalityI)
  show "length (le_bytes n (le_word bs :: 'a word)) = length bs" using assms by simp
next
  fix i assume "i < length (le_bytes n (le_word bs :: 'a word))"
  then have i: "i < n" by simp
  show "le_bytes n (le_word bs :: 'a word) ! i = bs ! i"
  proof (rule bit_word_eqI)
    fix j assume "j < LENGTH(8)"
    then have "8 * i + j < 8 * n" and "(8 * i + j) div 8 = i" and "(8 * i + j) mod 8 = j" and "j < 8"
      using i by simp_all
    then show "bit (le_bytes n (le_word bs :: 'a word) ! i) j = bit (bs ! i) j"
      using assms i by (simp add: nth_le_bytes bit_unsigned_iff bit_drop_bit_eq bit_le_word)
  qed
qed

section \<open>Fixed-width byte codecs\<close>

text \<open>
  A struct of the C++ code that is copied to and from a byte buffer is a pair of functions with
  these laws. Everything the message and socket layers need of a layout is proved here once.
\<close>

locale byte_codec =
  fixes width :: nat
    and wf :: "'a \<Rightarrow> bool"
    and enc :: "'a \<Rightarrow> byte list"
    and dec :: "byte list \<Rightarrow> 'a"
  assumes enc_length: "wf x \<Longrightarrow> length (enc x) = width"
    and dec_enc: "wf x \<Longrightarrow> dec (enc x) = x"
    and enc_dec: "length bs = width \<Longrightarrow> enc (dec bs) = bs"
    and dec_wf: "length bs = width \<Longrightarrow> wf (dec bs)"
begin

lemma dec_prefix: "wf x \<Longrightarrow> dec (take width (enc x @ rest)) = x"
  by (simp add: enc_length dec_enc)

lemma drop_prefix: "wf x \<Longrightarrow> drop width (enc x @ rest) = rest"
  by (simp add: enc_length)

lemma enc_inject: "wf x \<Longrightarrow> wf y \<Longrightarrow> enc x = enc y \<longleftrightarrow> x = y"
  by (metis dec_enc)

lemma split_buffer: "width \<le> length bs \<Longrightarrow> enc (dec (take width bs)) @ drop width bs = bs"
  by (simp add: enc_dec)

end

definition slice :: "nat \<Rightarrow> nat \<Rightarrow> 'a list \<Rightarrow> 'a list" where
  "slice i n xs = take n (drop i xs)"

lemma length_slice [simp]: "i + n \<le> length xs \<Longrightarrow> length (slice i n xs) = n"
  by (simp add: slice_def)

lemma slice_join [codec_simps]: "j = i + n \<Longrightarrow> slice i n xs @ slice j m xs = slice i (n + m) xs"
  by (simp add: slice_def take_add add.commute [of i])

lemma slice_all [codec_simps]: "n = length xs \<Longrightarrow> slice 0 n xs = xs"
  by (simp add: slice_def)

interpretation u16_codec: byte_codec 2 "\<lambda>_. True" "le_bytes 2 :: u16 \<Rightarrow> byte list" le_word
  by unfold_locales (simp_all add: le_word_le_bytes le_bytes_le_word)

interpretation u32_codec: byte_codec 4 "\<lambda>_. True" "le_bytes 4 :: u32 \<Rightarrow> byte list" le_word
  by unfold_locales (simp_all add: le_word_le_bytes le_bytes_le_word)

interpretation u64_codec: byte_codec 8 "\<lambda>_. True" "le_bytes 8 :: u64 \<Rightarrow> byte list" le_word
  by unfold_locales (simp_all add: le_word_le_bytes le_bytes_le_word)

section \<open>Pools of slots\<close>

text \<open>
  What a client of the object pool relies on: a free list of handles, taken and given back at
  its front.
\<close>

locale slot_pool =
  fixes inv :: "'p \<Rightarrow> bool"
    and free :: "'p \<Rightarrow> 'h list"
    and slots :: "'h set"
    and acq :: "'p \<Rightarrow> 'h option \<times> 'p"
    and rel :: "'h \<Rightarrow> 'p \<Rightarrow> 'p"
  assumes free_distinct: "inv p \<Longrightarrow> distinct (free p)"
    and free_slots: "inv p \<Longrightarrow> set (free p) \<subseteq> slots"
    and acq_nil: "inv p \<Longrightarrow> free p = [] \<Longrightarrow> acq p = (None, p)"
    and acq_cons: "inv p \<Longrightarrow> free p = h # hs \<Longrightarrow> \<exists>p'. acq p = (Some h, p') \<and> inv p' \<and> free p' = hs"
    and rel_free: "inv p \<Longrightarrow> h \<in> slots \<Longrightarrow> h \<notin> set (free p) \<Longrightarrow> inv (rel h p) \<and> free (rel h p) = h # free p"
begin

lemma acq_inv:
  assumes "inv p"
  shows "inv (snd (acq p))"
proof (cases "free p")
  case Nil
  with assms show ?thesis by (simp add: acq_nil)
next
  case (Cons h hs)
  with assms acq_cons show ?thesis by fastforce
qed

lemma acq_None_iff: "inv p \<Longrightarrow> fst (acq p) = None \<longleftrightarrow> free p = []"
  using acq_nil acq_cons by (cases "free p") fastforce+

lemma acq_Some:
  assumes "inv p" "fst (acq p) = Some h"
  shows "h \<in> slots" "free p = h # free (snd (acq p))" "h \<notin> set (free (snd (acq p)))"
proof -
  obtain x xs where f: "free p = x # xs" using assms acq_None_iff [OF assms(1)] by (cases "free p") auto
  with assms acq_cons obtain p' where "acq p = (Some x, p')" "free p' = xs" by metis
  with assms f show *: "free p = h # free (snd (acq p))" by simp
  show "h \<in> slots" using free_slots [OF assms(1)] * by auto
  show "h \<notin> set (free (snd (acq p)))" using free_distinct [OF assms(1)] * by auto
qed

lemma acq_then_rel:
  assumes "inv p" "fst (acq p) = Some h"
  shows "free (rel h (snd (acq p))) = free p"
  using acq_Some [OF assms] acq_inv [OF assms(1)] rel_free by metis

end

section \<open>Bounded queues\<close>

text \<open>
  What a client of a bounded first-in-first-out queue relies on: the queue represents a list,
  \<open>enq\<close> appends while there is room, \<open>deq\<close> takes the front. The representation also carries the
  number of items taken so far, which bounds the life of the queue's counters.
\<close>

locale bounded_queue =
  fixes rep :: "'q \<Rightarrow> nat \<Rightarrow> 'a list \<Rightarrow> bool"
    and cap :: nat
    and life :: nat
    and enq :: "'a \<Rightarrow> 'q \<Rightarrow> bool \<times> 'q"
    and deq :: "'a \<Rightarrow> 'q \<Rightarrow> bool \<times> 'a \<times> 'q"
  assumes rep_cap: "rep q r xs \<Longrightarrow> length xs \<le> cap"
    and enq_full: "rep q r xs \<Longrightarrow> length xs = cap \<Longrightarrow> r + length xs < life \<Longrightarrow> enq x q = (False, q)"
    and enq_room: "rep q r xs \<Longrightarrow> length xs < cap \<Longrightarrow> r + length xs < life \<Longrightarrow>
      \<exists>q'. enq x q = (True, q') \<and> rep q' r (xs @ [x])"
    and deq_empty: "rep q r [] \<Longrightarrow> r < life \<Longrightarrow> deq out q = (False, out, q)"
    and deq_front: "rep q r (x # xs) \<Longrightarrow> r + length xs < life \<Longrightarrow>
      \<exists>q'. deq out q = (True, x, q') \<and> rep q' (Suc r) xs"
begin

fun enq_list :: "'a list \<Rightarrow> 'q \<Rightarrow> nat \<times> 'q" where
  "enq_list [] q = (0, q)"
| "enq_list (x # xs) q = (case enq x q of (ok, q') \<Rightarrow> case enq_list xs q' of (n, q'') \<Rightarrow> ((if ok then 1 else 0) + n, q''))"

fun deq_list :: "nat \<Rightarrow> 'a \<Rightarrow> 'q \<Rightarrow> 'a list \<times> 'q" where
  "deq_list 0 out q = ([], q)"
| "deq_list (Suc n) out q = (case deq out q of
     (True, x, q') \<Rightarrow> (case deq_list n x q' of (xs, q'') \<Rightarrow> (x # xs, q''))
   | (False, x, q') \<Rightarrow> ([], q'))"

lemma enq_list_rep:
  assumes "rep q r ys" "r + cap < life"
  shows "\<exists>q'. enq_list xs q = (min (length xs) (cap - length ys), q') \<and> rep q' r (ys @ take (cap - length ys) xs)"
  using assms(1)
proof (induction xs arbitrary: q ys)
  case (Cons x xs)
  have le: "length ys \<le> cap" by (rule rep_cap [OF Cons.prems])
  show ?case
  proof (cases "length ys = cap")
    case True
    have "enq x q = (False, q)" using enq_full [OF Cons.prems True] assms(2) True by simp
    with Cons.IH [OF Cons.prems] True show ?thesis by simp
  next
    case False
    with le have lt: "length ys < cap" by simp
    then obtain q1 where q1: "enq x q = (True, q1)" "rep q1 r (ys @ [x])"
      using enq_room [OF Cons.prems] assms(2) by fastforce
    have "cap - length ys = Suc (cap - length (ys @ [x]))" using lt by simp
    with Cons.IH [OF q1(2)] q1(1) show ?thesis by auto
  qed
qed simp

lemma deq_list_rep:
  assumes "rep q r xs" "r + length xs < life"
  shows "fst (deq_list (length xs + n) out q) = xs"
  using assms
proof (induction xs arbitrary: q r out)
  case Nil
  have "deq out q = (False, out, q)" by (rule deq_empty [OF Nil.prems(1)]) (use Nil.prems(2) in simp)
  then show ?case by (cases n) simp_all
next
  case (Cons x xs)
  obtain q1 where q1: "deq out q = (True, x, q1)" "rep q1 (Suc r) xs"
    using deq_front [OF Cons.prems(1), of out] Cons.prems(2) by auto
  have "fst (deq_list (length xs + n) x q1) = xs" by (rule Cons.IH [OF q1(2)]) (use Cons.prems(2) in simp)
  with q1 show ?case by (simp add: split_beta)
qed

text \<open>Filling a queue and emptying it returns what fitted, in order.\<close>

lemma fill_and_drain:
  assumes "rep q r []" "r + cap < life" "length xs \<le> n"
  shows "fst (deq_list n out (snd (enq_list xs q))) = take cap xs"
proof -
  obtain q' where q': "snd (enq_list xs q) = q'" "rep q' r (take cap xs)"
    using enq_list_rep [OF assms(1,2), of xs] by auto
  have "fst (deq_list (length (take cap xs) + (n - length (take cap xs))) out q') = take cap xs"
    by (rule deq_list_rep [OF q'(2)]) (use assms(2) in simp)
  then show ?thesis using assms(3) q'(1) by simp
qed

end

section \<open>Bounded maps\<close>

lemma nth_list_update_read: "k < length xs \<Longrightarrow> xs[j := e] ! k = (if k = j then e else xs ! k)"
  by (cases "k = j") simp_all

lemma option_ext: "(\<And>v. x = Some v \<longleftrightarrow> y = Some v) \<Longrightarrow> x = y"
  by (cases x; cases y) auto

text \<open>
  What a client of a table of named entries relies on: names are identified by their keys, \<open>put\<close>
  enters or refreshes a key while there is room, \<open>del\<close> removes it, \<open>tch\<close> changes an entry that is
  there. The client lemmas compare whole runs with the map they stand for.
\<close>

datatype ('n, 'a, 't) map_op = Put 'n 'a | Del 'n | Tch 'n 't

locale bounded_map =
  fixes inv :: "'r \<Rightarrow> bool"
    and look :: "'r \<Rightarrow> 'k \<Rightarrow> 'v option"
    and cap :: nat
    and key :: "'n \<Rightarrow> 'k"
    and good :: "'n \<Rightarrow> bool"
    and put :: "'n \<Rightarrow> 'a \<Rightarrow> 'r \<Rightarrow> bool \<times> 'r"
    and del :: "'n \<Rightarrow> 'r \<Rightarrow> 'r"
    and tch :: "'n \<Rightarrow> 't \<Rightarrow> 'r \<Rightarrow> 'r"
    and entry :: "'n \<Rightarrow> 'a \<Rightarrow> 'v option \<Rightarrow> 'v"
    and touched :: "'t \<Rightarrow> 'v \<Rightarrow> 'v"
  assumes put_ok: "inv r \<Longrightarrow> good n \<Longrightarrow> key n \<in> dom (look r) \<or> card (dom (look r)) < cap \<Longrightarrow>
      \<exists>r'. put n a r = (True, r') \<and> inv r' \<and> look r' = (look r)(key n \<mapsto> entry n a (look r (key n)))"
    and put_full: "inv r \<Longrightarrow> good n \<Longrightarrow> key n \<notin> dom (look r) \<Longrightarrow> \<not> card (dom (look r)) < cap \<Longrightarrow>
      put n a r = (False, r)"
    and del_law: "inv r \<Longrightarrow> inv (del n r) \<and> look (del n r) = (look r)(key n := None)"
    and tch_law: "inv r \<Longrightarrow>
      inv (tch n t r) \<and> look (tch n t r) = (look r)(key n := map_option (touched t) (look r (key n)))"
begin

fun run :: "('n, 'a, 't) map_op list \<Rightarrow> 'r \<Rightarrow> bool list \<times> 'r" where
  "run [] r = ([], r)"
| "run (Put n a # ops) r = (case put n a r of (ok, r') \<Rightarrow> case run ops r' of (oks, r'') \<Rightarrow> (ok # oks, r''))"
| "run (Del n # ops) r = run ops (del n r)"
| "run (Tch n t # ops) r = run ops (tch n t r)"

fun spec_run :: "('n, 'a, 't) map_op list \<Rightarrow> ('k \<Rightarrow> 'v option) \<Rightarrow> bool list \<times> ('k \<Rightarrow> 'v option)" where
  "spec_run [] m = ([], m)"
| "spec_run (Put n a # ops) m =
     (if key n \<in> dom m \<or> card (dom m) < cap
      then (case spec_run ops (m(key n \<mapsto> entry n a (m (key n)))) of (oks, m') \<Rightarrow> (True # oks, m'))
      else (case spec_run ops m of (oks, m') \<Rightarrow> (False # oks, m')))"
| "spec_run (Del n # ops) m = spec_run ops (m(key n := None))"
| "spec_run (Tch n t # ops) m = spec_run ops (m(key n := map_option (touched t) (m (key n))))"

lemma run_refines:
  assumes "inv r" "\<forall>n a. Put n a \<in> set ops \<longrightarrow> good n"
  shows "\<exists>r'. run ops r = (fst (spec_run ops (look r)), r') \<and> inv r' \<and> look r' = snd (spec_run ops (look r))"
  using assms
proof (induction ops r rule: run.induct)
  case (2 n a ops r)
  have n: "good n" using "2.prems" by simp
  show ?case
  proof (cases "key n \<in> dom (look r) \<or> card (dom (look r)) < cap")
    case True
    from put_ok [OF "2.prems"(1) n True, of a] obtain r' where
      r': "put n a r = (True, r')" "inv r'" "look r' = (look r)(key n \<mapsto> entry n a (look r (key n)))" by blast
    from "2.IH" [OF r'(1) [symmetric] r'(2)] "2.prems"(2) obtain r2 where
      "run ops r' = (fst (spec_run ops (look r')), r2)" "inv r2" "look r2 = snd (spec_run ops (look r'))" by auto
    then show ?thesis using True unfolding r'(3) by (simp add: r'(1) split_beta del: fun_upd_apply)
  next
    case False
    with put_full [OF "2.prems"(1) n] have "put n a r = (False, r)" by blast
    moreover from "2.IH" [OF this [symmetric] "2.prems"(1)] "2.prems"(2) obtain r2 where
      "run ops r = (fst (spec_run ops (look r)), r2)" "inv r2" "look r2 = snd (spec_run ops (look r))" by auto
    ultimately show ?thesis using False by (simp add: split_beta)
  qed
next
  case (3 n ops r)
  then show ?case using del_law [of r n] by (simp del: fun_upd_apply)
next
  case (4 n t ops r)
  then show ?case using tch_law [of r n t] by (simp del: fun_upd_apply)
qed simp

text \<open>Entering at most \<open>cap\<close> different keys into an empty map succeeds, and all are there.\<close>

lemma spec_put_all:
  assumes "distinct (map (\<lambda>na. key (fst na)) nas)" "finite (dom m)" "dom m \<inter> set (map (\<lambda>na. key (fst na)) nas) = {}"
    "card (dom m) + length nas \<le> cap"
  shows "fst (spec_run (map (\<lambda>(n, a). Put n a) nas) m) = replicate (length nas) True \<and>
    dom (snd (spec_run (map (\<lambda>(n, a). Put n a) nas) m)) = dom m \<union> set (map (\<lambda>na. key (fst na)) nas)"
  using assms
proof (induction nas arbitrary: m)
  case (Cons na nas)
  obtain n a where na: "na = (n, a)" by (cases na)
  let ?m = "m(key n \<mapsto> entry n a (m (key n)))"
  have room: "card (dom m) < cap" using Cons.prems(4) by simp
  have "card (dom ?m) = Suc (card (dom m))" using Cons.prems(2,3) by (simp add: na)
  then have "card (dom ?m) + length nas \<le> cap" using Cons.prems(4) by simp
  moreover have "finite (dom ?m)" "dom ?m \<inter> set (map (\<lambda>na. key (fst na)) nas) = {}" "distinct (map (\<lambda>na. key (fst na)) nas)"
    using Cons.prems(1-3) by (auto simp: na)
  ultimately have ih: "fst (spec_run (map (\<lambda>(n, a). Put n a) nas) ?m) = replicate (length nas) True"
    "dom (snd (spec_run (map (\<lambda>(n, a). Put n a) nas) ?m)) = insert (key n) (dom m) \<union> set (map (\<lambda>na. key (fst na)) nas)"
    using Cons.IH [of ?m] by (simp_all del: fun_upd_apply)
  have "spec_run (map (\<lambda>(n, a). Put n a) (na # nas)) m =
      (True # fst (spec_run (map (\<lambda>(n, a). Put n a) nas) ?m), snd (spec_run (map (\<lambda>(n, a). Put n a) nas) ?m))"
    using room by (simp add: na Let_def split_beta)
  then show ?case using ih by (simp add: na)
qed simp

end

section \<open>Reachability and invariants of step relations\<close>

inductive reachable :: "('s \<Rightarrow> bool) \<Rightarrow> ('s \<Rightarrow> 's \<Rightarrow> bool) \<Rightarrow> 's \<Rightarrow> bool"
  for init :: "'s \<Rightarrow> bool" and step :: "'s \<Rightarrow> 's \<Rightarrow> bool" where
  reach_init: "init s \<Longrightarrow> reachable init step s"
| reach_step: "reachable init step s \<Longrightarrow> step s t \<Longrightarrow> reachable init step t"

lemma rtranclp_loop:
  assumes "\<And>k. k < m \<Longrightarrow> R (f k) (f (Suc k))"
  shows "k \<le> m \<Longrightarrow> R\<^sup>*\<^sup>* (f k) (f m)"
  using assms by (induction m) (auto simp: le_Suc_eq intro: rtranclp.rtrancl_into_rtrancl)

lemma reachable_run: "step\<^sup>*\<^sup>* s t \<Longrightarrow> reachable init step s \<Longrightarrow> reachable init step t"
  by (induction rule: rtranclp_induct) (auto intro: reach_step)

locale invariant_system =
  fixes init :: "'s \<Rightarrow> bool"
    and step :: "'s \<Rightarrow> 's \<Rightarrow> bool"
    and inv :: "'s \<Rightarrow> bool"
  assumes inv_init: "init s \<Longrightarrow> inv s"
    and inv_step: "step s t \<Longrightarrow> inv s \<Longrightarrow> inv t"
begin

lemma reachable_inv: "reachable init step s \<Longrightarrow> inv s"
  by (induction rule: reachable.induct) (auto intro: inv_init inv_step)

end

text \<open>
  The counters of the code are machine words, so most invariants hold only while a history
  counter (\<open>fuel_used\<close>: items pushed, head updates made) has not reached the point where a word
  wraps. The counter never decreases, so the bound at the end of a run bounds the whole run.
\<close>

locale bounded_invariant_system =
  fixes init :: "'s \<Rightarrow> bool"
    and step :: "'s \<Rightarrow> 's \<Rightarrow> bool"
    and inv :: "'s \<Rightarrow> bool"
    and count :: "'s \<Rightarrow> nat"
    and bound :: nat
  assumes binv_init: "init s \<Longrightarrow> inv s"
    and count_mono: "step s t \<Longrightarrow> count s \<le> count t"
    and binv_step: "step s t \<Longrightarrow> inv s \<Longrightarrow> count t < bound \<Longrightarrow> inv t"

sublocale bounded_invariant_system \<subseteq> below: invariant_system init step "\<lambda>s. count s < bound \<longrightarrow> inv s"
proof unfold_locales
  fix s assume "init s"
  then show "count s < bound \<longrightarrow> inv s" by (simp add: binv_init)
next
  fix s t assume st: "step s t" and iv: "count s < bound \<longrightarrow> inv s"
  show "count t < bound \<longrightarrow> inv t"
    using count_mono [OF st] iv binv_step [OF st] by auto
qed

context bounded_invariant_system
begin

lemma reachable_below_inv: "reachable init step s \<Longrightarrow> count s < bound \<Longrightarrow> inv s"
  using below.reachable_inv by blast

end

end
