(* ===== verification/Crc32.thy ===== *)
theory Crc32
  imports Lwipc_Prelude
begin

text \<open>
  \<open>crc32_update\<close> of \<open>ipc_message.hpp\<close>, the nibble-table CRC, and its equivalence with the bitwise
  definition of CRC-32 (reflected polynomial \<open>0xEDB88320\<close>). The last lemmas say how the checksum
  depends on a single byte, which the message layer needs.
\<close>

definition kTable :: "u32 list" where
  "kTable = [
     0x00000000, 0x1db71064, 0x3b6e20c8, 0x26d930ac,
     0x76dc4190, 0x6b6b51f4, 0x4db26158, 0x5005713c,
     0xedb88320, 0xf00f9344, 0xd6d6a3e8, 0xcb61b38c,
     0x9b64c2b0, 0x86d3d2d4, 0xa00ae278, 0xbdbdf21c]"

definition crc_nibble :: "u32 \<Rightarrow> u32 \<Rightarrow> u32" where
  "crc_nibble crc v = drop_bit 4 crc XOR kTable ! unat ((crc XOR v) AND 0x0F)"

definition crc_byte :: "u32 \<Rightarrow> byte \<Rightarrow> u32" where
  "crc_byte crc b = crc_nibble (crc_nibble crc (ucast b)) (ucast (drop_bit 4 b))"

fun crc_loop :: "u32 \<Rightarrow> byte list \<Rightarrow> u32" where
  "crc_loop crc [] = crc"
| "crc_loop crc (b # bs) = crc_loop (crc_byte crc b) bs"

definition crc32_update :: "u32 \<Rightarrow> byte list \<Rightarrow> u32" where
  "crc32_update crc bs = crc_loop (crc XOR 0xFFFFFFFF) bs XOR 0xFFFFFFFF"

text \<open>The specification: one division step per bit.\<close>

definition crc_bit :: "u32 \<Rightarrow> u32" where
  "crc_bit crc = (if bit crc 0 then drop_bit 1 crc XOR 0xEDB88320 else drop_bit 1 crc)"

definition crc32_spec :: "byte list \<Rightarrow> u32" where
  "crc32_spec bs =
     NOT (foldl (\<lambda>crc b. (crc_bit ^^ 8) (crc XOR ucast b)) 0xFFFFFFFF bs)"

lemma xor_minus_one_eq_not: "x XOR (- 1) = NOT x" for x :: "'a::len word"
  by (rule bit_word_eqI) (auto simp: bit_xor_iff bit_not_iff bit_minus_1_iff)

lemma crc_bit_xor: "crc_bit (a XOR b) = crc_bit a XOR crc_bit b"
  by (rule bit_word_eqI) (auto simp: crc_bit_def bit_xor_iff bit_drop_bit_eq)

lemma crc_bit_pow_xor: "(crc_bit ^^ n) (a XOR b) = (crc_bit ^^ n) a XOR (crc_bit ^^ n) b"
  by (induction n arbitrary: a b) (simp_all add: crc_bit_xor)

lemma crc_bit_pow_shift:
  assumes "take_bit n x = 0"
  shows "(crc_bit ^^ n) x = drop_bit n x"
  using assms
proof (induction n arbitrary: x)
  case 0
  then show ?case by simp
next
  case (Suc n)
  then have b0: "\<not> bit x 0" and t: "take_bit n (drop_bit 1 x) = 0"
    by (metis bit_take_bit_iff zero_less_Suc bit_0_eq bot_fun_def bot_bool_def, metis drop_bit_take_bit drop_bit_of_0 diff_Suc_1 One_nat_def)
  then have "(crc_bit ^^ Suc n) x = (crc_bit ^^ n) (drop_bit 1 x)"
    by (simp add: crc_bit_def funpow_Suc_right del: funpow.simps)
  with Suc.IH [OF t] show ?case by simp
qed

lemma crc_bit_table_nat: "i < 16 \<Longrightarrow> (crc_bit ^^ 4) (of_nat i) = kTable ! i"
proof -
  have "\<forall>i \<in> set [0..<16]. (crc_bit ^^ 4) (of_nat i) = kTable ! i" by code_simp
  then show "i < 16 \<Longrightarrow> ?thesis" by simp
qed

lemma and_15_bound: "unat ((x :: u32) AND 15) < 16"
proof -
  have "unat (x AND 15) \<le> unat (15 :: u32)"
    by (rule word_and_le1 [THEN word_le_nat_alt [THEN iffD1]])
  then show ?thesis by simp
qed

lemma and_15_take_bit: "(x :: 'a::len word) AND 15 = take_bit 4 x"
  by (simp add: take_bit_eq_mask mask_eq_exp_minus_1)

lemma nibble_split: "push_bit 4 (drop_bit 4 x) XOR take_bit 4 x = x" for x :: "'a::len word"
  by (rule bit_word_eqI)
    (auto simp: bit_xor_iff bit_push_bit_iff bit_drop_bit_eq bit_take_bit_iff)

lemma crc_bit_four_shift:
  assumes "\<And>i. bit y i \<Longrightarrow> i < 28"
  shows "(crc_bit ^^ 4) (push_bit 4 y) = y"
proof -
  have "take_bit 4 (push_bit 4 y) = 0"
    by (rule bit_word_eqI) (auto simp: bit_take_bit_iff bit_push_bit_iff)
  moreover have "drop_bit 4 (push_bit 4 y) = y"
    by (rule bit_word_eqI) (auto simp: bit_drop_bit_eq bit_push_bit_iff dest: assms)
  ultimately show ?thesis by (simp add: crc_bit_pow_shift)
qed

lemma crc_bit_four: "(crc_bit ^^ 4) x = drop_bit 4 x XOR kTable ! unat (x AND 15)"
proof -
  have "(crc_bit ^^ 4) x = (crc_bit ^^ 4) (push_bit 4 (drop_bit 4 x) XOR (x AND 15))"
    by (simp only: nibble_split and_15_take_bit)
  also have "\<dots> = (crc_bit ^^ 4) (push_bit 4 (drop_bit 4 x)) XOR (crc_bit ^^ 4) (x AND 15)"
    by (rule crc_bit_pow_xor)
  also have "(crc_bit ^^ 4) (push_bit 4 (drop_bit 4 x)) = drop_bit 4 x"
    by (rule crc_bit_four_shift) (auto simp: bit_drop_bit_eq dest: bit_imp_le_length)
  also have "(crc_bit ^^ 4) (x AND 15) = kTable ! unat (x AND 15)"
    using crc_bit_table_nat [OF and_15_bound [of x]] by simp
  finally show ?thesis .
qed

lemma crc_nibble_bits: "crc_nibble crc v = (crc_bit ^^ 4) (crc XOR (v AND 15))"
proof -
  have "drop_bit 4 (crc XOR (v AND 15)) = drop_bit 4 crc"
    by (rule bit_word_eqI)
      (auto simp: bit_drop_bit_eq bit_xor_iff and_15_take_bit bit_take_bit_iff)
  moreover have "(crc XOR (v AND 15)) AND 15 = (crc XOR v) AND 15"
    by (rule bit_word_eqI) (auto simp: bit_xor_iff and_15_take_bit bit_take_bit_iff)
  ultimately show ?thesis by (simp add: crc_nibble_def crc_bit_four)
qed

lemma crc_byte_bits: "crc_byte crc b = (crc_bit ^^ 8) (crc XOR ucast b)"
proof -
  let ?lo = "(ucast b :: u32) AND 15" and ?hi = "ucast (drop_bit 4 b) :: u32"
  have hi: "?hi AND 15 = ?hi"
    by (rule bit_word_eqI)
      (auto simp: and_15_take_bit bit_take_bit_iff bit_unsigned_iff bit_drop_bit_eq
        dest: bit_imp_le_length)
  have split: "(ucast b :: u32) = push_bit 4 ?hi XOR ?lo"
    by (rule bit_word_eqI)
      (auto simp: and_15_take_bit bit_take_bit_iff bit_unsigned_iff bit_drop_bit_eq bit_xor_iff
        bit_push_bit_iff)
  have shift: "(crc_bit ^^ 4) (push_bit 4 ?hi) = ?hi"
    by (rule crc_bit_four_shift)
      (auto simp: bit_drop_bit_eq bit_unsigned_iff dest: bit_imp_le_length)
  have "crc XOR ucast b = (crc XOR ?lo) XOR push_bit 4 ?hi"
    by (subst split) (simp add: ac_simps)
  then have "(crc_bit ^^ 4) (crc XOR ucast b) = crc_nibble crc (ucast b) XOR ?hi"
    by (simp only: crc_bit_pow_xor shift crc_nibble_bits)
  moreover have "crc_byte crc b = (crc_bit ^^ 4) (crc_nibble crc (ucast b) XOR ?hi)"
    by (simp add: crc_byte_def crc_nibble_bits [of "crc_nibble crc (ucast b)"] hi)
  moreover have "(crc_bit ^^ 8) x = (crc_bit ^^ 4) ((crc_bit ^^ 4) x)" for x
    using funpow_add [of 4 4 crc_bit] by simp
  ultimately show ?thesis by simp
qed

lemma crc_loop_foldl: "crc_loop crc bs = foldl (\<lambda>crc b. (crc_bit ^^ 8) (crc XOR ucast b)) crc bs"
  by (induction bs arbitrary: crc) (simp_all add: crc_byte_bits)

lemma crc_loop_append: "crc_loop crc (xs @ ys) = crc_loop (crc_loop crc xs) ys"
  by (induction xs arbitrary: crc) simp_all

subsection \<open>The bit step is injective, so a changed byte changes the checksum\<close>

lemma crc_bit_top: "bit (crc_bit a) 31 = bit a 0"
  by (auto simp: crc_bit_def bit_xor_iff bit_drop_bit_eq dest: bit_imp_le_length)

lemma xor_left_cancel: "(a :: 'a::len word) XOR b = a XOR c \<longleftrightarrow> b = c"
  by (metis xor.left_neutral xor_self_eq xor.assoc)

lemma xor_right_cancel: "(b :: 'a::len word) XOR a = c XOR a \<longleftrightarrow> b = c"
  using xor_left_cancel [of a b c] by (simp only: xor.commute)

lemma crc_bit_inj: "inj crc_bit"
proof (rule injI)
  fix a b assume eq: "crc_bit a = crc_bit b"
  then have b0: "bit a 0 = bit b 0" using crc_bit_top [of a] crc_bit_top [of b] by simp
  with eq have d: "drop_bit 1 a = drop_bit 1 b"
    by (cases "bit b 0") (simp_all add: crc_bit_def xor_right_cancel)
  show "a = b"
  proof (rule bit_word_eqI)
    fix i
    have "bit (drop_bit 1 a) (i - 1) = bit (drop_bit 1 b) (i - 1)" by (simp only: d)
    then show "bit a i = bit b i" using b0 by (cases i) (simp_all add: bit_drop_bit_eq)
  qed
qed

lemma crc_bit_pow_inj: "(crc_bit ^^ n) a = (crc_bit ^^ n) b \<longleftrightarrow> a = b"
  by (induction n) (auto dest: injD [OF crc_bit_inj])

lemma crc_byte_inj_crc: "crc_byte a c = crc_byte b c \<longleftrightarrow> a = b"
  by (simp only: crc_byte_bits crc_bit_pow_inj xor_right_cancel)

lemma crc_byte_inj_data: "crc_byte a b = crc_byte a c \<longleftrightarrow> b = c"
proof -
  have "ucast (ucast x :: u32) = x" for x :: byte
    by (rule bit_word_eqI) (simp add: bit_unsigned_iff)
  then have "(ucast b :: u32) = ucast c \<longleftrightarrow> b = c" by metis
  then show ?thesis by (simp add: crc_byte_bits crc_bit_pow_inj xor_left_cancel)
qed

lemma crc_loop_inj: "crc_loop a bs = crc_loop b bs \<longleftrightarrow> a = b"
  by (induction bs arbitrary: a b) (simp_all add: crc_byte_inj_crc)

lemma crc_loop_change_byte:
  "crc_loop crc (xs @ b # ys) = crc_loop crc (xs @ c # ys) \<longleftrightarrow> b = c"
  by (simp add: crc_loop_append crc_loop_inj crc_byte_inj_data)

section \<open>Properties\<close>

text \<open>
  C13. The table-driven routine, which consumes a byte as two nibbles through a 16-entry table,
  computes the CRC-32 of ISO 3309: the bit-serial division by the reflected polynomial
  \<open>0xEDB88320\<close> with all-ones preset and final complement.
\<close>

theorem crc32_update_is_crc32: "crc32_update 0 bs = crc32_spec bs"
proof -
  have "(x :: u32) XOR 0xFFFFFFFF = NOT x" for x
  proof -
    have "(0xFFFFFFFF :: u32) = - 1" by simp
    then show ?thesis by (simp only: xor_minus_one_eq_not)
  qed
  moreover have "0 XOR 0xFFFFFFFF = (0xFFFFFFFF :: u32)" by (rule xor.left_neutral)
  ultimately show ?thesis by (simp only: crc32_update_def crc32_spec_def crc_loop_foldl)
qed

text \<open>
  The routine may be applied piecewise: continuing from the checksum of a prefix gives the
  checksum of the whole buffer, for any start value.
\<close>

theorem crc32_update_append: "crc32_update (crc32_update c xs) ys = crc32_update c (xs @ ys)"
  by (simp add: crc32_update_def crc_loop_append xor.assoc)

end
