(* ===== verification/Ipc_Message.thy ===== *)
theory Ipc_Message
  imports Crc32
begin

text \<open>
  \<open>IPCHeader\<close> and \<open>IPCMessage\<close> of \<open>ipc_message.hpp\<close>: the header as a record with its little-endian
  64-byte image, the constructors and the conversion to and from a byte buffer. A read outside
  the caller's memory is the value \<open>None\<close> of the constructor's model.
\<close>

datatype MsgType = UNKNOWN | IMAGE | POINTCLOUD | IMU | TENSOR | CONTROL_CMD

fun MsgType_code :: "MsgType \<Rightarrow> u16" where
  "MsgType_code UNKNOWN = 0"
| "MsgType_code IMAGE = 1"
| "MsgType_code POINTCLOUD = 2"
| "MsgType_code IMU = 3"
| "MsgType_code TENSOR = 4"
| "MsgType_code CONTROL_CMD = 5"

record IPCHeader =
  magic :: u32
  version :: u8
  pad0 :: "byte list"
  msg_type :: u16
  sensor_id :: u16
  align_pad :: "byte list"
  timestamp_ns :: u64
  sequence :: u64
  data_length :: u32
  checksum :: u32
  pad1 :: "byte list"

definition kMagic :: u32 where
  "kMagic = 0x4C574950"

definition kVersion :: u8 where
  "kVersion = 1"

definition IPCHeader_init :: IPCHeader where
  "IPCHeader_init = \<lparr>
     magic = kMagic, version = kVersion, pad0 = replicate 3 0,
     msg_type = MsgType_code UNKNOWN, sensor_id = 0, align_pad = replicate 4 0,
     timestamp_ns = 0, sequence = 0, data_length = 0, checksum = 0, pad1 = replicate 24 0\<rparr>"

definition IPCHeader_valid :: "IPCHeader \<Rightarrow> bool" where
  "IPCHeader_valid h \<longleftrightarrow> magic h = kMagic \<and> version h = kVersion"

definition sizeof_IPCHeader :: nat where
  "sizeof_IPCHeader = 64"

definition header_bytes :: "IPCHeader \<Rightarrow> byte list" where
  "header_bytes h =
     le_bytes 4 (magic h) @ [version h] @ pad0 h @ le_bytes 2 (msg_type h) @
     le_bytes 2 (sensor_id h) @ align_pad h @ le_bytes 8 (timestamp_ns h) @
     le_bytes 8 (sequence h) @ le_bytes 4 (data_length h) @ le_bytes 4 (checksum h) @ pad1 h"

definition header_of_bytes :: "byte list \<Rightarrow> IPCHeader" where
  "header_of_bytes bs = \<lparr>
     magic = le_word (slice 0 4 bs), version = bs ! 4, pad0 = slice 5 3 bs,
     msg_type = le_word (slice 8 2 bs), sensor_id = le_word (slice 10 2 bs),
     align_pad = slice 12 4 bs, timestamp_ns = le_word (slice 16 8 bs),
     sequence = le_word (slice 24 8 bs), data_length = le_word (slice 32 4 bs),
     checksum = le_word (slice 36 4 bs), pad1 = slice 40 24 bs\<rparr>"

definition header_layout :: "IPCHeader \<Rightarrow> bool" where
  "header_layout h \<longleftrightarrow> length (pad0 h) = 3 \<and> length (align_pad h) = 4 \<and> length (pad1 h) = 24"

record IPCMessage =
  msg_header :: IPCHeader
  msg_data :: "byte list"
  msg_valid :: bool

definition IPCMessage_default :: IPCMessage where
  "IPCMessage_default = \<lparr>msg_header = IPCHeader_init, msg_data = [], msg_valid = False\<rparr>"

definition compute_checksum :: "IPCMessage \<Rightarrow> u32" where
  "compute_checksum m = (if msg_data m = [] then 0 else crc32_update 0 (msg_data m))"

definition read_memory :: "byte list \<Rightarrow> nat \<Rightarrow> byte list option" where
  "read_memory mem n = (if n \<le> length mem then Some (take n mem) else None)"

definition IPCMessage_ctor :: "IPCHeader \<Rightarrow> byte list option \<Rightarrow> u32 \<Rightarrow> IPCMessage option" where
  "IPCMessage_ctor hdr payload len =
     (let m = \<lparr>msg_header = hdr\<lparr>data_length := len\<rparr>, msg_data = [], msg_valid = True\<rparr>;
          finish = (\<lambda>m. m\<lparr>msg_header := (msg_header m)\<lparr>checksum := compute_checksum m\<rparr>\<rparr>)
      in case payload of
           Some mem \<Rightarrow>
             if 0 < len then map_option (\<lambda>bs. finish (m\<lparr>msg_data := bs\<rparr>)) (read_memory mem (unat len))
             else Some (finish m)
         | None \<Rightarrow> Some (finish m))"

definition IPCMessage_make ::
  "MsgType \<Rightarrow> u16 \<Rightarrow> u64 \<Rightarrow> u64 \<Rightarrow> byte list \<Rightarrow> IPCMessage option" where
  "IPCMessage_make ty sid ts sq payload =
     (let hdr = IPCHeader_init\<lparr>msg_type := MsgType_code ty, sensor_id := sid,
                  timestamp_ns := ts, sequence := sq\<rparr>
      in IPCMessage_ctor hdr (Some payload) (of_nat (length payload)))"

definition from_buffer :: "byte list \<Rightarrow> IPCMessage" where
  "from_buffer buf =
     (if length buf < sizeof_IPCHeader then IPCMessage_default
      else let m = IPCMessage_default\<lparr>msg_header := header_of_bytes (take sizeof_IPCHeader buf)\<rparr>
      in if \<not> IPCHeader_valid (msg_header m) then IPCMessage_default
      else let dlen = data_length (msg_header m)
      in if 0 < dlen
         then if length buf < sizeof_IPCHeader + unat dlen then IPCMessage_default
              else m\<lparr>msg_data := take (unat dlen) (drop sizeof_IPCHeader buf), msg_valid := True\<rparr>
         else m\<lparr>msg_valid := True\<rparr>)"

definition to_buffer :: "IPCMessage \<Rightarrow> byte list" where
  "to_buffer m = header_bytes (msg_header m) @ msg_data m"

definition verify_checksum :: "IPCMessage \<Rightarrow> bool" where
  "verify_checksum m \<longleftrightarrow> msg_valid m \<and> checksum (msg_header m) = compute_checksum m"

definition as_payload :: "nat \<Rightarrow> IPCMessage \<Rightarrow> byte list option" where
  "as_payload sz m = (if length (msg_data m) < sz then None else Some (take sz (msg_data m)))"

section \<open>The header codec\<close>

lemma nth_slice_one [codec_simps]: "i < length xs \<Longrightarrow> [xs ! i] = slice i 1 xs"
  by (simp add: slice_def Cons_nth_drop_Suc [symmetric])

interpretation header_codec: byte_codec sizeof_IPCHeader header_layout header_bytes header_of_bytes
proof unfold_locales
  fix h assume "header_layout h"
  then show "length (header_bytes h) = sizeof_IPCHeader"
    by (simp add: header_layout_def header_bytes_def sizeof_IPCHeader_def)
next
  fix h assume "header_layout h"
  then show "header_of_bytes (header_bytes h) = h"
    by (simp add: header_layout_def header_bytes_def header_of_bytes_def slice_def
        le_word_le_bytes nth_append)
next
  fix bs :: "byte list" assume "length bs = sizeof_IPCHeader"
  then show "header_bytes (header_of_bytes bs) = bs"
    by (simp add: header_bytes_def header_of_bytes_def sizeof_IPCHeader_def le_bytes_le_word
        codec_simps del: append.simps)
next
  fix bs :: "byte list" assume "length bs = sizeof_IPCHeader"
  then show "header_layout (header_of_bytes bs)"
    by (simp add: header_layout_def header_of_bytes_def sizeof_IPCHeader_def)
qed

section \<open>Serialisation\<close>

lemma length_to_buffer:
  "header_layout (msg_header m) \<Longrightarrow> length (to_buffer m) = sizeof_IPCHeader + length (msg_data m)"
  by (simp add: to_buffer_def header_codec.enc_length)

lemma from_buffer_to_buffer:
  assumes "header_layout (msg_header m)" "IPCHeader_valid (msg_header m)" "msg_valid m"
    and "length (msg_data m) = unat (data_length (msg_header m))"
  shows "from_buffer (to_buffer m @ rest) = m"
proof -
  let ?h = "msg_header m"
  define buf where "buf = to_buffer m @ rest"
  have hdr: "header_of_bytes (take sizeof_IPCHeader buf) = ?h"
    using header_codec.dec_prefix [OF assms(1), of "msg_data m @ rest"]
    by (simp only: buf_def to_buffer_def append_assoc)
  have dat: "drop sizeof_IPCHeader buf = msg_data m @ rest"
    using header_codec.drop_prefix [OF assms(1), of "msg_data m @ rest"]
    by (simp only: buf_def to_buffer_def append_assoc)
  have len: "length buf = sizeof_IPCHeader + unat (data_length ?h) + length rest"
    using length_to_buffer [OF assms(1)] assms(4) by (simp add: buf_def)
  have "from_buffer buf = m"
  proof (cases "0 < data_length ?h")
    case True
    then show ?thesis
      using assms by (simp add: from_buffer_def Let_def hdr dat len IPCMessage_default_def)
  next
    case False
    then have "msg_data m = []" using assms(4) by (simp add: word_greater_zero_iff)
    with False show ?thesis
      using assms by (simp add: from_buffer_def Let_def hdr len IPCMessage_default_def)
  qed
  then show ?thesis by (simp add: buf_def)
qed

lemma from_buffer_valid_iff:
  "msg_valid (from_buffer buf) \<longleftrightarrow>
     sizeof_IPCHeader \<le> length buf \<and>
     IPCHeader_valid (header_of_bytes (take sizeof_IPCHeader buf)) \<and>
     sizeof_IPCHeader + unat (data_length (header_of_bytes (take sizeof_IPCHeader buf))) \<le> length buf"
  by (auto simp: from_buffer_def Let_def IPCMessage_default_def word_greater_zero_iff)

section \<open>Construction\<close>

abbreviation signed :: "IPCMessage \<Rightarrow> IPCMessage" where
  "signed m \<equiv> m\<lparr>msg_header := (msg_header m)\<lparr>checksum := compute_checksum m\<rparr>\<rparr>"

lemma ctor_payload:
  assumes "unat len \<le> length mem"
  shows "IPCMessage_ctor hdr (Some mem) len =
    Some (signed \<lparr>msg_header = hdr\<lparr>data_length := len\<rparr>, msg_data = take (unat len) mem, msg_valid = True\<rparr>)"
  using assms by (auto simp: IPCMessage_ctor_def read_memory_def Let_def word_greater_zero_iff)

lemma ctor_cases:
  assumes "IPCMessage_ctor hdr payload len = Some m"
  obtains bs where "m = signed \<lparr>msg_header = hdr\<lparr>data_length := len\<rparr>, msg_data = bs, msg_valid = True\<rparr>"
    and "bs = [] \<or> length bs = unat len"
proof (cases "payload = None \<or> len = 0")
  case True
  then have "m = signed \<lparr>msg_header = hdr\<lparr>data_length := len\<rparr>, msg_data = [], msg_valid = True\<rparr>"
    using assms by (auto simp: IPCMessage_ctor_def Let_def split: option.splits)
  then show thesis by (rule that) simp
next
  case False
  then obtain mem where mem: "payload = Some mem" "0 < len" by (auto simp: word_greater_zero_iff)
  with assms have "unat len \<le> length mem"
    by (auto simp: IPCMessage_ctor_def Let_def read_memory_def split: if_splits)
  with assms mem ctor_payload [of len mem hdr] show thesis
    by (intro that [of "take (unat len) mem"]) simp_all
qed

lemma signed_checksum: "msg_valid m \<Longrightarrow> verify_checksum (signed m)"
  by (simp add: verify_checksum_def compute_checksum_def)

lemma ctor_fields:
  assumes "IPCMessage_ctor hdr payload len = Some m"
  shows "msg_valid m" "data_length (msg_header m) = len" "verify_checksum m"
    "header_layout (msg_header m) = header_layout hdr"
    "IPCHeader_valid (msg_header m) = IPCHeader_valid hdr"
proof -
  from assms obtain bs where m: "m = signed \<lparr>msg_header = hdr\<lparr>data_length := len\<rparr>, msg_data = bs, msg_valid = True\<rparr>"
    by (rule ctor_cases)
  show "verify_checksum m" unfolding m by (rule signed_checksum) simp
  show "msg_valid m" "data_length (msg_header m) = len"
    "header_layout (msg_header m) = header_layout hdr"
    "IPCHeader_valid (msg_header m) = IPCHeader_valid hdr"
    by (simp_all add: m header_layout_def IPCHeader_valid_def)
qed

lemma make_message:
  assumes "length payload < 2 ^ 32"
  shows "IPCMessage_make ty sid ts sq payload =
    Some (signed \<lparr>msg_header = IPCHeader_init\<lparr>msg_type := MsgType_code ty, sensor_id := sid,
        timestamp_ns := ts, sequence := sq, data_length := of_nat (length payload)\<rparr>,
      msg_data = payload, msg_valid = True\<rparr>)"
proof -
  have "unat (of_nat (length payload) :: u32) = length payload"
    using assms by (simp add: unsigned_of_nat take_bit_nat_eq_self)
  then show ?thesis unfolding IPCMessage_make_def Let_def by (simp add: ctor_payload)
qed

lemma IPCHeader_init_ok [simp]: "header_layout IPCHeader_init" "IPCHeader_valid IPCHeader_init"
  by (simp_all add: header_layout_def IPCHeader_init_def IPCHeader_valid_def)

lemma crc32_update_changed_byte:
  assumes "i < length bs" "b \<noteq> bs ! i"
  shows "crc32_update c (bs[i := b]) \<noteq> crc32_update c bs"
proof -
  have "bs = take i bs @ bs ! i # drop (Suc i) bs" by (rule id_take_nth_drop [OF assms(1)])
  then have "crc_loop crc (bs[i := b]) \<noteq> crc_loop crc bs" for crc
    using assms crc_loop_change_byte [of crc "take i bs" b "drop (Suc i) bs" "bs ! i"]
    by (simp add: upd_conv_take_nth_drop)
  then show ?thesis by (simp add: crc32_update_def xor_right_cancel)
qed

lemma from_buffer_accepts:
  assumes "msg_valid (from_buffer buf)"
  shows "to_buffer (from_buffer buf) =
    take (sizeof_IPCHeader + unat (data_length (header_of_bytes (take sizeof_IPCHeader buf)))) buf"
proof -
  let ?h = "header_of_bytes (take sizeof_IPCHeader buf)"
  from assms have c: "sizeof_IPCHeader \<le> length buf" "IPCHeader_valid ?h"
    "sizeof_IPCHeader + unat (data_length ?h) \<le> length buf"
    unfolding from_buffer_valid_iff by blast+
  have "from_buffer buf = \<lparr>msg_header = ?h,
      msg_data = take (unat (data_length ?h)) (drop sizeof_IPCHeader buf), msg_valid = True\<rparr>"
    using c by (simp add: from_buffer_def Let_def IPCMessage_default_def word_greater_zero_iff)
  moreover have "header_bytes ?h = take sizeof_IPCHeader buf"
    using c(1) by (simp add: header_codec.enc_dec)
  ultimately show ?thesis by (simp add: to_buffer_def take_add)
qed

lemma make_survives:
  assumes "length payload < 2 ^ 32"
  shows "\<exists>m. IPCMessage_make ty sid ts sq payload = Some m \<and>
    from_buffer (to_buffer m @ rest) = m \<and> msg_valid m \<and> verify_checksum m \<and>
    as_payload (length payload) m = Some payload \<and> msg_type (msg_header m) = MsgType_code ty \<and>
    sensor_id (msg_header m) = sid \<and> timestamp_ns (msg_header m) = ts \<and> sequence (msg_header m) = sq"
proof -
  let ?m0 = "\<lparr>msg_header = IPCHeader_init\<lparr>msg_type := MsgType_code ty, sensor_id := sid,
        timestamp_ns := ts, sequence := sq, data_length := of_nat (length payload)\<rparr>,
      msg_data = payload, msg_valid = True\<rparr>"
  have len: "unat (of_nat (length payload) :: u32) = length payload"
    using assms by (simp add: unsigned_of_nat take_bit_nat_eq_self)
  have "from_buffer (to_buffer (signed ?m0) @ rest) = signed ?m0"
    by (rule from_buffer_to_buffer)
      (use IPCHeader_init_ok in \<open>simp_all add: len header_layout_def IPCHeader_valid_def\<close>)
  moreover have "verify_checksum (signed ?m0)" by (rule signed_checksum) simp
  ultimately show ?thesis
    using make_message [OF assms, of ty sid ts sq] by (simp add: as_payload_def)
qed

section \<open>Properties\<close>

text \<open>
  C10. A message built by \<open>IPCMessage::make\<close> survives serialisation: \<open>from_buffer\<close> of
  \<open>to_buffer\<close>, with any further bytes behind it in the buffer, is the same message; it is valid,
  its checksum verifies and the typed accessor returns the payload.
\<close>

theorem make_roundtrip:
  assumes "length payload < 2 ^ 32"
  shows "\<exists>m. IPCMessage_make ty sid ts sq payload = Some m \<and>
    from_buffer (to_buffer m @ rest) = m \<and> msg_valid m \<and> verify_checksum m \<and>
    as_payload (length payload) m = Some payload \<and> msg_type (msg_header m) = MsgType_code ty \<and>
    sensor_id (msg_header m) = sid \<and> timestamp_ns (msg_header m) = ts \<and> sequence (msg_header m) = sq"
  by (rule make_survives [OF assms])

theorem make_roundtrip_witness:
  "\<exists>m. IPCMessage_make IMU 5 99 7 [1, 2, 3] = Some m \<and> from_buffer (to_buffer m @ [9]) = m \<and>
     as_payload 3 m = Some [1, 2, 3]"
  using make_roundtrip [of "[1, 2, 3]" IMU 5 99 7 "[9]"] by (auto simp: numeral_3_eq_3)

text \<open>
  C16. Changing any one byte of the payload of a serialised message is noticed: the receiver still
  parses the message, and its checksum does not verify.
\<close>

theorem corrupted_byte_detected:
  assumes "length payload < 2 ^ 32" "IPCMessage_make ty sid ts sq payload = Some m"
    and "i < length payload" "b \<noteq> payload ! i"
  defines "received \<equiv> from_buffer ((to_buffer m)[sizeof_IPCHeader + i := b])"
  shows "msg_valid received \<and> msg_data received = payload[i := b] \<and> \<not> verify_checksum received"
proof -
  have len: "unat (of_nat (length payload) :: u32) = length payload"
    using assms(1) by (simp add: unsigned_of_nat take_bit_nat_eq_self)
  have dat: "msg_data m = payload" and val: "msg_valid m" and lay: "header_layout (msg_header m)"
    and hv: "IPCHeader_valid (msg_header m)"
    and dl: "length payload = unat (data_length (msg_header m))"
    and ck: "checksum (msg_header m) = crc32_update 0 payload"
    using assms(2,3) make_message [OF assms(1), of ty sid ts sq] IPCHeader_init_ok len
    by (auto simp: header_layout_def IPCHeader_valid_def compute_checksum_def)
  let ?m' = "m\<lparr>msg_data := payload[i := b]\<rparr>"
  have "(to_buffer m)[sizeof_IPCHeader + i := b] = to_buffer ?m'"
    by (simp add: to_buffer_def list_update_append header_codec.enc_length [OF lay] dat)
  moreover have "from_buffer (to_buffer ?m' @ []) = ?m'"
    by (rule from_buffer_to_buffer) (simp_all add: lay hv val dl)
  ultimately have r: "received = ?m'" by (simp add: received_def)
  have "crc32_update 0 (payload[i := b]) \<noteq> crc32_update 0 payload"
    by (rule crc32_update_changed_byte [OF assms(3,4)])
  moreover have "payload[i := b] \<noteq> []" using assms(3) by auto
  ultimately show ?thesis by (simp add: r val verify_checksum_def compute_checksum_def ck)
qed

theorem corrupted_byte_detected_witness:
  "\<exists>m. IPCMessage_make IMU 5 99 7 [1, 2, 3] = Some m \<and>
     \<not> verify_checksum (from_buffer ((to_buffer m)[sizeof_IPCHeader + 1 := 7]))"
proof -
  obtain m where m: "IPCMessage_make IMU 5 99 7 [1, 2, 3] = Some m"
    using make_message [of "[1, 2, 3]" IMU 5 99 7] by simp
  show ?thesis using corrupted_byte_detected [OF _ m, of 1 7] m by simp
qed

text \<open>
  What \<open>from_buffer\<close> accepts, on every input: exactly the buffers that hold a header with the
  right magic and version and at least the payload bytes the header announces. An accepted
  message re-serialises to the prefix it was read from; everything else gives the default,
  invalid message.
\<close>

theorem from_buffer_total:
  "(let h = header_of_bytes (take sizeof_IPCHeader buf) in
    if sizeof_IPCHeader \<le> length buf \<and> magic h = kMagic \<and> version h = kVersion \<and>
       sizeof_IPCHeader + unat (data_length h) \<le> length buf
    then msg_valid (from_buffer buf) \<and>
         to_buffer (from_buffer buf) = take (sizeof_IPCHeader + unat (data_length h)) buf
    else from_buffer buf = IPCMessage_default)"
proof -
  have "from_buffer buf = IPCMessage_default" if "\<not> msg_valid (from_buffer buf)"
    using that by (auto simp: from_buffer_def Let_def split: if_splits)
  then show ?thesis
    using from_buffer_accepts [of buf] from_buffer_valid_iff [of buf]
    by (auto simp: Let_def IPCHeader_valid_def)
qed

text \<open>
  The constructor accepts a null payload together with a non-zero length. The result calls
  itself valid and its checksum verifies, but it announces bytes it does not carry, and the
  parser refuses what it serialises to.
\<close>

theorem null_payload_not_transportable:
  assumes "header_layout hdr" "0 < len"
  shows "\<exists>m. IPCMessage_ctor hdr None len = Some m \<and> msg_valid m \<and> verify_checksum m \<and>
    data_length (msg_header m) = len \<and> msg_data m = [] \<and> from_buffer (to_buffer m) = IPCMessage_default"
proof -
  let ?m = "signed \<lparr>msg_header = hdr\<lparr>data_length := len\<rparr>, msg_data = [], msg_valid = True\<rparr>"
  have m: "IPCMessage_ctor hdr None len = Some ?m" by (simp add: IPCMessage_ctor_def Let_def)
  note f = ctor_fields [OF m]
  have lay: "header_layout (msg_header ?m)" using f(4) assms(1) by simp
  have buf: "to_buffer ?m = header_bytes (msg_header ?m)" by (simp add: to_buffer_def)
  have "length (header_bytes (msg_header ?m)) = sizeof_IPCHeader"
    "header_of_bytes (header_bytes (msg_header ?m)) = msg_header ?m"
    using header_codec.enc_length [OF lay] header_codec.dec_enc [OF lay] by blast+
  then have "from_buffer (to_buffer ?m) = IPCMessage_default"
    unfolding buf from_buffer_def Let_def
    using assms(2) f(2) by (simp add: IPCMessage_default_def word_less_nat_alt)
  then show ?thesis using m f by auto
qed

theorem null_payload_not_transportable_witness:
  "\<exists>m. IPCMessage_ctor IPCHeader_init None 4 = Some m \<and> msg_valid m \<and>
     from_buffer (to_buffer m) = IPCMessage_default"
  using null_payload_not_transportable [of IPCHeader_init 4] by auto

end
