(* ===== verification/Payloads.thy ===== *)
theory Payloads
  imports Ipc_Message
begin

text \<open>
  The typed payload structs of \<open>ipc_message.hpp\<close> as records with their object representations. A
  \<open>float\<close> is its 32-bit pattern: the library copies it and never computes with it. Each struct is an
  instance of the codec contract, so it survives \<open>make\<close>, the buffer and \<open>as\<close>.
\<close>

type_synonym float32 = u32

section \<open>Structs\<close>

record PointXYZI =
  pt_x :: float32
  pt_y :: float32
  pt_z :: float32
  pt_intensity :: float32

record ImuSample =
  accel :: "float32 list"
  gyro :: "float32 list"
  orientation :: "float32 list"

record ControlCmd =
  steering :: float32
  throttle :: float32
  brake :: float32
  gear :: u8
  cmd_pad :: "byte list"

datatype ImageEncoding = ENC_UNKNOWN | GRAY8 | RGB8 | BGR8 | RGBA8 | YUV420

fun ImageEncoding_code :: "ImageEncoding \<Rightarrow> u8" where
  "ImageEncoding_code ENC_UNKNOWN = 0"
| "ImageEncoding_code GRAY8 = 1"
| "ImageEncoding_code RGB8 = 2"
| "ImageEncoding_code BGR8 = 3"
| "ImageEncoding_code RGBA8 = 4"
| "ImageEncoding_code YUV420 = 5"

record ImageFrame =
  img_width :: u32
  img_height :: u32
  img_stride :: u32
  img_byte_count :: u32
  img_channels :: u8
  img_encoding :: u8
  img_pad :: "byte list"
  img_data :: "byte list"
  img_tail :: "byte list"   \<comment> \<open>padding to a multiple of the alignment\<close>

record Tensor =
  ndim :: u32
  dims :: "u32 list"
  num_elements :: u32
  tensor_pad :: "byte list"
  tensor_data :: "float32 list"

definition ImageFrame_init :: "nat \<Rightarrow> ImageFrame" where
  "ImageFrame_init MaxBytes = \<lparr>img_width = 0, img_height = 0, img_stride = 0, img_byte_count = 0, img_channels = 0,
     img_encoding = ImageEncoding_code ENC_UNKNOWN, img_pad = [0, 0], img_data = replicate MaxBytes 0,
     img_tail = replicate ((4 - MaxBytes mod 4) mod 4) 0\<rparr>"

definition Tensor_init :: "nat \<Rightarrow> Tensor" where
  "Tensor_init MaxElems = \<lparr>ndim = 0, dims = replicate 8 0, num_elements = 0, tensor_pad = replicate 4 0,
     tensor_data = replicate MaxElems 0\<rparr>"

section \<open>Arrays of words\<close>

text \<open>Any struct with a codec crosses the message layer.\<close>

context byte_codec
begin

lemma message_roundtrip:
  assumes "wf x" "width < 2 ^ 32"
  shows "\<exists>m. IPCMessage_make ty sid ts sq (enc x) = Some m \<and> verify_checksum (from_buffer (to_buffer m)) \<and>
    map_option dec (as_payload width (from_buffer (to_buffer m))) = Some x"
  using make_survives [of "enc x" ty sid ts sq "[]"] assms enc_length [OF assms(1)] dec_enc [OF assms(1)] by auto

end

definition words_bytes :: "u32 list \<Rightarrow> byte list" where
  "words_bytes ws = concat (map (le_bytes 4) ws)"

fun words_of_bytes :: "nat \<Rightarrow> byte list \<Rightarrow> u32 list" where
  "words_of_bytes 0 bs = []"
| "words_of_bytes (Suc n) bs = le_word (take 4 bs) # words_of_bytes n (drop 4 bs)"

lemma length_words_bytes [simp]: "length (words_bytes ws) = 4 * length ws"
  by (induction ws) (simp_all add: words_bytes_def)

interpretation words_codec: byte_codec "4 * n" "\<lambda>ws. length ws = n" words_bytes "words_of_bytes n" for n
proof unfold_locales
  fix ws :: "u32 list" assume "length ws = n"
  then show "words_of_bytes n (words_bytes ws) = ws"
  proof (induction n arbitrary: ws)
    case (Suc n)
    then obtain w us where "ws = w # us" "length us = n" by (cases ws) auto
    with Suc.IH [of us] show ?case by (simp add: words_bytes_def le_word_le_bytes)
  qed simp
next
  fix bs :: "byte list" assume "length bs = 4 * n"
  then show "words_bytes (words_of_bytes n bs) = bs"
  proof (induction n arbitrary: bs)
    case (Suc n)
    then have "words_bytes (words_of_bytes n (drop 4 bs)) = drop 4 bs" by simp
    with Suc.prems show ?case by (simp add: words_bytes_def le_bytes_le_word)
  qed (simp add: words_bytes_def)
next
  fix bs :: "byte list"
  show "length (words_of_bytes n bs) = n" by (induction n arbitrary: bs) simp_all
qed simp

section \<open>Object representations\<close>

definition point_bytes :: "PointXYZI \<Rightarrow> byte list" where
  "point_bytes p = words_bytes [pt_x p, pt_y p, pt_z p, pt_intensity p]"

definition point_of_bytes :: "byte list \<Rightarrow> PointXYZI" where
  "point_of_bytes bs = (let ws = words_of_bytes 4 bs in
     \<lparr>pt_x = ws ! 0, pt_y = ws ! 1, pt_z = ws ! 2, pt_intensity = ws ! 3\<rparr>)"

definition imu_layout :: "ImuSample \<Rightarrow> bool" where
  "imu_layout s \<longleftrightarrow> length (accel s) = 3 \<and> length (gyro s) = 3 \<and> length (orientation s) = 4"

definition imu_bytes :: "ImuSample \<Rightarrow> byte list" where
  "imu_bytes s = words_bytes (accel s) @ words_bytes (gyro s) @ words_bytes (orientation s)"

definition imu_of_bytes :: "byte list \<Rightarrow> ImuSample" where
  "imu_of_bytes bs = \<lparr>accel = words_of_bytes 3 (slice 0 12 bs), gyro = words_of_bytes 3 (slice 12 12 bs),
     orientation = words_of_bytes 4 (slice 24 16 bs)\<rparr>"

definition control_layout :: "ControlCmd \<Rightarrow> bool" where
  "control_layout c \<longleftrightarrow> length (cmd_pad c) = 3"

definition control_bytes :: "ControlCmd \<Rightarrow> byte list" where
  "control_bytes c = le_bytes 4 (steering c) @ le_bytes 4 (throttle c) @ le_bytes 4 (brake c) @ [gear c] @ cmd_pad c"

definition control_of_bytes :: "byte list \<Rightarrow> ControlCmd" where
  "control_of_bytes bs = \<lparr>steering = le_word (slice 0 4 bs), throttle = le_word (slice 4 4 bs),
     brake = le_word (slice 8 4 bs), gear = bs ! 12, cmd_pad = slice 13 3 bs\<rparr>"

definition sizeof_ImageFrame :: "nat \<Rightarrow> nat" where
  "sizeof_ImageFrame MaxBytes = 20 + MaxBytes + (4 - MaxBytes mod 4) mod 4"

definition image_layout :: "nat \<Rightarrow> ImageFrame \<Rightarrow> bool" where
  "image_layout MaxBytes f \<longleftrightarrow> length (img_pad f) = 2 \<and> length (img_data f) = MaxBytes \<and>
     length (img_tail f) = (4 - MaxBytes mod 4) mod 4"

definition image_bytes :: "ImageFrame \<Rightarrow> byte list" where
  "image_bytes f = le_bytes 4 (img_width f) @ le_bytes 4 (img_height f) @ le_bytes 4 (img_stride f) @
     le_bytes 4 (img_byte_count f) @ [img_channels f] @ [img_encoding f] @ img_pad f @ img_data f @ img_tail f"

definition image_of_bytes :: "nat \<Rightarrow> byte list \<Rightarrow> ImageFrame" where
  "image_of_bytes MaxBytes bs = \<lparr>img_width = le_word (slice 0 4 bs), img_height = le_word (slice 4 4 bs),
     img_stride = le_word (slice 8 4 bs), img_byte_count = le_word (slice 12 4 bs), img_channels = bs ! 16,
     img_encoding = bs ! 17, img_pad = slice 18 2 bs, img_data = slice 20 MaxBytes bs,
     img_tail = drop (20 + MaxBytes) bs\<rparr>"

definition sizeof_Tensor :: "nat \<Rightarrow> nat" where
  "sizeof_Tensor MaxElems = 44 + 4 * MaxElems"

definition tensor_layout :: "nat \<Rightarrow> Tensor \<Rightarrow> bool" where
  "tensor_layout MaxElems t \<longleftrightarrow> length (dims t) = 8 \<and> length (tensor_pad t) = 4 \<and> length (tensor_data t) = MaxElems"

definition tensor_bytes :: "Tensor \<Rightarrow> byte list" where
  "tensor_bytes t = le_bytes 4 (ndim t) @ words_bytes (dims t) @ le_bytes 4 (num_elements t) @ tensor_pad t @
     words_bytes (tensor_data t)"

definition tensor_of_bytes :: "nat \<Rightarrow> byte list \<Rightarrow> Tensor" where
  "tensor_of_bytes MaxElems bs = \<lparr>ndim = le_word (slice 0 4 bs), dims = words_of_bytes 8 (slice 4 32 bs),
     num_elements = le_word (slice 36 4 bs), tensor_pad = slice 40 4 bs,
     tensor_data = words_of_bytes MaxElems (drop 44 bs)\<rparr>"

section \<open>The codecs\<close>

lemma le_word_take [codec_simps]: "length bs = 4 \<Longrightarrow> le_bytes 4 (le_word bs :: u32) = bs"
  by (rule le_bytes_le_word) simp_all

lemma list4: "length ws = 4 \<Longrightarrow> [ws ! 0, ws ! 1, ws ! 2, ws ! 3] = ws"
  by (rule nth_equalityI) (auto simp: less_Suc_eq numeral_eq_Suc)

interpretation point_codec: byte_codec 16 "\<lambda>_. True" point_bytes point_of_bytes
proof unfold_locales
  fix p :: PointXYZI
  have "words_of_bytes 4 (point_bytes p) = [pt_x p, pt_y p, pt_z p, pt_intensity p]"
    using words_codec.dec_enc [of "[pt_x p, pt_y p, pt_z p, pt_intensity p]" 4] by (simp add: point_bytes_def)
  then show "point_of_bytes (point_bytes p) = p" by (simp add: point_of_bytes_def Let_def)
next
  fix bs :: "byte list" assume b: "length bs = 16"
  have "length (words_of_bytes 4 bs) = 4" using words_codec.dec_wf [of bs 4] b by simp
  from list4 [OF this] show "point_bytes (point_of_bytes bs) = bs"
    using words_codec.enc_dec [of bs 4] b by (simp add: point_bytes_def point_of_bytes_def Let_def)
qed (simp_all add: point_bytes_def)

interpretation imu_codec: byte_codec 40 imu_layout imu_bytes imu_of_bytes
proof unfold_locales
  fix s :: ImuSample assume "imu_layout s"
  then show "length (imu_bytes s) = 40" "imu_of_bytes (imu_bytes s) = s"
    using words_codec.dec_enc [of "accel s" 3] words_codec.dec_enc [of "gyro s" 3] words_codec.dec_enc [of "orientation s" 4]
    by (simp_all add: imu_layout_def imu_bytes_def imu_of_bytes_def slice_def)
next
  fix bs :: "byte list" assume b: "length bs = 40"
  show "imu_layout (imu_of_bytes bs)"
    using words_codec.dec_wf [of "slice 0 12 bs" 3] words_codec.dec_wf [of "slice 12 12 bs" 3]
      words_codec.dec_wf [of "slice 24 16 bs" 4] b
    by (simp add: imu_layout_def imu_of_bytes_def)
  show "imu_bytes (imu_of_bytes bs) = bs"
    using words_codec.enc_dec [of "slice 0 12 bs" 3] words_codec.enc_dec [of "slice 12 12 bs" 3]
      words_codec.enc_dec [of "slice 24 16 bs" 4] b
    by (simp add: imu_bytes_def imu_of_bytes_def codec_simps)
qed

interpretation control_codec: byte_codec 16 control_layout control_bytes control_of_bytes
proof unfold_locales
  fix c :: ControlCmd assume "control_layout c"
  then show "length (control_bytes c) = 16" "control_of_bytes (control_bytes c) = c"
    by (simp_all add: control_layout_def control_bytes_def control_of_bytes_def slice_def le_word_le_bytes nth_append)
next
  fix bs :: "byte list" assume b: "length bs = 16"
  show "control_layout (control_of_bytes bs)" using b by (simp add: control_layout_def control_of_bytes_def)
  show "control_bytes (control_of_bytes bs) = bs"
    using b by (simp add: control_bytes_def control_of_bytes_def codec_simps del: append.simps)
qed

interpretation image_codec: byte_codec "sizeof_ImageFrame n" "image_layout n" image_bytes "image_of_bytes n" for n
proof unfold_locales
  fix f :: ImageFrame assume "image_layout n f"
  then show "length (image_bytes f) = sizeof_ImageFrame n" "image_of_bytes n (image_bytes f) = f"
    by (simp_all add: image_layout_def image_bytes_def image_of_bytes_def sizeof_ImageFrame_def slice_def le_word_le_bytes nth_append drop_Cons')
next
  fix bs :: "byte list" assume b: "length bs = sizeof_ImageFrame n"
  show "image_layout n (image_of_bytes n bs)" using b by (simp add: image_layout_def image_of_bytes_def sizeof_ImageFrame_def)
  have "drop (20 + n) bs = slice (20 + n) (length bs - (20 + n)) bs" by (simp add: slice_def)
  then show "image_bytes (image_of_bytes n bs) = bs"
    using b by (simp add: sizeof_ImageFrame_def image_bytes_def image_of_bytes_def codec_simps del: append.simps)
qed

interpretation tensor_codec: byte_codec "sizeof_Tensor n" "tensor_layout n" tensor_bytes "tensor_of_bytes n" for n
proof unfold_locales
  fix t :: Tensor assume "tensor_layout n t"
  then show "length (tensor_bytes t) = sizeof_Tensor n" "tensor_of_bytes n (tensor_bytes t) = t"
    using words_codec.dec_enc [of "dims t" 8] words_codec.dec_enc [of "tensor_data t" n]
    by (simp_all add: tensor_layout_def tensor_bytes_def tensor_of_bytes_def sizeof_Tensor_def slice_def le_word_le_bytes)
next
  fix bs :: "byte list" assume b: "length bs = sizeof_Tensor n"
  then have s: "length (slice 4 32 bs) = 4 * 8" "length (drop 44 bs) = 4 * n" by (simp_all add: sizeof_Tensor_def)
  show "tensor_layout n (tensor_of_bytes n bs)"
    using words_codec.dec_wf [OF s(1)] words_codec.dec_wf [OF s(2)] b
    by (simp add: tensor_layout_def tensor_of_bytes_def sizeof_Tensor_def)
  have "drop 44 bs = slice 44 (4 * n) bs" using b by (simp add: slice_def sizeof_Tensor_def)
  then show "tensor_bytes (tensor_of_bytes n bs) = bs"
    using words_codec.enc_dec [OF s(1)] words_codec.enc_dec [OF s(2)] b
    by (simp add: tensor_bytes_def tensor_of_bytes_def codec_simps sizeof_Tensor_def)
qed

section \<open>Properties\<close>



end
