(* ===== verification/Sync_Policy.thy ===== *)
theory Sync_Policy
  imports Lwipc_Prelude
begin

text \<open>
  The synchronisation policies (\<open>sync_policy.hpp\<close>): three structures of static functions that fix the
  \<open>std::memory_order\<close> of every atomic access of the ring buffer. What an order means is a matter of
  the C++ memory model, which is given here operationally: every location keeps the list of the
  messages written to it, a message carries the view its writer released with it, and a thread
  reads any message that is not older than its own view of the location. Acquire loads join the
  view of the message they read. A \<open>seq_cst\<close> access is treated as its acquire or release part only,
  so that what is proved for \<open>SeqCstPolicy\<close> does not rest on the global order of such accesses.
\<close>

section \<open>Memory orders and policies\<close>

datatype memory_order =
    memory_order_relaxed
  | memory_order_acquire
  | memory_order_release
  | memory_order_acq_rel
  | memory_order_seq_cst

fun acquires :: "memory_order \<Rightarrow> bool" where
  "acquires memory_order_relaxed = False"
| "acquires memory_order_acquire = True"
| "acquires memory_order_release = False"
| "acquires memory_order_acq_rel = True"
| "acquires memory_order_seq_cst = True"

fun releases :: "memory_order \<Rightarrow> bool" where
  "releases memory_order_relaxed = False"
| "releases memory_order_acquire = False"
| "releases memory_order_release = True"
| "releases memory_order_acq_rel = True"
| "releases memory_order_seq_cst = True"

record sync_policy =
  store_order :: memory_order
  load_order :: memory_order
  fetch_add_order :: memory_order
  cas_success_order :: memory_order
  cas_failure_order :: memory_order

definition RelaxedPolicy :: sync_policy where
  "RelaxedPolicy = \<lparr>store_order = memory_order_relaxed, load_order = memory_order_relaxed,
     fetch_add_order = memory_order_relaxed, cas_success_order = memory_order_relaxed,
     cas_failure_order = memory_order_relaxed\<rparr>"

definition AcqRelPolicy :: sync_policy where
  "AcqRelPolicy = \<lparr>store_order = memory_order_release, load_order = memory_order_acquire,
     fetch_add_order = memory_order_acq_rel, cas_success_order = memory_order_acq_rel,
     cas_failure_order = memory_order_acquire\<rparr>"

definition SeqCstPolicy :: sync_policy where
  "SeqCstPolicy = \<lparr>store_order = memory_order_seq_cst, load_order = memory_order_seq_cst,
     fetch_add_order = memory_order_seq_cst, cas_success_order = memory_order_seq_cst,
     cas_failure_order = memory_order_seq_cst\<rparr>"

definition DefaultSyncPolicy :: sync_policy where
  "DefaultSyncPolicy = AcqRelPolicy"

text \<open>A policy publishes when its stores release and its loads acquire.\<close>

definition publishing :: "sync_policy \<Rightarrow> bool" where
  "publishing P \<longleftrightarrow> releases (store_order P) \<and> acquires (load_order P)"

lemma publishing_policies:
  "publishing AcqRelPolicy" "publishing SeqCstPolicy" "publishing DefaultSyncPolicy" "\<not> publishing RelaxedPolicy"
  by (simp_all add: publishing_def AcqRelPolicy_def SeqCstPolicy_def DefaultSyncPolicy_def RelaxedPolicy_def)

section \<open>Memory: histories of messages and views\<close>

type_synonym 'l view = "'l \<Rightarrow> nat"

record ('l, 'v) message =
  msg_val :: 'v
  msg_view :: "'l view"

type_synonym ('l, 'v) memory = "'l \<Rightarrow> ('l, 'v) message list"

definition empty_view :: "'l view" where
  "empty_view = (\<lambda>_. 0)"

text \<open>What a thread knows after it has read a message of view \<open>W\<close> with an order.\<close>

definition observe :: "memory_order \<Rightarrow> 'l view \<Rightarrow> 'l view \<Rightarrow> 'l view" where
  "observe mo W V = (if acquires mo then sup V W else V)"

text \<open>The view a store with an order attaches to its message.\<close>

definition released :: "memory_order \<Rightarrow> 'l \<Rightarrow> nat \<Rightarrow> 'l view \<Rightarrow> 'l view" where
  "released mo l t V = (if releases mo then V else empty_view(l := t))"

text \<open>
  A load that reads the message number \<open>t\<close> of \<open>l\<close>: the value and the view afterwards, \<open>None\<close> when
  the thread cannot read that message.
\<close>

definition atomic_load :: "memory_order \<Rightarrow> 'l \<Rightarrow> nat \<Rightarrow> ('l, 'v) memory \<Rightarrow> 'l view \<Rightarrow> ('v \<times> 'l view) option" where
  "atomic_load mo l t m V =
     (if V l \<le> t \<and> t < length (m l)
      then Some (msg_val (m l ! t), observe mo (msg_view (m l ! t)) (V(l := t)))
      else None)"

definition atomic_store :: "memory_order \<Rightarrow> 'l \<Rightarrow> 'v \<Rightarrow> ('l, 'v) memory \<Rightarrow> 'l view \<Rightarrow> ('l, 'v) memory \<times> 'l view" where
  "atomic_store mo l v m V =
     (let t = length (m l); V' = V(l := t)
      in (m(l := m l @ [\<lparr>msg_val = v, msg_view = released mo l t V'\<rparr>]), V'))"

text \<open>
  A read-modify-write reads the newest message and puts the new one right behind it; the new
  message also carries the view of the one it replaces (a release sequence).
\<close>

definition atomic_rmw :: "memory_order \<Rightarrow> 'l \<Rightarrow> ('v \<Rightarrow> 'v) \<Rightarrow> ('l, 'v) memory \<Rightarrow> 'l view \<Rightarrow> 'v \<times> ('l, 'v) memory \<times> 'l view" where
  "atomic_rmw mo l f m V =
     (let old = last (m l); t = length (m l); V' = observe mo (msg_view old) (V(l := t))
      in (msg_val old,
          m(l := m l @ [\<lparr>msg_val = f (msg_val old), msg_view = sup (msg_view old) (released mo l t V')\<rparr>]), V'))"

text \<open>
  \<open>compare_exchange_weak\<close>: the exchange is made only on the newest message; a failure, which may be
  spurious, is a load with the failure order that leaves the value read in \<open>expected\<close>. The result
  is the returned flag, \<open>expected\<close>, the memory and the view.
\<close>

definition atomic_compare_exchange_weak ::
  "memory_order \<Rightarrow> memory_order \<Rightarrow> 'l \<Rightarrow> nat \<Rightarrow> bool \<Rightarrow> 'v \<Rightarrow> 'v \<Rightarrow> ('l, 'v) memory \<Rightarrow> 'l view \<Rightarrow>
    (bool \<times> 'v \<times> ('l, 'v) memory \<times> 'l view) option" where
  "atomic_compare_exchange_weak success failure l t spurious expected desired m V =
     (if \<not> spurious \<and> Suc t = length (m l) \<and> msg_val (m l ! t) = expected \<and> V l \<le> t
      then (case atomic_rmw success l (\<lambda>_. desired) m V of (old, m', V') \<Rightarrow> Some (True, expected, m', V'))
      else (case atomic_load failure l t m V of
              None \<Rightarrow> None
            | Some (v, V') \<Rightarrow> Some (False, v, m, V')))"

section \<open>The operations of a policy\<close>

definition policy_store :: "sync_policy \<Rightarrow> 'l \<Rightarrow> 'v \<Rightarrow> ('l, 'v) memory \<Rightarrow> 'l view \<Rightarrow> ('l, 'v) memory \<times> 'l view" where
  "policy_store P l v m V = atomic_store (store_order P) l v m V"

definition policy_load :: "sync_policy \<Rightarrow> 'l \<Rightarrow> nat \<Rightarrow> ('l, 'v) memory \<Rightarrow> 'l view \<Rightarrow> ('v \<times> 'l view) option" where
  "policy_load P l t m V = atomic_load (load_order P) l t m V"

definition policy_fetch_add ::
  "sync_policy \<Rightarrow> 'l \<Rightarrow> 'v::plus \<Rightarrow> ('l, 'v) memory \<Rightarrow> 'l view \<Rightarrow> 'v \<times> ('l, 'v) memory \<times> 'l view" where
  "policy_fetch_add P l n m V = atomic_rmw (fetch_add_order P) l (\<lambda>x. x + n) m V"

definition policy_compare_exchange_weak ::
  "sync_policy \<Rightarrow> 'l \<Rightarrow> nat \<Rightarrow> bool \<Rightarrow> 'v \<Rightarrow> 'v \<Rightarrow> ('l, 'v) memory \<Rightarrow> 'l view \<Rightarrow>
    (bool \<times> 'v \<times> ('l, 'v) memory \<times> 'l view) option" where
  "policy_compare_exchange_weak P l t spurious expected desired m V =
     atomic_compare_exchange_weak (cas_success_order P) (cas_failure_order P) l t spurious expected desired m V"

section \<open>Well-formed memories\<close>

text \<open>A view points into the histories; every history starts with an initial message.\<close>

definition view_wf :: "('l, 'v) memory \<Rightarrow> 'l view \<Rightarrow> bool" where
  "view_wf m V \<longleftrightarrow> (\<forall>l. V l < length (m l))"

definition memory_wf :: "('l, 'v) memory \<Rightarrow> bool" where
  "memory_wf m \<longleftrightarrow> (\<forall>l. m l \<noteq> [] \<and> (\<forall>x \<in> set (m l). view_wf m (msg_view x)))"

text \<open>A later memory has the same messages at the same numbers, and possibly more.\<close>

definition later :: "('l, 'v) memory \<Rightarrow> ('l, 'v) memory \<Rightarrow> bool" where
  "later m m' \<longleftrightarrow> (\<forall>l. \<exists>xs. m' l = m l @ xs)"

lemma later_refl [simp]: "later m m"
  by (simp add: later_def)

lemma later_append [simp]: "later m (m(l := m l @ xs))"
  by (auto simp: later_def)

lemma laterD:
  assumes "later m m'" "t < length (m l)"
  shows "t < length (m' l)" "m' l ! t = m l ! t"
  using assms by (auto simp: later_def nth_append dest: spec [of _ l])

lemma later_length: "later m m' \<Longrightarrow> length (m l) \<le> length (m' l)"
  by (auto simp: later_def dest: spec [of _ l])

lemma view_wf_later: "later m m' \<Longrightarrow> view_wf m V \<Longrightarrow> view_wf m' V"
  using later_length by (fastforce simp: view_wf_def intro: less_le_trans)

lemma view_wf_sup [simp]: "view_wf m (sup V W) \<longleftrightarrow> view_wf m V \<and> view_wf m W"
  by (auto simp: view_wf_def sup_nat_def)

lemma view_wf_upd: "view_wf m V \<Longrightarrow> t < length (m l) \<Longrightarrow> view_wf m (V(l := t))"
  by (simp add: view_wf_def)

lemma view_wf_empty: "memory_wf m \<Longrightarrow> view_wf m empty_view"
  by (simp add: memory_wf_def view_wf_def empty_view_def)

lemma memory_wf_msg:
  assumes "memory_wf m"
  shows "m l \<noteq> []" "t < length (m l) \<Longrightarrow> view_wf m (msg_view (m l ! t))" "view_wf m (msg_view (last (m l)))"
  using assms nth_mem last_in_set unfolding memory_wf_def by blast+

lemma view_wf_observe: "view_wf m V \<Longrightarrow> view_wf m W \<Longrightarrow> view_wf m (observe mo W V)"
  by (simp add: observe_def)

lemma view_wf_released:
  "memory_wf m \<Longrightarrow> later m m' \<Longrightarrow> view_wf m' V \<Longrightarrow> t < length (m' l) \<Longrightarrow> view_wf m' (released mo l t V)"
  using view_wf_upd view_wf_empty view_wf_later by (metis released_def)

lemma memory_wf_append:
  assumes "memory_wf m" "view_wf (m(l := m l @ [x])) (msg_view x)"
  shows "memory_wf (m(l := m l @ [x]))"
  unfolding memory_wf_def
proof (intro allI conjI ballI)
  fix k y assume "y \<in> set ((m(l := m l @ [x])) k)"
  then consider "y = x" | "y \<in> set (m k)" by (auto split: if_splits)
  then show "view_wf (m(l := m l @ [x])) (msg_view y)"
    using assms view_wf_later [OF later_append, of m] unfolding memory_wf_def by cases blast+
qed (use assms(1) in \<open>simp add: memory_wf_def\<close>)

lemma le_observe: "V \<le> observe mo W V"
  by (simp add: observe_def)

lemma view_le_upd: "V l \<le> t \<Longrightarrow> (V :: 'l view) \<le> V(l := t)"
  by (simp add: le_fun_def)

section \<open>What the accesses keep\<close>

lemma atomic_load_Some:
  assumes "atomic_load mo l t m V = Some (v, V')"
  shows "V l \<le> t" "t < length (m l)" "v = msg_val (m l ! t)" "V \<le> V'" "t \<le> V' l"
    "acquires mo \<Longrightarrow> msg_view (m l ! t) \<le> V'"
proof -
  from assms have a: "V l \<le> t" "t < length (m l)" "v = msg_val (m l ! t)"
    "V' = observe mo (msg_view (m l ! t)) (V(l := t))"
    by (auto simp: atomic_load_def split: if_splits)
  then have "V(l := t) \<le> V'" using le_observe by blast
  then show "t \<le> V' l" "V \<le> V'" using view_le_upd [of V l t] a(1) le_funD [of "V(l := t)" V' l] by auto
  show "acquires mo \<Longrightarrow> msg_view (m l ! t) \<le> V'" by (simp add: a(4) observe_def)
qed (use assms in \<open>auto simp: atomic_load_def split: if_splits\<close>)

lemma atomic_load_wf:
  assumes "memory_wf m" "view_wf m V" "atomic_load mo l t m V = Some (v, V')"
  shows "view_wf m V'"
  using assms by (auto simp: atomic_load_def view_wf_upd memory_wf_msg(2) intro!: view_wf_observe split: if_splits)

text \<open>A thread is never stuck on a load: the newest message can always be read.\<close>

lemma atomic_load_last:
  assumes "memory_wf m" "view_wf m V"
  shows "\<exists>V'. atomic_load mo l (length (m l) - 1) m V = Some (msg_val (last (m l)), V')"
proof -
  have "m l \<noteq> []" "V l < length (m l)" using assms by (simp_all add: memory_wf_msg(1) view_wf_def)
  then show ?thesis by (simp add: atomic_load_def last_conv_nth)
qed

lemma atomic_store_wf:
  assumes "memory_wf m" "view_wf m V" "atomic_store mo l v m V = (m', V')"
  shows "memory_wf m'" "view_wf m' V'" "later m m'" "V \<le> V'"
proof -
  let ?t = "length (m l)" and ?x = "\<lparr>msg_val = v, msg_view = released mo l (length (m l)) V'\<rparr>"
  have V': "V' = V(l := ?t)" and m': "m' = m(l := m l @ [?x])" using assms(3) by (auto simp: atomic_store_def Let_def)
  show l: "later m m'" by (simp add: m')
  show v: "view_wf m' V'" using view_wf_upd [OF view_wf_later [OF l assms(2)], of ?t l] by (simp add: V' m')
  show "memory_wf m'" unfolding m'
    using memory_wf_append [OF assms(1), of l ?x] view_wf_released [OF assms(1) l v, of ?t l mo] by (simp add: m')
  show "V \<le> V'" using view_le_upd [of V l ?t] assms(2) by (simp add: V' view_wf_def order_less_imp_le)
qed

lemma atomic_rmw_wf:
  assumes "memory_wf m" "view_wf m V" "atomic_rmw mo l f m V = (old, m', V')"
  shows "memory_wf m'" "view_wf m' V'" "later m m'" "V \<le> V'" "old = msg_val (last (m l))"
proof -
  let ?o = "last (m l)" and ?t = "length (m l)"
  let ?x = "\<lparr>msg_val = f (msg_val ?o), msg_view = sup (msg_view ?o) (released mo l ?t V')\<rparr>"
  have V': "V' = observe mo (msg_view ?o) (V(l := ?t))" and m': "m' = m(l := m l @ [?x])"
    using assms(3) by (auto simp: atomic_rmw_def Let_def)
  show l: "later m m'" by (simp add: m')
  have o: "view_wf m' (msg_view ?o)" using view_wf_later [OF l memory_wf_msg(3) [OF assms(1)]] .
  have "view_wf m' (V(l := ?t))" using view_wf_upd [OF view_wf_later [OF l assms(2)], of ?t l] by (simp add: m')
  then show v: "view_wf m' V'" using o by (simp add: V' view_wf_observe)
  show "memory_wf m'" unfolding m'
    using memory_wf_append [OF assms(1), of l ?x] view_wf_released [OF assms(1) l v, of ?t l mo] o by (simp add: m')
  have "V \<le> V(l := ?t)" using view_le_upd [of V l ?t] assms(2) by (simp add: view_wf_def order_less_imp_le)
  then show "V \<le> V'" using le_observe [of "V(l := ?t)" mo "msg_view ?o"] by (simp add: V')
  show "old = msg_val ?o" using assms(3) by (simp add: atomic_rmw_def Let_def)
qed

lemmas access_wf = atomic_load_wf atomic_store_wf(1,2) atomic_rmw_wf(1,2)

section \<open>The newest messages\<close>

definition newest :: "('l, 'v) memory \<Rightarrow> 'l \<Rightarrow> 'v" where
  "newest m l = msg_val (last (m l))"

lemma newest_append [simp]: "newest (m(l := m l @ [x])) l' = (if l' = l then msg_val x else newest m l')"
  by (simp add: newest_def)

lemma store_message:
  obtains x V' where "msg_val x = v" "atomic_store mo l v m V = (m(l := m l @ [x]), V')"
  by (rule that [of "\<lparr>msg_val = v, msg_view = released mo l (length (m l)) (V(l := length (m l)))\<rparr>"])
    (simp_all add: atomic_store_def Let_def)

lemma rmw_message:
  obtains x V' where "msg_val x = f (newest m l)" "atomic_rmw mo l f m V = (newest m l, m(l := m l @ [x]), V')"
  by (rule that [of "last (fst (snd (atomic_rmw mo l f m V)) l)"]) (simp_all add: atomic_rmw_def Let_def newest_def)

text \<open>Both outcomes of a compare-and-swap.\<close>

lemma compare_exchange_True:
  assumes "memory_wf m" "view_wf m V"
    "atomic_compare_exchange_weak mo1 mo2 l t sp expected desired m V = Some (True, e, m', V')"
  shows "newest m l = expected" "e = expected" "\<exists>x. m' = m(l := m l @ [x]) \<and> msg_val x = desired"
    "memory_wf m'" "view_wf m' V'" "later m m'" "V \<le> V'"
proof -
  from assms(3) have c: "Suc t = length (m l)" "msg_val (m l ! t) = expected" "e = expected"
    "atomic_rmw mo1 l (\<lambda>_. desired) m V = (fst (atomic_rmw mo1 l (\<lambda>_. desired) m V), m', V')"
    by (auto simp: atomic_compare_exchange_weak_def split: if_splits prod.splits option.splits)
  show "newest m l = expected" using c(1,2) memory_wf_msg(1) [OF assms(1), of l]
    by (metis diff_Suc_1 last_conv_nth newest_def)
  obtain x V1 where "msg_val x = desired" "atomic_rmw mo1 l (\<lambda>_. desired) m V = (newest m l, m(l := m l @ [x]), V1)"
    using rmw_message [of "\<lambda>_. desired"] .
  then show "\<exists>x. m' = m(l := m l @ [x]) \<and> msg_val x = desired" using c(4) by auto
qed (use assms(3) atomic_rmw_wf [OF assms(1,2)] in
  \<open>auto simp: atomic_compare_exchange_weak_def split: if_splits prod.splits option.splits\<close>)

text \<open>A successful exchange with \<open>memory_order_acq_rel\<close> takes over the view of the message it replaces and hands on its own.\<close>

lemma compare_exchange_views:
  assumes "atomic_compare_exchange_weak memory_order_acq_rel mo2 l t sp expected desired m V = Some (True, e, m', V')"
  obtains z where "m' = m(l := m l @ [z])" "msg_val z = desired" "msg_view (last (m l)) \<le> V'" "V' \<le> msg_view z"
    "msg_view (last (m l)) \<le> msg_view z"
proof -
  let ?V = "sup (V(l := length (m l))) (msg_view (last (m l)))"
  let ?z = "\<lparr>msg_val = desired, msg_view = sup (msg_view (last (m l))) ?V\<rparr>"
  have "m' = m(l := m l @ [?z])" "V' = ?V"
    using assms by (auto simp: atomic_compare_exchange_weak_def atomic_rmw_def observe_def released_def Let_def split: if_splits option.splits)
  then show thesis by (intro that [of ?z]) simp_all
qed

lemma compare_exchange_acquires:
  assumes "atomic_compare_exchange_weak mo1 mo2 l t sp expected desired m V = Some (True, e, m', V')" "acquires mo1"
  shows "msg_view (last (m l)) \<le> V'"
  using assms
  by (auto simp: atomic_compare_exchange_weak_def atomic_rmw_def observe_def Let_def split: if_splits option.splits)

text \<open>On the newest message an exchange that does not fail spuriously succeeds.\<close>

lemma compare_exchange_succeeds:
  assumes "memory_wf m" "view_wf m V"
  obtains m' V' where
    "atomic_compare_exchange_weak mo1 mo2 l (length (m l) - 1) False (newest m l) desired m V = Some (True, newest m l, m', V')"
proof -
  have "m l \<noteq> []" "V l < length (m l)" using assms by (simp_all add: memory_wf_msg(1) view_wf_def)
  then have c: "V l \<le> length (m l) - Suc 0" "Suc (length (m l) - Suc 0) = length (m l)"
    "msg_val (m l ! (length (m l) - Suc 0)) = newest m l" by (simp_all add: newest_def last_conv_nth)
  obtain v m' V' where rmw: "atomic_rmw mo1 l (\<lambda>_. desired) m V = (v, m', V')" by (metis prod.exhaust)
  show thesis by (rule that [of m' V']) (simp add: atomic_compare_exchange_weak_def c rmw)
qed

lemma compare_exchange_False:
  assumes "atomic_compare_exchange_weak mo1 mo2 l t sp expected desired m V = Some (False, e, m', V')"
  shows "m' = m" "atomic_load mo2 l t m V = Some (e, V')"
  using assms by (auto simp: atomic_compare_exchange_weak_def split: if_splits prod.splits option.splits)



definition one_cell :: "(unit, u64) memory" where
  "one_cell = (\<lambda>_. [\<lparr>msg_val = 3, msg_view = empty_view\<rparr>])"


end
