(* ===== verification/Object_Pool.thy ===== *)
theory Object_Pool
  imports Lwipc_Prelude
begin

text \<open>
  \<open>ObjectPool\<close> of \<open>object_pool.hpp\<close>: the free list threaded through \<open>next_\<close>, the packed head word
  (index and ABA tag), \<open>acquire\<close> and \<open>release\<close> with their compare-and-swap retries, and
  \<open>available\<close>. The pool implements the interface \<open>slot_pool\<close>.
\<close>

definition pool_capacity :: "u64 \<Rightarrow> bool" where
  "pool_capacity C \<longleftrightarrow> 1 \<le> C \<and> C \<le> 65535 \<and> C AND (C - 1) = 0"

definition kNullIndex :: u16 where
  "kNullIndex = 0xFFFF"

record 'a ObjectPool =
  storage_base :: u64
  storage :: "'a list"
  pool_next :: "u16 list"
  pool_head :: u64

definition pack :: "u16 \<Rightarrow> u64 \<Rightarrow> u64" where
  "pack idx tag = push_bit 16 tag OR ucast idx"

definition index_of :: "u64 \<Rightarrow> u16" where
  "index_of v = ucast (v AND 0xFFFF)"

definition tag_of :: "u64 \<Rightarrow> u64" where
  "tag_of v = drop_bit 16 v"

definition slot_ptr :: "u64 \<Rightarrow> 'a ObjectPool \<Rightarrow> u16 \<Rightarrow> u64" where
  "slot_ptr kSlotSize p idx = storage_base p + kSlotSize * ucast idx"

definition index_of_ptr :: "u64 \<Rightarrow> 'a ObjectPool \<Rightarrow> u64 \<Rightarrow> u16" where
  "index_of_ptr kSlotSize p a = ucast ((a - storage_base p) div kSlotSize)"

text \<open>The constructor's loop over a 16-bit counter; the successor is computed in \<open>int\<close>.\<close>

definition next_init :: "u64 \<Rightarrow> nat \<Rightarrow> u16" where
  "next_init C i = (if i + 1 < unat (ucast C :: u16) then of_nat (i + 1) else kNullIndex)"

definition ObjectPool_ctor :: "u64 \<Rightarrow> u64 \<Rightarrow> 'a \<Rightarrow> 'a ObjectPool" where
  "ObjectPool_ctor C base zero = \<lparr>
     storage_base = base, storage = replicate (unat C) zero,
     pool_next = map (next_init C) [0..<unat (ucast C :: u16)],
     pool_head = pack 0 0\<rparr>"

definition acquire_new_head :: "'a ObjectPool \<Rightarrow> u64 \<Rightarrow> u64" where
  "acquire_new_head p old_head =
     pack (pool_next p ! unat (index_of old_head)) (tag_of old_head + 1)"

text \<open>
  \<open>compare_exchange_weak\<close> on the head: the flag says whether this attempt fails spuriously; on
  failure the expected value is reloaded.
\<close>

definition cas_head :: "bool \<Rightarrow> 'a ObjectPool \<Rightarrow> u64 \<Rightarrow> u64 \<Rightarrow> bool \<times> u64 \<times> 'a ObjectPool" where
  "cas_head spurious p expected desired =
     (if \<not> spurious \<and> pool_head p = expected then (True, expected, p\<lparr>pool_head := desired\<rparr>)
      else (False, pool_head p, p))"

fun acquire_loop ::
  "u64 \<Rightarrow> bool list \<Rightarrow> u64 \<Rightarrow> 'a ObjectPool \<Rightarrow> (u64 option \<times> 'a ObjectPool) option" where
  "acquire_loop kSlotSize [] old_head p = None"
| "acquire_loop kSlotSize (f # fs) old_head p =
     (let idx = index_of old_head
      in if idx = kNullIndex then Some (None, p)
         else case cas_head f p old_head (acquire_new_head p old_head) of
                (True, _, p') \<Rightarrow> Some (Some (slot_ptr kSlotSize p' idx), p')
              | (False, cur, p') \<Rightarrow> acquire_loop kSlotSize fs cur p')"

definition acquire ::
  "u64 \<Rightarrow> bool list \<Rightarrow> 'a ObjectPool \<Rightarrow> (u64 option \<times> 'a ObjectPool) option" where
  "acquire kSlotSize fs p = acquire_loop kSlotSize fs (pool_head p) p"

fun release_loop :: "bool list \<Rightarrow> u16 \<Rightarrow> u64 \<Rightarrow> 'a ObjectPool \<Rightarrow> 'a ObjectPool option" where
  "release_loop [] idx old_head p = None"
| "release_loop (f # fs) idx old_head p =
     (let p1 = p\<lparr>pool_next := (pool_next p)[unat idx := index_of old_head]\<rparr>
      in case cas_head f p1 old_head (pack idx (tag_of old_head + 1)) of
           (True, _, p') \<Rightarrow> Some p'
         | (False, cur, p') \<Rightarrow> release_loop fs idx cur p')"

datatype pool_error = Assertion_Failed | No_Return

text \<open>\<open>release\<close> with its two assertions; the pointer is \<open>None\<close> for \<open>nullptr\<close>.\<close>

definition release ::
  "u64 \<Rightarrow> u64 \<Rightarrow> bool list \<Rightarrow> u64 option \<Rightarrow> 'a ObjectPool \<Rightarrow> pool_error + 'a ObjectPool" where
  "release C kSlotSize fs ptr p =
     (case ptr of None \<Rightarrow> Inl Assertion_Failed
      | Some a \<Rightarrow>
          let idx = index_of_ptr kSlotSize p a
          in if \<not> idx < ucast C then Inl Assertion_Failed
             else case release_loop fs idx (pool_head p) p of
                    None \<Rightarrow> Inl No_Return
                  | Some p' \<Rightarrow> Inr p')"

function available_loop :: "u64 \<Rightarrow> u16 list \<Rightarrow> u16 \<Rightarrow> nat \<Rightarrow> nat" where
  "available_loop C nx idx count =
     (if idx \<noteq> kNullIndex \<and> count \<le> unat C
      then available_loop C nx (nx ! unat idx) (count + 1) else count)"
  by pat_completeness auto
termination
  by (relation "measure (\<lambda>(C, nx, idx, count). unat C + 1 - count)") auto

declare available_loop.simps [simp del]

definition available :: "u64 \<Rightarrow> 'a ObjectPool \<Rightarrow> nat" where
  "available C p = available_loop C (pool_next p) (index_of (pool_head p)) 0"

definition acquire_now :: "u64 \<Rightarrow> 'a ObjectPool \<Rightarrow> u64 option \<times> 'a ObjectPool" where
  "acquire_now kSlotSize p = (case acquire kSlotSize [False] p of Some r \<Rightarrow> r | None \<Rightarrow> (None, p))"

definition release_now :: "u64 \<Rightarrow> u64 \<Rightarrow> u64 \<Rightarrow> 'a ObjectPool \<Rightarrow> 'a ObjectPool" where
  "release_now C kSlotSize a p =
     (case release C kSlotSize [False] (Some a) p of Inr p' \<Rightarrow> p' | Inl _ \<Rightarrow> p)"

section \<open>The free list as a list of indices\<close>

fun chain :: "u16 list \<Rightarrow> u16 \<Rightarrow> nat list \<Rightarrow> bool" where
  "chain nx i [] \<longleftrightarrow> i = kNullIndex"
| "chain nx i (x # xs) \<longleftrightarrow> i \<noteq> kNullIndex \<and> unat i = x \<and> x < length nx \<and> chain nx (nx ! x) xs"

fun free_walk :: "nat \<Rightarrow> u16 list \<Rightarrow> u16 \<Rightarrow> nat list" where
  "free_walk 0 nx i = []"
| "free_walk (Suc n) nx i = (if i = kNullIndex then [] else unat i # free_walk n nx (nx ! unat i))"

definition free_list :: "u64 \<Rightarrow> 'a ObjectPool \<Rightarrow> nat list" where
  "free_list C p = free_walk (unat C) (pool_next p) (index_of (pool_head p))"

definition pool_inv :: "u64 \<Rightarrow> 'a ObjectPool \<Rightarrow> bool" where
  "pool_inv C p \<longleftrightarrow>
     pool_capacity C \<and> length (pool_next p) = unat C \<and> length (storage p) = unat C \<and>
     chain (pool_next p) (index_of (pool_head p)) (free_list C p) \<and> distinct (free_list C p)"

definition layout_ok :: "u64 \<Rightarrow> u64 \<Rightarrow> bool" where
  "layout_ok C kSlotSize \<longleftrightarrow> 0 < kSlotSize \<and> unat kSlotSize * unat C < 2 ^ 64"

section \<open>Tagged indices\<close>

lemma index_of_ucast: "index_of v = ucast v"
proof -
  have "v AND 0xFFFF = take_bit 16 v" by (simp add: take_bit_eq_mask mask_eq_exp_minus_1)
  then show ?thesis
    unfolding index_of_def by (intro bit_word_eqI) (simp add: bit_unsigned_iff bit_take_bit_iff)
qed

lemma index_of_pack [simp]: "index_of (pack idx tag) = idx"
  unfolding index_of_ucast pack_def
  by (rule bit_word_eqI) (auto simp: bit_unsigned_iff bit_or_iff bit_push_bit_iff)

lemma tag_of_pack: "tag_of (pack idx tag) = take_bit 48 tag"
  unfolding tag_of_def pack_def
  by (rule bit_word_eqI)
    (auto simp: bit_unsigned_iff bit_or_iff bit_push_bit_iff bit_drop_bit_eq bit_take_bit_iff
      dest: bit_imp_le_length)

lemma unat_tag_of_pack: "unat (tag_of (pack idx tag)) = unat tag mod 2 ^ 48"
  by (simp only: tag_of_pack unat_take_bit)

lemma unat_tag_of_less: "unat (tag_of v) < 2 ^ 48"
proof -
  have "unat (tag_of v) = unat v div 2 ^ 16"
    by (simp add: tag_of_def drop_bit_eq_div unat_div)
  also have "\<dots> < 2 ^ 48"
    using unat_u64_less [of v] by (simp add: less_mult_imp_div_less)
  finally show ?thesis .
qed

lemma pack_split: "pack (index_of v) (tag_of v) = v"
  unfolding index_of_ucast tag_of_def pack_def
  by (rule bit_word_eqI) (auto simp: bit_unsigned_iff bit_or_iff bit_push_bit_iff bit_drop_bit_eq)

section \<open>Capacity and pointer arithmetic\<close>

lemma pool_capacity_bounds:
  assumes "pool_capacity C"
  shows "0 < unat C" "unat C < 65535" "unat (ucast C :: u16) = unat C"
proof -
  from assms have c: "1 \<le> unat C" "unat C \<le> 65535" and z: "C AND (C - 1) = 0"
    by (auto simp: pool_capacity_def word_le_nat_alt)
  have "C \<noteq> 65535" using z by auto
  then have "unat C \<noteq> 65535" using word_unat_eq_iff [of C 65535] by simp
  with c show "0 < unat C" "unat C < 65535" by simp_all
  then show "unat (ucast C :: u16) = unat C"
    by (simp add: unsigned_ucast_eq take_bit_nat_eq_self)
qed

lemma slot_offset:
  assumes "pool_capacity C" "layout_ok C sz" "unat idx < unat C"
  shows "unat (sz * ucast idx :: u64) = unat sz * unat (idx :: u16)"
proof -
  have "unat sz * unat idx \<le> unat sz * unat C" using assms(3) by simp
  then have "unat sz * unat idx < 2 ^ 64"
    using assms(2) unfolding layout_ok_def by linarith
  then show ?thesis by (simp add: unat_mult_lt unat_ucast_up)
qed

lemma index_of_slot_ptr:
  assumes "pool_capacity C" "layout_ok C sz" "unat idx < unat C"
  shows "index_of_ptr sz p (slot_ptr sz p idx) = idx"
proof -
  have sz0: "0 < unat sz" using assms(2) by (simp add: layout_ok_def word_less_nat_alt)
  have "unat ((sz * ucast idx :: u64) div sz) = unat idx"
    using sz0 by (simp add: unat_div slot_offset [OF assms])
  then have "(sz * ucast idx :: u64) div sz = ucast idx"
    by (simp add: word_unat_eq_iff unat_ucast_up)
  then have "index_of_ptr sz p (slot_ptr sz p idx) = ucast (ucast idx :: u64)"
    by (simp add: index_of_ptr_def slot_ptr_def)
  also have "\<dots> = idx" by (rule bit_word_eqI) (simp add: bit_unsigned_iff)
  finally show ?thesis .
qed

lemma slot_ptr_inj:
  assumes "pool_capacity C" "layout_ok C sz" "unat i < unat C" "unat j < unat C"
    and "slot_ptr sz p i = slot_ptr sz p j"
  shows "i = j"
  using assms index_of_slot_ptr by metis

section \<open>Chains\<close>

lemma chain_bound: "chain nx i xs \<Longrightarrow> set xs \<subseteq> {..<length nx}"
  by (induction nx i xs rule: chain.induct) auto

lemma chain_walk: "chain nx i xs \<Longrightarrow> length xs \<le> n \<Longrightarrow> free_walk n nx i = xs"
proof (induction n arbitrary: i xs)
  case 0
  then show ?case by simp
next
  case (Suc n)
  then show ?case by (cases xs) auto
qed

lemma distinct_bound_length: "distinct xs \<Longrightarrow> set xs \<subseteq> {..<n} \<Longrightarrow> length xs \<le> (n::nat)"
  by (metis card_lessThan card_mono distinct_card finite_lessThan)

lemma chain_update: "chain nx i xs \<Longrightarrow> j \<notin> set xs \<Longrightarrow> chain (nx[j := v]) i xs"
  by (induction nx i xs rule: chain.induct) auto

lemma pool_invI:
  assumes "pool_capacity C" "length (pool_next p) = unat C" "length (storage p) = unat C"
    and "chain (pool_next p) (index_of (pool_head p)) xs" "distinct xs"
  shows "pool_inv C p" and "free_list C p = xs"
proof -
  have "length xs \<le> unat C"
    using distinct_bound_length [OF assms(5)] chain_bound [OF assms(4)] assms(2) by simp
  with assms(4) show eq: "free_list C p = xs"
    by (simp add: free_list_def chain_walk)
  with assms show "pool_inv C p" by (simp add: pool_inv_def)
qed

lemma pool_inv_free_bound: "pool_inv C p \<Longrightarrow> set (free_list C p) \<subseteq> {..<unat C}"
  using chain_bound by (fastforce simp: pool_inv_def)

section \<open>The constructor\<close>

lemma next_init_chain:
  assumes "pool_capacity C" "i < unat C"
  shows "chain (map (next_init C) [0..<unat C]) (of_nat i) [i..<unat C]"
  using assms(2)
proof (induction "unat C - i" arbitrary: i)
  case 0
  then show ?case by simp
next
  case (Suc n)
  note b = pool_capacity_bounds [OF assms(1)]
  have i16: "unat (of_nat i :: u16) = i"
    using Suc.prems b(2) by (simp add: unsigned_of_nat take_bit_nat_eq_self)
  have nn: "(of_nat i :: u16) \<noteq> kNullIndex"
    using i16 Suc.prems b(2) by (auto simp: kNullIndex_def word_unat_eq_iff)
  show ?case
  proof (cases "i + 1 < unat C")
    case True
    have "chain (map (next_init C) [0..<unat C]) (of_nat (i + 1)) [i + 1..<unat C]"
      using Suc.hyps True by (intro Suc.hyps(1)) auto
    moreover have "[i..<unat C] = i # [i + 1..<unat C]" using Suc.prems by (simp add: upt_conv_Cons)
    ultimately show ?thesis using True Suc.prems i16 nn b(3) by (simp add: next_init_def)
  next
    case False
    then have "[i..<unat C] = [i]" using Suc.prems by (simp add: upt_conv_Cons)
    with False Suc.prems i16 nn b(3) show ?thesis by (simp add: next_init_def)
  qed
qed

lemma ObjectPool_ctor_free:
  assumes "pool_capacity C"
  shows "pool_inv C (ObjectPool_ctor C base z)"
    and "free_list C (ObjectPool_ctor C base z) = [0..<unat C]"
proof -
  note b = pool_capacity_bounds [OF assms]
  let ?p = "ObjectPool_ctor C base z"
  have nx: "pool_next ?p = map (next_init C) [0..<unat C]" and st: "length (storage ?p) = unat C"
    by (simp_all only: ObjectPool_ctor_def ObjectPool.simps b(3) length_replicate)
  have hd: "index_of (pool_head ?p) = of_nat 0" by (simp add: ObjectPool_ctor_def)
  have len: "length (pool_next ?p) = unat C" by (simp add: nx)
  have ch: "chain (pool_next ?p) (index_of (pool_head ?p)) [0..<unat C]"
    unfolding nx hd by (rule next_init_chain [OF assms b(1)])
  show "pool_inv C ?p" "free_list C ?p = [0..<unat C]"
    by (rule pool_invI [OF assms len st ch distinct_upt])+
qed

section \<open>acquire and release\<close>

lemma acquire_now_null:
  "index_of (pool_head p) = kNullIndex \<Longrightarrow> acquire_now sz p = (None, p)"
  by (simp add: acquire_now_def acquire_def)

lemma acquire_now_slot:
  "index_of (pool_head p) \<noteq> kNullIndex \<Longrightarrow>
   acquire_now sz p =
     (Some (slot_ptr sz p (index_of (pool_head p))),
      p\<lparr>pool_head := acquire_new_head p (pool_head p)\<rparr>)"
  by (simp add: acquire_now_def acquire_def cas_head_def slot_ptr_def)

lemma acquire_loop_schedule:
  "False \<in> set fs \<Longrightarrow> acquire_loop sz fs (pool_head p) p = Some (acquire_now sz p)"
proof (induction fs)
  case Nil
  then show ?case by simp
next
  case (Cons f fs)
  then show ?case
    by (cases "index_of (pool_head p) = kNullIndex"; cases f)
      (simp_all add: acquire_now_null acquire_now_slot cas_head_def slot_ptr_def)
qed

lemma acquire_schedule: "False \<in> set fs \<Longrightarrow> acquire sz fs p = Some (acquire_now sz p)"
  by (simp add: acquire_def acquire_loop_schedule)

abbreviation relinked :: "u16 \<Rightarrow> 'a ObjectPool \<Rightarrow> 'a ObjectPool" where
  "relinked idx p \<equiv> p\<lparr>pool_next := (pool_next p)[unat idx := index_of (pool_head p)],
     pool_head := pack idx (tag_of (pool_head p) + 1)\<rparr>"

lemma release_loop_schedule:
  "False \<in> set fs \<Longrightarrow> release_loop fs idx (pool_head p) p = Some (relinked idx p)"
proof (induction fs arbitrary: p)
  case Nil
  then show ?case by simp
next
  case (Cons f fs)
  let ?p1 = "p\<lparr>pool_next := (pool_next p)[unat idx := index_of (pool_head p)]\<rparr>"
  show ?case
  proof (cases f)
    case True
    then have "False \<in> set fs" using Cons.prems by simp
    from Cons.IH [OF this, of ?p1] True show ?thesis by (simp add: cas_head_def)
  next
    case False
    then show ?thesis by (simp add: cas_head_def)
  qed
qed

lemma release_schedule:
  assumes "False \<in> set fs" "index_of_ptr sz p a < ucast C"
  shows "release C sz fs (Some a) p = Inr (relinked (index_of_ptr sz p a) p)"
    and "release_now C sz a p = relinked (index_of_ptr sz p a) p"
  using assms
  by (simp_all add: release_def release_now_def Let_def release_loop_schedule del: release_loop.simps)

section \<open>The pool refines a list of free slots\<close>

lemma acquire_now_refines:
  assumes "pool_inv C p" "free_list C p = x # xs"
  shows "\<exists>p'. acquire_now sz p = (Some (slot_ptr sz p (of_nat x)), p') \<and> pool_inv C p' \<and>
     free_list C p' = xs \<and> storage_base p' = storage_base p \<and> storage p' = storage p"
proof -
  from assms have cap: "pool_capacity C" and len: "length (pool_next p) = unat C"
    and st: "length (storage p) = unat C"
    and ch: "chain (pool_next p) (index_of (pool_head p)) (x # xs)" and d: "distinct (x # xs)"
    by (simp_all add: pool_inv_def)
  let ?p = "p\<lparr>pool_head := acquire_new_head p (pool_head p)\<rparr>"
  have idx: "index_of (pool_head p) = of_nat x" "index_of (pool_head p) \<noteq> kNullIndex"
    using ch by auto
  have "chain (pool_next ?p) (index_of (pool_head ?p)) xs"
    using ch by (simp add: acquire_new_head_def)
  moreover have "distinct xs" using d by simp
  ultimately have "pool_inv C ?p" "free_list C ?p = xs"
    using pool_invI [of C ?p xs] cap len st by simp_all
  with acquire_now_slot [OF idx(2), of sz] idx(1) show ?thesis by auto
qed

lemma release_now_refines:
  assumes inv: "pool_inv C p" and lay: "layout_ok C sz" and x: "x < unat C" "x \<notin> set (free_list C p)"
  shows "pool_inv C (release_now C sz (slot_ptr sz p (of_nat x)) p)"
    and "free_list C (release_now C sz (slot_ptr sz p (of_nat x)) p) = x # free_list C p"
    and "storage_base (release_now C sz (slot_ptr sz p (of_nat x)) p) = storage_base p"
    and "storage (release_now C sz (slot_ptr sz p (of_nat x)) p) = storage p"
proof -
  from inv have cap: "pool_capacity C" and len: "length (pool_next p) = unat C"
    and st: "length (storage p) = unat C"
    and ch: "chain (pool_next p) (index_of (pool_head p)) (free_list C p)"
    and d: "distinct (free_list C p)"
    by (simp_all add: pool_inv_def)
  note b = pool_capacity_bounds [OF cap]
  let ?i = "of_nat x :: u16"
  have i: "unat ?i = x" using x(1) b(2) by (simp add: unsigned_of_nat take_bit_nat_eq_self)
  have "index_of_ptr sz p (slot_ptr sz p ?i) = ?i"
    by (rule index_of_slot_ptr [OF cap lay]) (simp add: i x(1))
  moreover have "?i < ucast C" using i x(1) b(3) by (simp only: word_less_nat_alt)
  ultimately have eq: "release_now C sz (slot_ptr sz p ?i) p = relinked ?i p"
    using release_schedule(2) [of "[False]" sz p "slot_ptr sz p ?i" C] by simp
  have nn: "?i \<noteq> kNullIndex" using i x(1) b(2) by (auto simp: kNullIndex_def word_unat_eq_iff)
  have ch': "chain (pool_next (relinked ?i p)) (index_of (pool_head (relinked ?i p))) (x # free_list C p)"
    using chain_update [OF ch x(2)] nn x(1) len by (simp add: i)
  have d': "distinct (x # free_list C p)" using d x(2) by simp
  show "pool_inv C (release_now C sz (slot_ptr sz p ?i) p)"
    and "free_list C (release_now C sz (slot_ptr sz p ?i) p) = x # free_list C p"
    unfolding eq using pool_invI [OF cap _ _ ch' d'] len st by simp_all
  show "storage_base (release_now C sz (slot_ptr sz p ?i) p) = storage_base p"
    and "storage (release_now C sz (slot_ptr sz p ?i) p) = storage p"
    by (simp_all add: eq)
qed

section \<open>available\<close>

lemma available_loop_chain:
  "chain nx i xs \<Longrightarrow> count + length xs \<le> unat C \<Longrightarrow> available_loop C nx i count = count + length xs"
proof (induction xs arbitrary: i count)
  case Nil
  then show ?case by (simp add: available_loop.simps)
next
  case (Cons x xs)
  from Cons.prems have "available_loop C nx (nx ! x) (count + 1) = count + 1 + length xs"
    by (intro Cons.IH) auto
  with Cons.prems show ?case by (simp add: available_loop.simps [of C nx i])
qed

lemma available_length:
  assumes "pool_inv C p"
  shows "available C p = length (free_list C p)"
proof -
  have "length (free_list C p) \<le> unat C"
    using distinct_bound_length pool_inv_free_bound [OF assms] assms by (auto simp: pool_inv_def)
  then show ?thesis
    using assms available_loop_chain by (fastforce simp: available_def pool_inv_def)
qed

section \<open>The pool implements the slot pool interface\<close>

definition pool_at :: "u64 \<Rightarrow> u64 \<Rightarrow> u64 \<Rightarrow> 'a ObjectPool \<Rightarrow> bool" where
  "pool_at C sz base p \<longleftrightarrow> pool_inv C p \<and> layout_ok C sz \<and> storage_base p = base"

definition slot_addr :: "u64 \<Rightarrow> u64 \<Rightarrow> nat \<Rightarrow> u64" where
  "slot_addr sz base i = base + sz * ucast (of_nat i :: u16)"

definition free_ptrs :: "u64 \<Rightarrow> u64 \<Rightarrow> u64 \<Rightarrow> 'a ObjectPool \<Rightarrow> u64 list" where
  "free_ptrs C sz base p = map (slot_addr sz base) (free_list C p)"

lemma slot_addr_ptr: "storage_base p = base \<Longrightarrow> slot_addr sz base i = slot_ptr sz p (of_nat i)"
  by (simp add: slot_addr_def slot_ptr_def)

lemma slot_addr_inj:
  assumes "pool_capacity C" "layout_ok C sz"
  shows "inj_on (slot_addr sz base) {..<unat C}"
proof (rule inj_onI)
  fix i j assume ij: "i \<in> {..<unat C}" "j \<in> {..<unat C}" "slot_addr sz base i = slot_addr sz base j"
  then have u: "unat (of_nat i :: u16) = i" "unat (of_nat j :: u16) = j"
    using pool_capacity_bounds(2) [OF assms(1)]
    by (simp_all add: unsigned_of_nat take_bit_nat_eq_self)
  let ?p = "\<lparr>storage_base = base, storage = [], pool_next = [], pool_head = 0\<rparr>"
  have eq: "slot_ptr sz ?p (of_nat i) = slot_ptr sz ?p (of_nat j)"
    using ij(3) by (simp only: slot_ptr_def slot_addr_def ObjectPool.simps)
  have "(of_nat i :: u16) = of_nat j"
    by (rule slot_ptr_inj [OF assms _ _ eq]) (use u ij in auto)
  with u show "i = j" by metis
qed

interpretation object_pool: slot_pool "pool_at C sz base" "free_ptrs C sz base"
    "slot_addr sz base ` {..<unat C}" "acquire_now sz" "release_now C sz"
  for C sz base
proof unfold_locales
  fix p :: "'a ObjectPool" assume p: "pool_at C sz base p"
  then have inv: "pool_inv C p" and lay: "layout_ok C sz" and base: "storage_base p = base"
    by (simp_all add: pool_at_def)
  have cap: "pool_capacity C" and d: "distinct (free_list C p)" using inv by (simp_all add: pool_inv_def)
  note inj = inj_on_subset [OF slot_addr_inj [OF cap lay] pool_inv_free_bound [OF inv]]
  show "distinct (free_ptrs C sz base p)"
    using d inj by (simp add: free_ptrs_def distinct_map)
  show "set (free_ptrs C sz base p) \<subseteq> slot_addr sz base ` {..<unat C}"
    using pool_inv_free_bound [OF inv] by (auto simp: free_ptrs_def)
  show "acquire_now sz p = (None, p)" if "free_ptrs C sz base p = []"
    using that inv by (simp add: free_ptrs_def pool_inv_def acquire_now_null)
  show "\<exists>p'. acquire_now sz p = (Some h, p') \<and> pool_at C sz base p' \<and> free_ptrs C sz base p' = hs"
    if "free_ptrs C sz base p = h # hs" for h hs
  proof -
    from that obtain x xs where "free_list C p = x # xs" "h = slot_addr sz base x"
      "hs = map (slot_addr sz base) xs"
      by (auto simp: free_ptrs_def)
    with acquire_now_refines [OF inv] base lay show ?thesis
      by (fastforce simp: pool_at_def free_ptrs_def slot_addr_ptr)
  qed
  show "pool_at C sz base (release_now C sz h p) \<and>
      free_ptrs C sz base (release_now C sz h p) = h # free_ptrs C sz base p"
    if "h \<in> slot_addr sz base ` {..<unat C}" "h \<notin> set (free_ptrs C sz base p)" for h
  proof -
    from that obtain x where x: "x < unat C" "h = slot_addr sz base x" "x \<notin> set (free_list C p)"
      by (auto simp: free_ptrs_def)
    with release_now_refines [OF inv lay x(1) x(3)] base lay show ?thesis
      by (simp add: pool_at_def free_ptrs_def slot_addr_ptr [OF base])
  qed
qed

section \<open>Properties\<close>

text \<open>
  C29. \<open>acquire\<close> on a well-formed pool: however many of its weak compare-and-swaps fail
  spuriously, as long as one does not, the loop returns. It returns \<open>nullptr\<close> and changes nothing
  exactly when no slot is available; otherwise it returns the address of the first free slot and
  leaves a well-formed pool with that slot removed from the free list.
\<close>

theorem acquire_behaviour:
  assumes "pool_inv C p" "False \<in> set fs"
  shows "case free_list C p of
      [] \<Rightarrow> acquire sz fs p = Some (None, p) \<and> available C p = 0
    | x # xs \<Rightarrow> \<exists>p'. acquire sz fs p = Some (Some (slot_ptr sz p (of_nat x)), p') \<and> pool_inv C p' \<and>
        free_list C p' = xs \<and> available C p = Suc (available C p') \<and> storage p' = storage p"
proof (cases "free_list C p")
  case Nil
  then have "index_of (pool_head p) = kNullIndex" using assms(1) by (simp add: pool_inv_def)
  with Nil show ?thesis
    using acquire_schedule [OF assms(2), of sz p] available_length [OF assms(1)]
    by (simp add: acquire_now_null)
next
  case (Cons x xs)
  with acquire_now_refines [OF assms(1) Cons, of sz] acquire_schedule [OF assms(2), of sz p]
    available_length [OF assms(1)] available_length show ?thesis
    by fastforce
qed

theorem acquire_behaviour_witness:
  "\<exists>p'. acquire 16 [True, False] (ObjectPool_ctor 4 4096 ()) = Some (Some 4096, p') \<and>
     free_list 4 p' = [1, 2, 3]"
proof -
  have cap: "pool_capacity 4" by (simp add: pool_capacity_def)
  note inv = ObjectPool_ctor_free [OF cap, of 4096 "()"]
  have "free_list 4 (ObjectPool_ctor 4 4096 ()) = [0, 1, 2, 3]"
    unfolding inv(2) by (simp add: upt_rec)
  then show ?thesis
    using acquire_behaviour [OF inv(1), of "[True, False]" 16]
    by (auto simp: slot_ptr_def ObjectPool_ctor_def)
qed

text \<open>
  \<open>release\<close> of the address of a slot that is not free succeeds, puts that slot at the front of
  the free list and touches no stored object.
\<close>

theorem release_behaviour:
  assumes "pool_inv C p" "layout_ok C sz" "x < unat C" "x \<notin> set (free_list C p)" "False \<in> set fs"
  shows "\<exists>p'. release C sz fs (Some (slot_ptr sz p (of_nat x))) p = Inr p' \<and> pool_inv C p' \<and>
    free_list C p' = x # free_list C p \<and> available C p' = Suc (available C p) \<and> storage p' = storage p"
proof -
  let ?a = "slot_ptr sz p (of_nat x)"
  note r = release_now_refines [OF assms(1-4)]
  have cap: "pool_capacity C" using assms(1) by (simp add: pool_inv_def)
  note b = pool_capacity_bounds [OF cap]
  have i: "unat (of_nat x :: u16) = x"
    using assms(3) b(2) by (simp add: unsigned_of_nat take_bit_nat_eq_self)
  have "index_of_ptr sz p ?a = of_nat x"
    by (rule index_of_slot_ptr [OF cap assms(2)]) (simp add: i assms(3))
  then have "index_of_ptr sz p ?a < ucast C"
    using i assms(3) b(3) by (simp only: word_less_nat_alt)
  then have "release C sz fs (Some ?a) p = Inr (release_now C sz ?a p)"
    using release_schedule [OF assms(5)] by metis
  with r available_length [OF r(1)] available_length [OF assms(1)] show ?thesis by simp
qed

theorem release_behaviour_witness:
  "\<exists>p p'. acquire 16 [False] (ObjectPool_ctor 4 4096 ()) = Some (Some 4096, p) \<and>
     release 4 16 [True, False] (Some (slot_ptr 16 p (of_nat 0))) p = Inr p' \<and> free_list 4 p' = [0, 1, 2, 3]"
proof -
  have cap: "pool_capacity 4" by (simp add: pool_capacity_def)
  note inv = ObjectPool_ctor_free [OF cap, of 4096 "()"]
  have fl: "free_list 4 (ObjectPool_ctor 4 4096 ()) = 0 # [1, 2, 3]"
    unfolding inv(2) by (simp add: upt_rec)
  obtain p where p: "acquire_now 16 (ObjectPool_ctor 4 4096 ()) = (Some 4096, p)" "pool_inv 4 p"
    "free_list 4 p = [1, 2, 3]"
    using acquire_now_refines [OF inv(1) fl, of 16] by (auto simp: slot_ptr_def ObjectPool_ctor_def)
  have "layout_ok 4 16" by (simp add: layout_ok_def)
  with release_behaviour [OF p(2), of 16 0 "[True, False]"] p show ?thesis
    using acquire_schedule [of "[False]" 16 "ObjectPool_ctor 4 4096 ()"] by auto
qed

text \<open>
  The tag and the index packed into the 64-bit head come back unchanged while the tag fits in
  its 48 bits, and any head word is the packing of its two parts.
\<close>

theorem head_word_roundtrip:
  assumes "unat tag < 2 ^ 48"
  shows "index_of (pack idx tag) = idx \<and> tag_of (pack idx tag) = tag \<and> pack (index_of v) (tag_of v) = v"
proof -
  have "unat (tag_of (pack idx tag)) = unat tag" using assms by (simp add: unat_tag_of_pack)
  then show ?thesis by (simp add: pack_split word_unat_eq_iff)
qed

theorem head_word_roundtrip_witness:
  "index_of (pack 7 12345) = 7 \<and> tag_of (pack 7 12345) = 12345 \<and> pack (index_of 99) (tag_of 99) = 99"
  by (rule head_word_roundtrip) simp

end
