(* ===== verification/Object_Pool_Concurrent.thy ===== *)
theory Object_Pool_Concurrent
  imports Object_Pool
begin

text \<open>
  The object pool used by any number of threads: each shared access of \<open>acquire\<close> and \<open>release\<close> is
  one step of a relation, interleaved in every order. The tag of the head word makes the
  compare-and-swap safe against ABA as long as it has not wrapped around.
\<close>

datatype pool_pc =
    P_Idle
  | Acq_Loaded u64
  | Acq_Read u64 u16
  | Rel_Loaded u16 u64
  | Rel_Linked u16 u64

record pool_sys =
  ps_next :: "u16 list"
  ps_head :: u64
  ps_pc :: "nat \<Rightarrow> pool_pc"
  ps_held :: "nat \<Rightarrow> nat set"
  ps_cas :: nat

definition pool_sys_init :: "u64 \<Rightarrow> pool_sys \<Rightarrow> bool" where
  "pool_sys_init C s \<longleftrightarrow>
     pool_capacity C \<and>
     ps_next s = pool_next (ObjectPool_ctor C 0 ()) \<and> ps_head s = pool_head (ObjectPool_ctor C 0 ()) \<and>
     ps_pc s = (\<lambda>_. P_Idle) \<and> ps_held s = (\<lambda>_. {}) \<and> ps_cas s = 0"

inductive pool_step :: "pool_sys \<Rightarrow> pool_sys \<Rightarrow> bool" where
  acq_load: "ps_pc s i = P_Idle \<Longrightarrow>
    pool_step s (s\<lparr>ps_pc := (ps_pc s)(i := Acq_Loaded (ps_head s))\<rparr>)"
| acq_null: "ps_pc s i = Acq_Loaded old \<Longrightarrow> index_of old = kNullIndex \<Longrightarrow>
    pool_step s (s\<lparr>ps_pc := (ps_pc s)(i := P_Idle)\<rparr>)"
| acq_next: "ps_pc s i = Acq_Loaded old \<Longrightarrow> index_of old \<noteq> kNullIndex \<Longrightarrow>
    pool_step s (s\<lparr>ps_pc := (ps_pc s)(i := Acq_Read old (ps_next s ! unat (index_of old)))\<rparr>)"
| acq_cas: "ps_pc s i = Acq_Read old nx \<Longrightarrow> ps_head s = old \<Longrightarrow>
    pool_step s (s\<lparr>ps_head := pack nx (tag_of old + 1), ps_pc := (ps_pc s)(i := P_Idle),
      ps_held := (ps_held s)(i := insert (unat (index_of old)) (ps_held s i)),
      ps_cas := Suc (ps_cas s)\<rparr>)"
| acq_retry: "ps_pc s i = Acq_Read old nx \<Longrightarrow>
    pool_step s (s\<lparr>ps_pc := (ps_pc s)(i := Acq_Loaded (ps_head s))\<rparr>)"
| rel_load: "ps_pc s i = P_Idle \<Longrightarrow> x \<in> ps_held s i \<Longrightarrow>
    pool_step s (s\<lparr>ps_pc := (ps_pc s)(i := Rel_Loaded (of_nat x) (ps_head s)),
      ps_held := (ps_held s)(i := ps_held s i - {x})\<rparr>)"
| rel_link: "ps_pc s i = Rel_Loaded idx old \<Longrightarrow>
    pool_step s (s\<lparr>ps_next := (ps_next s)[unat idx := index_of old],
      ps_pc := (ps_pc s)(i := Rel_Linked idx old)\<rparr>)"
| rel_cas: "ps_pc s i = Rel_Linked idx old \<Longrightarrow> ps_head s = old \<Longrightarrow>
    pool_step s (s\<lparr>ps_head := pack idx (tag_of old + 1), ps_pc := (ps_pc s)(i := P_Idle),
      ps_cas := Suc (ps_cas s)\<rparr>)"
| rel_retry: "ps_pc s i = Rel_Linked idx old \<Longrightarrow>
    pool_step s (s\<lparr>ps_pc := (ps_pc s)(i := Rel_Loaded idx (ps_head s))\<rparr>)"

fun releasing :: "pool_pc \<Rightarrow> nat set" where
  "releasing (Rel_Loaded idx old) = {unat idx}"
| "releasing (Rel_Linked idx old) = {unat idx}"
| "releasing _ = {}"

definition owned :: "pool_sys \<Rightarrow> nat \<Rightarrow> nat set" where
  "owned s i = ps_held s i \<union> releasing (ps_pc s i)"

definition seen_head :: "nat \<Rightarrow> u64 \<Rightarrow> nat \<Rightarrow> u64 \<Rightarrow> bool" where
  "seen_head n head cas old \<longleftrightarrow>
     unat (tag_of old) \<le> cas \<and> (unat (tag_of old) = cas \<longrightarrow> old = head) \<and>
     (index_of old = kNullIndex \<or> unat (index_of old) < n)"

fun pc_ok :: "u16 list \<Rightarrow> u64 \<Rightarrow> nat \<Rightarrow> pool_pc \<Rightarrow> bool" where
  "pc_ok nx head cas P_Idle \<longleftrightarrow> True"
| "pc_ok nx head cas (Acq_Loaded old) \<longleftrightarrow> seen_head (length nx) head cas old"
| "pc_ok nx head cas (Acq_Read old v) \<longleftrightarrow>
     seen_head (length nx) head cas old \<and> index_of old \<noteq> kNullIndex \<and>
     (old = head \<longrightarrow> v = nx ! unat (index_of old))"
| "pc_ok nx head cas (Rel_Loaded idx old) \<longleftrightarrow> seen_head (length nx) head cas old"
| "pc_ok nx head cas (Rel_Linked idx old) \<longleftrightarrow>
     seen_head (length nx) head cas old \<and> nx ! unat idx = index_of old"

definition pool_sys_ok :: "u64 \<Rightarrow> nat list \<Rightarrow> pool_sys \<Rightarrow> bool" where
  "pool_sys_ok C xs s \<longleftrightarrow>
     pool_capacity C \<and> length (ps_next s) = unat C \<and>
     chain (ps_next s) (index_of (ps_head s)) xs \<and> distinct xs \<and>
     unat (tag_of (ps_head s)) = ps_cas s \<and>
     (\<forall>i. ps_held s i \<inter> releasing (ps_pc s i) = {}) \<and>
     (\<forall>i. owned s i \<subseteq> {..<unat C} - set xs) \<and>
     (\<forall>i j. i \<noteq> j \<longrightarrow> owned s i \<inter> owned s j = {}) \<and>
     (\<forall>x<unat C. x \<in> set xs \<or> (\<exists>i. x \<in> owned s i)) \<and>
     (\<forall>i. pc_ok (ps_next s) (ps_head s) (ps_cas s) (ps_pc s i))"

definition pool_sys_inv :: "u64 \<Rightarrow> pool_sys \<Rightarrow> bool" where
  "pool_sys_inv C s \<longleftrightarrow> (\<exists>xs. pool_sys_ok C xs s)"

lemma pool_sys_okD:
  assumes "pool_sys_ok C xs s"
  shows "pool_capacity C" "length (ps_next s) = unat C"
    "chain (ps_next s) (index_of (ps_head s)) xs" "distinct xs"
    "unat (tag_of (ps_head s)) = ps_cas s"
    "ps_held s i \<inter> releasing (ps_pc s i) = {}"
    "owned s i \<subseteq> {..<unat C} - set xs"
    "i \<noteq> j \<Longrightarrow> owned s i \<inter> owned s j = {}"
    "x < unat C \<Longrightarrow> x \<in> set xs \<or> (\<exists>i. x \<in> owned s i)"
    "pc_ok (ps_next s) (ps_head s) (ps_cas s) (ps_pc s i)"
  using assms unfolding pool_sys_ok_def by blast+

lemma pool_sys_okI:
  assumes "pool_capacity C" "length (ps_next s) = unat C"
    "chain (ps_next s) (index_of (ps_head s)) xs" "distinct xs"
    "unat (tag_of (ps_head s)) = ps_cas s"
    "\<And>i. ps_held s i \<inter> releasing (ps_pc s i) = {}"
    "\<And>i. owned s i \<subseteq> {..<unat C} - set xs"
    "\<And>i j. i \<noteq> j \<Longrightarrow> owned s i \<inter> owned s j = {}"
    "\<And>x. x < unat C \<Longrightarrow> x \<in> set xs \<or> (\<exists>i. x \<in> owned s i)"
    "\<And>i. pc_ok (ps_next s) (ps_head s) (ps_cas s) (ps_pc s i)"
  shows "pool_sys_ok C xs s"
  using assms unfolding pool_sys_ok_def by blast

section \<open>Steps that only move a thread\<close>

lemma seen_current:
  assumes "pool_sys_ok C xs s"
  shows "seen_head (length (ps_next s)) (ps_head s) (ps_cas s) (ps_head s)"
proof -
  note d = pool_sys_okD [OF assms]
  have "index_of (ps_head s) = kNullIndex \<or> unat (index_of (ps_head s)) < length (ps_next s)"
    using d(3) by (cases xs) auto
  with d(5) show ?thesis by (simp add: seen_head_def)
qed

lemma pc_step_ok:
  assumes ok: "pool_sys_ok C xs s"
    and rel: "releasing pc = releasing (ps_pc s i)"
    and pc: "pc_ok (ps_next s) (ps_head s) (ps_cas s) pc"
  shows "pool_sys_ok C xs (s\<lparr>ps_pc := (ps_pc s)(i := pc)\<rparr>)"
proof -
  note d = pool_sys_okD [OF ok]
  let ?t = "s\<lparr>ps_pc := (ps_pc s)(i := pc)\<rparr>"
  have own: "owned ?t j = owned s j" for j using rel by (simp add: owned_def)
  show ?thesis
  proof (rule pool_sys_okI, goal_cases)
    case (6 j) then show ?case using d(6) [of j] rel by auto
  next
    case (7 j) then show ?case using d(7) [of j] own by simp
  next
    case (8 j k) then show ?case using d(8) [of j k] own by simp
  next
    case (9 x) then show ?case using d(9) [of x] own by simp
  next
    case (10 j) then show ?case using d(10) [of j] pc by simp
  qed (use d in simp_all)
qed

section \<open>Steps that change the shared words\<close>

text \<open>A head update by one thread: what every other thread saw before is now old.\<close>

lemma seen_head_stale:
  "seen_head n head cas old \<Longrightarrow> unat (tag_of head') = Suc cas \<Longrightarrow> seen_head n head' (Suc cas) old \<and> old \<noteq> head'"
  by (auto simp: seen_head_def)

lemma pc_ok_stale:
  "pc_ok nx head cas pc \<Longrightarrow> unat (tag_of head') = Suc cas \<Longrightarrow> pc_ok nx head' (Suc cas) pc"
  by (cases pc) (auto dest: seen_head_stale)

lemma tag_bump:
  assumes "unat (tag_of old) = cas" "Suc cas < 2 ^ 48"
  shows "unat (tag_of (pack idx (tag_of old + 1))) = Suc cas"
proof -
  have "unat (tag_of old + 1) = Suc cas"
    using assms by (simp add: unat_suc_u64)
  then show ?thesis using assms(2) by (simp add: unat_tag_of_pack)
qed

lemma acq_cas_ok:
  assumes ok: "pool_sys_ok C xs s" and pc: "ps_pc s i = Acq_Read (ps_head s) nx"
    and bound: "Suc (ps_cas s) < 2 ^ 48"
  shows "pool_sys_ok C (tl xs) (s\<lparr>ps_head := pack nx (tag_of (ps_head s) + 1),
      ps_pc := (ps_pc s)(i := P_Idle),
      ps_held := (ps_held s)(i := insert (unat (index_of (ps_head s))) (ps_held s i)),
      ps_cas := Suc (ps_cas s)\<rparr>)" (is "pool_sys_ok C _ ?t")
proof -
  note d = pool_sys_okD [OF ok]
  have nn: "index_of (ps_head s) \<noteq> kNullIndex" and nx: "nx = ps_next s ! unat (index_of (ps_head s))"
    using d(10) [of i] pc by auto
  then obtain ys where xs: "xs = unat (index_of (ps_head s)) # ys" using d(3) by (cases xs) auto
  have tag: "unat (tag_of (ps_head ?t)) = Suc (ps_cas s)" using tag_bump [OF d(5) bound] by simp
  have own_i: "owned ?t i = insert (unat (index_of (ps_head s))) (owned s i)"
    using pc by (simp add: owned_def)
  have own_j: "j \<noteq> i \<Longrightarrow> owned ?t j = owned s j" for j by (simp add: owned_def)
  have x: "unat (index_of (ps_head s)) < unat C" using chain_bound [OF d(3)] xs d(2) by auto
  have xo: "unat (index_of (ps_head s)) \<notin> owned s j" for j using d(7) [of j] xs by auto
  show ?thesis
  proof (rule pool_sys_okI, goal_cases)
    case 3 then show ?case using d(3) xs nx by simp
  next
    case 4 then show ?case using d(4) xs by simp
  next
    case 5 then show ?case using tag by simp
  next
    case (6 j) then show ?case using d(6) [of j] by simp
  next
    case (7 j) then show ?case
      using d(7) [of j] d(7) [of i] d(4) own_i own_j [of j] xs x by (cases "j = i") auto
  next
    case (8 j k) then show ?case
      using d(8) [of j k] own_i own_j xo by (cases "j = i"; cases "k = i") auto
  next
    case (9 y) then show ?case
      using d(9) [of y] xs own_i own_j by (metis insertCI list.sel(3) set_ConsD)
  next
    case (10 j) then show ?case using pc_ok_stale [OF d(10) [of j] tag] by simp
  qed (use d in simp_all)
qed

lemma slot_u16: "pool_capacity C \<Longrightarrow> x < unat C \<Longrightarrow> unat (of_nat x :: u16) = x"
  using pool_capacity_bounds(2) [of C] by (simp add: unsigned_of_nat take_bit_nat_eq_self)

lemma rel_load_ok:
  assumes ok: "pool_sys_ok C xs s" and pc: "ps_pc s i = P_Idle" and x: "x \<in> ps_held s i"
    and old: "seen_head (length (ps_next s)) (ps_head s) (ps_cas s) old"
  shows "pool_sys_ok C xs (s\<lparr>ps_pc := (ps_pc s)(i := Rel_Loaded (of_nat x) old),
      ps_held := (ps_held s)(i := ps_held s i - {x})\<rparr>)" (is "pool_sys_ok C _ ?t")
proof -
  note d = pool_sys_okD [OF ok]
  have "x < unat C" using d(7) [of i] x by (auto simp: owned_def)
  then have u: "unat (of_nat x :: u16) = x" by (rule slot_u16 [OF d(1)])
  have own: "owned ?t j = owned s j" for j using pc x u by (auto simp: owned_def)
  show ?thesis
  proof (rule pool_sys_okI, goal_cases)
    case (6 j) then show ?case using d(6) [of j] u by auto
  next
    case (7 j) then show ?case using d(7) [of j] own by simp
  next
    case (8 j k) then show ?case using d(8) [of j k] own by simp
  next
    case (9 y) then show ?case using d(9) [of y] own by simp
  next
    case (10 j) then show ?case using d(10) [of j] old by simp
  qed (use d in simp_all)
qed

text \<open>Linking a slot that its releaser owns disturbs neither the chain nor any other thread.\<close>

lemma pc_ok_link:
  assumes "pc_ok nx head cas pc" "x \<notin> releasing pc"
    and "index_of head = kNullIndex \<or> unat (index_of head) \<noteq> x"
  shows "pc_ok (nx[x := v]) head cas pc"
  using assms by (cases pc) (auto simp: seen_head_def)

lemma rel_link_ok:
  assumes ok: "pool_sys_ok C xs s" and pc: "ps_pc s i = Rel_Loaded idx old"
  shows "pool_sys_ok C xs (s\<lparr>ps_next := (ps_next s)[unat idx := index_of old],
      ps_pc := (ps_pc s)(i := Rel_Linked idx old)\<rparr>)" (is "pool_sys_ok C _ ?t")
proof -
  note d = pool_sys_okD [OF ok]
  have own: "owned ?t j = owned s j" for j using pc by (simp add: owned_def)
  have x: "unat idx \<in> owned s i" using pc by (simp add: owned_def)
  then have xC: "unat idx < unat C" and xn: "unat idx \<notin> set xs" using d(7) [of i] by auto
  have hx: "index_of (ps_head s) = kNullIndex \<or> unat (index_of (ps_head s)) \<noteq> unat idx"
    using d(3) xn by (cases xs) auto
  show ?thesis
  proof (rule pool_sys_okI, goal_cases)
    case 3 then show ?case using chain_update [OF d(3) xn] by simp
  next
    case (6 j) then show ?case using d(6) [of j] pc by auto
  next
    case (7 j) then show ?case using d(7) [of j] own by simp
  next
    case (8 j k) then show ?case using d(8) [of j k] own by simp
  next
    case (9 y) then show ?case using d(9) [of y] own by simp
  next
    case (10 j)
    show ?case
    proof (cases "j = i")
      case True
      then show ?thesis using d(10) [of i] pc xC d(2) by simp
    next
      case False
      then have "unat idx \<notin> releasing (ps_pc s j)" using d(8) [of i j] x by (auto simp: owned_def)
      then show ?thesis using pc_ok_link [OF d(10) [of j] _ hx] False by simp
    qed
  qed (use d in simp_all)
qed

lemma rel_cas_ok:
  assumes ok: "pool_sys_ok C xs s" and pc: "ps_pc s i = Rel_Linked idx (ps_head s)"
    and bound: "Suc (ps_cas s) < 2 ^ 48"
  shows "pool_sys_ok C (unat idx # xs) (s\<lparr>ps_head := pack idx (tag_of (ps_head s) + 1),
      ps_pc := (ps_pc s)(i := P_Idle), ps_cas := Suc (ps_cas s)\<rparr>)" (is "pool_sys_ok C _ ?t")
proof -
  note d = pool_sys_okD [OF ok]
  have nx: "ps_next s ! unat idx = index_of (ps_head s)" using d(10) [of i] pc by simp
  have x: "unat idx \<in> owned s i" using pc by (simp add: owned_def)
  then have xC: "unat idx < unat C" and xn: "unat idx \<notin> set xs" using d(7) [of i] by auto
  have nn: "idx \<noteq> kNullIndex"
    using xC pool_capacity_bounds(2) [OF d(1)] by (auto simp: kNullIndex_def)
  have tag: "unat (tag_of (ps_head ?t)) = Suc (ps_cas s)" using tag_bump [OF d(5) bound] by simp
  have own_i: "owned ?t i = owned s i - {unat idx}"
    using pc d(6) [of i] by (auto simp: owned_def)
  have own_j: "j \<noteq> i \<Longrightarrow> owned ?t j = owned s j" for j by (simp add: owned_def)
  have xo: "j \<noteq> i \<Longrightarrow> unat idx \<notin> owned s j" for j using d(8) [of i j] x by auto
  show ?thesis
  proof (rule pool_sys_okI, goal_cases)
    case 3 then show ?case using d(3) nx nn xC d(2) by simp
  next
    case 4 then show ?case using d(4) xn by simp
  next
    case 5 then show ?case using tag by simp
  next
    case (6 j) then show ?case using d(6) [of j] by simp
  next
    case (7 j) then show ?case
      using d(7) [of j] own_i own_j [of j] xo [of j] by (cases "j = i") auto
  next
    case (8 j k) then show ?case
      using d(8) [of j k] own_i own_j [of j] own_j [of k] by (cases "j = i"; cases "k = i") auto
  next
    case (9 y) then show ?case
      using d(9) [of y] own_i own_j by (metis Diff_iff empty_iff insert_iff list.set(2))
  next
    case (10 j) then show ?case using pc_ok_stale [OF d(10) [of j] tag] by simp
  qed (use d in simp_all)
qed

section \<open>Every reachable state\<close>

lemma pool_step_inv:
  assumes "pool_step s t" "pool_sys_inv C s" "ps_cas t < 2 ^ 48"
  shows "pool_sys_inv C t"
proof -
  from assms(2) obtain xs where ok: "pool_sys_ok C xs s" by (auto simp: pool_sys_inv_def)
  note pcs = pool_sys_okD(10) [OF ok]
  from assms(1,3) have "\<exists>ys. pool_sys_ok C ys t"
  proof cases
    case (acq_load i)
    then show ?thesis using pc_step_ok [OF ok, of "Acq_Loaded (ps_head s)" i] seen_current [OF ok] by auto
  next
    case (acq_null i old)
    then show ?thesis using pc_step_ok [OF ok, of P_Idle i] by auto
  next
    case (acq_next i old)
    then show ?thesis
      using pc_step_ok [OF ok, of "Acq_Read old (ps_next s ! unat (index_of old))" i] pcs [of i] by auto
  next
    case (acq_cas i old nx)
    then show ?thesis using acq_cas_ok [OF ok, of i nx] assms(3) by auto
  next
    case (acq_retry i old nx)
    then show ?thesis using pc_step_ok [OF ok, of "Acq_Loaded (ps_head s)" i] seen_current [OF ok] by auto
  next
    case (rel_load i x)
    then show ?thesis using rel_load_ok [OF ok _ _ seen_current [OF ok]] by blast
  next
    case (rel_link i idx old)
    then show ?thesis using rel_link_ok [OF ok] by blast
  next
    case (rel_cas i idx old)
    then show ?thesis using rel_cas_ok [OF ok, of i idx] assms(3) by auto
  next
    case (rel_retry i idx old)
    then show ?thesis using pc_step_ok [OF ok, of "Rel_Loaded idx (ps_head s)" i] seen_current [OF ok] by auto
  qed
  then show ?thesis by (simp add: pool_sys_inv_def)
qed

lemma pool_init_inv:
  assumes "pool_sys_init C s"
  shows "pool_sys_inv C s"
proof -
  from assms have cap: "pool_capacity C" by (simp add: pool_sys_init_def)
  have inv: "pool_inv C (ObjectPool_ctor C 0 ())" and fl: "free_list C (ObjectPool_ctor C 0 ()) = [0..<unat C]"
    by (rule ObjectPool_ctor_free [OF cap])+
  have "pool_sys_ok C [0..<unat C] s"
  proof (rule pool_sys_okI, goal_cases)
    case 5 then show ?case
      using assms by (simp add: pool_sys_init_def ObjectPool_ctor_def unat_tag_of_pack)
  qed (use assms inv fl in \<open>auto simp: pool_sys_init_def pool_inv_def owned_def\<close>)
  then show ?thesis by (auto simp: pool_sys_inv_def)
qed

interpretation pool_run: bounded_invariant_system "pool_sys_init C" pool_step "pool_sys_inv C" ps_cas "2 ^ 48"
  for C
proof unfold_locales
  fix s assume "pool_sys_init C s"
  then show "pool_sys_inv C s" by (rule pool_init_inv)
next
  fix s t assume "pool_step s t"
  then show "ps_cas s \<le> ps_cas t" by cases simp_all
next
  fix s t assume "pool_step s t" "pool_sys_inv C s" "ps_cas t < 2 ^ 48"
  then show "pool_sys_inv C t" by (rule pool_step_inv)
qed

section \<open>Two sample runs\<close>

text \<open>A pool of two slots; thread 0 and then thread 1 acquires a slot.\<close>

definition pool_two :: pool_sys where
  "pool_two = \<lparr>ps_next = [1, 0xFFFF], ps_head = 0, ps_pc = (\<lambda>_. P_Idle), ps_held = (\<lambda>_. {}), ps_cas = 0\<rparr>"

definition run_acquire :: "nat \<Rightarrow> pool_sys \<Rightarrow> pool_sys" where
  "run_acquire i s = s\<lparr>
     ps_head := pack (ps_next s ! unat (index_of (ps_head s))) (tag_of (ps_head s) + 1),
     ps_held := (ps_held s)(i := insert (unat (index_of (ps_head s))) (ps_held s i)), ps_cas := Suc (ps_cas s)\<rparr>"

lemma pool_two_init: "pool_sys_init 2 pool_two"
proof -
  have "pool_next (ObjectPool_ctor 2 0 ()) = [1, 0xFFFF]" "pool_head (ObjectPool_ctor 2 0 ()) = 0"
    by (simp_all add: ObjectPool_ctor_def next_init_def kNullIndex_def pack_def upt_rec)
  then show ?thesis by (simp add: pool_sys_init_def pool_two_def pool_capacity_def)
qed

lemma run_acquire_reachable:
  assumes r: "reachable (pool_sys_init C) pool_step s" and idle: "ps_pc s i = P_Idle"
    and free: "index_of (ps_head s) \<noteq> kNullIndex"
  shows "reachable (pool_sys_init C) pool_step (run_acquire i s)"
proof -
  let ?s1 = "s\<lparr>ps_pc := (ps_pc s)(i := Acq_Loaded (ps_head s))\<rparr>"
  let ?s2 = "?s1\<lparr>ps_pc := (ps_pc ?s1)(i := Acq_Read (ps_head s) (ps_next ?s1 ! unat (index_of (ps_head s))))\<rparr>"
  have "reachable (pool_sys_init C) pool_step ?s1"
    by (rule reach_step [OF r]) (rule acq_load [OF idle])
  then have r2: "reachable (pool_sys_init C) pool_step ?s2"
    by (rule reach_step) (rule acq_next, simp_all add: free)
  have "(ps_pc s)(i := P_Idle) = ps_pc s" using idle by auto
  then have "pool_step ?s2 (run_acquire i s)"
    using acq_cas [of ?s2 i "ps_head s" "ps_next s ! unat (index_of (ps_head s))"]
    by (simp add: run_acquire_def)
  with r2 show ?thesis by (rule reach_step)
qed

section \<open>Properties\<close>

text \<open>
  C7. Any number of threads may run \<open>acquire\<close> and \<open>release\<close> at the same time, interleaved at every
  load, link write and compare-and-swap, with spurious failures: while fewer than \<open>2^48\<close> head
  updates have happened, so that no tag repeats, no slot is in the hands of two threads, every
  slot handed out is a slot of the pool, and the free list reached from the head is a duplicate-free
  chain of slots that nobody holds.
\<close>

theorem pool_concurrent_exclusive:
  assumes "reachable (pool_sys_init C) pool_step s" "ps_cas s < 2 ^ 48"
  shows "(\<forall>i j. i \<noteq> j \<longrightarrow> ps_held s i \<inter> ps_held s j = {}) \<and> (\<forall>i. ps_held s i \<subseteq> {..<unat C}) \<and>
    (\<exists>xs. chain (ps_next s) (index_of (ps_head s)) xs \<and> distinct xs \<and> (\<forall>i. set xs \<inter> ps_held s i = {}))"
proof -
  from pool_run.reachable_below_inv [OF assms] obtain xs where ok: "pool_sys_ok C xs s"
    by (auto simp: pool_sys_inv_def)
  note d = pool_sys_okD [OF ok]
  have "i \<noteq> j \<Longrightarrow> ps_held s i \<inter> ps_held s j = {}" for i j
    using d(8) [of i j] by (auto simp: owned_def)
  moreover have "ps_held s i \<subseteq> {..<unat C} - set xs" for i
    using d(7) [of i] by (auto simp: owned_def)
  ultimately show ?thesis using d(3,4) by blast
qed

theorem pool_concurrent_exclusive_witness:
  "ps_held (run_acquire 1 (run_acquire 0 pool_two)) 0 = {0} \<and>
   ps_held (run_acquire 1 (run_acquire 0 pool_two)) 1 = {1} \<and>
   ps_held (run_acquire 1 (run_acquire 0 pool_two)) 0 \<inter> ps_held (run_acquire 1 (run_acquire 0 pool_two)) 1 = {}"
proof -
  have i0: "index_of 0 = 0" by (simp add: index_of_def)
  have r1: "reachable (pool_sys_init 2) pool_step (run_acquire 0 pool_two)"
    by (rule run_acquire_reachable [OF reach_init [of "pool_sys_init 2", OF pool_two_init]])
      (simp_all add: pool_two_def kNullIndex_def i0)
  have r2: "reachable (pool_sys_init 2) pool_step (run_acquire 1 (run_acquire 0 pool_two))"
    by (rule run_acquire_reachable [OF r1])
      (simp_all add: run_acquire_def pool_two_def kNullIndex_def i0)
  show ?thesis
    using pool_concurrent_exclusive [OF r2]
    by (auto simp: run_acquire_def pool_two_def i0)
qed

text \<open>
  No slot is lost under concurrency: in every reachable state each slot of the pool is on the
  free list, held by a thread, or on its way back in a running \<open>release\<close>.
\<close>

theorem pool_concurrent_complete:
  assumes "reachable (pool_sys_init C) pool_step s" "ps_cas s < 2 ^ 48" "x < unat C"
  shows "\<exists>xs. chain (ps_next s) (index_of (ps_head s)) xs \<and>
    (x \<in> set xs \<or> (\<exists>i. x \<in> ps_held s i) \<or> (\<exists>i. x \<in> releasing (ps_pc s i)))"
proof -
  from pool_run.reachable_below_inv [OF assms(1,2)] obtain xs where ok: "pool_sys_ok C xs s"
    by (auto simp: pool_sys_inv_def)
  with pool_sys_okD(3) [OF ok] pool_sys_okD(9) [OF ok assms(3)] show ?thesis
    by (auto simp: owned_def)
qed

theorem pool_concurrent_complete_witness:
  "\<exists>xs. chain (ps_next pool_two) (index_of (ps_head pool_two)) xs \<and>
     (1 \<in> set xs \<or> (\<exists>i. 1 \<in> ps_held pool_two i) \<or> (\<exists>i. 1 \<in> releasing (ps_pc pool_two i)))"
proof -
  have "reachable (pool_sys_init 2) pool_step pool_two" by (rule reach_init) (rule pool_two_init)
  moreover have "ps_cas pool_two < 2 ^ 48" by (simp add: pool_two_def)
  ultimately show ?thesis by (rule pool_concurrent_complete) simp
qed

text \<open>
  The links of the free list are plain, non-atomic words, and the algorithm does not keep
  their accesses apart: there is a reachable state in which one thread's next step reads the
  link of a slot and another thread's next step writes the same link.
\<close>

theorem pool_link_race:
  "\<exists>s i j idx old old'. reachable (pool_sys_init 2) pool_step s \<and> i \<noteq> j \<and>
     ps_pc s i = Acq_Loaded old \<and> index_of old = idx \<and> idx \<noteq> kNullIndex \<and> ps_pc s j = Rel_Loaded idx old'"
proof -
  have i0: "index_of 0 = 0" by (simp add: index_of_def)
  let ?s1 = "pool_two\<lparr>ps_pc := (ps_pc pool_two)(0 := Acq_Loaded (ps_head pool_two))\<rparr>"
  have r0: "reachable (pool_sys_init 2) pool_step pool_two" by (rule reach_init) (rule pool_two_init)
  have r1: "reachable (pool_sys_init 2) pool_step ?s1"
    by (rule reach_step [OF r0]) (rule acq_load, simp add: pool_two_def)
  have r2: "reachable (pool_sys_init 2) pool_step (run_acquire 1 ?s1)"
    by (rule run_acquire_reachable [OF r1]) (simp_all add: pool_two_def kNullIndex_def i0)
  let ?s2 = "run_acquire 1 ?s1"
  let ?s3 = "?s2\<lparr>ps_pc := (ps_pc ?s2)(1 := Rel_Loaded (of_nat 0) (ps_head ?s2)),
      ps_held := (ps_held ?s2)(1 := ps_held ?s2 1 - {0})\<rparr>"
  have r3: "reachable (pool_sys_init 2) pool_step ?s3"
    by (rule reach_step [OF r2]) (rule rel_load, simp_all add: run_acquire_def pool_two_def i0)
  have pc: "ps_pc ?s3 0 = Acq_Loaded 0" "ps_pc ?s3 1 = Rel_Loaded 0 (ps_head ?s2)"
    by (simp_all add: run_acquire_def pool_two_def)
  have "(0 :: u16) \<noteq> kNullIndex" "(0 :: nat) \<noteq> 1" by (simp_all add: kNullIndex_def)
  with r3 pc i0 show ?thesis by blast
qed

end
