(* ===== verification/Object_Pool_Weak.thy ===== *)
theory Object_Pool_Weak
  imports Sync_Policy Object_Pool_Concurrent
begin

text \<open>
  The object pool on the memory model of the policies, with the orders of \<open>object_pool.hpp\<close>: the head
  is loaded with acquire in \<open>acquire\<close> and relaxed in \<open>release\<close>, exchanged with acquire-release, and
  the failed exchange is an acquire or a relaxed load. The links are plain words of the program,
  here relaxed accesses, the weakest that the language gives a meaning to. A holder may read and
  write the object in its slot, so that the theory also says what one holder sees of the previous one.
\<close>

section \<open>The system\<close>

datatype pool_loc = Head | Next nat | Object nat

record pool_weak =
  pw_mem :: "(pool_loc, u64) memory"
  pw_view :: "nat \<Rightarrow> pool_loc view"
  pw_pc :: "nat \<Rightarrow> pool_pc"
  pw_held :: "nat \<Rightarrow> nat set"
  pw_cas :: nat

fun pw_first :: "u64 \<Rightarrow> pool_loc \<Rightarrow> u64" where
  "pw_first C Head = pack 0 0"
| "pw_first C (Next i) = ucast (next_init C i)"
| "pw_first C (Object i) = 0"

definition pw_mem_init :: "u64 \<Rightarrow> (pool_loc, u64) memory" where
  "pw_mem_init C = (\<lambda>l. [\<lparr>msg_val = pw_first C l, msg_view = empty_view\<rparr>])"

definition pw_init :: "u64 \<Rightarrow> pool_weak \<Rightarrow> bool" where
  "pw_init C s \<longleftrightarrow>
     pool_capacity C \<and> pw_mem s = pw_mem_init C \<and> pw_view s = (\<lambda>_. empty_view) \<and> pw_pc s = (\<lambda>_. P_Idle) \<and>
     pw_held s = (\<lambda>_. {}) \<and> pw_cas s = 0"

inductive pw_step :: "pool_weak \<Rightarrow> pool_weak \<Rightarrow> bool" where
  pw_acq_load: "pw_pc s i = P_Idle \<Longrightarrow>
    atomic_load memory_order_acquire Head k (pw_mem s) (pw_view s i) = Some (old, V) \<Longrightarrow>
    pw_step s (s\<lparr>pw_view := (pw_view s)(i := V), pw_pc := (pw_pc s)(i := Acq_Loaded old)\<rparr>)"
| pw_acq_null: "pw_pc s i = Acq_Loaded old \<Longrightarrow> index_of old = kNullIndex \<Longrightarrow>
    pw_step s (s\<lparr>pw_pc := (pw_pc s)(i := P_Idle)\<rparr>)"
| pw_acq_next: "pw_pc s i = Acq_Loaded old \<Longrightarrow> index_of old \<noteq> kNullIndex \<Longrightarrow>
    atomic_load memory_order_relaxed (Next (unat (index_of old))) k (pw_mem s) (pw_view s i) = Some (v, V) \<Longrightarrow>
    pw_step s (s\<lparr>pw_view := (pw_view s)(i := V), pw_pc := (pw_pc s)(i := Acq_Read old (ucast v))\<rparr>)"
| pw_acq_cas: "pw_pc s i = Acq_Read old nx \<Longrightarrow>
    atomic_compare_exchange_weak memory_order_acq_rel memory_order_acquire Head k sp old (pack nx (tag_of old + 1))
      (pw_mem s) (pw_view s i) = Some (True, e, m, V) \<Longrightarrow>
    pw_step s (s\<lparr>pw_mem := m, pw_view := (pw_view s)(i := V), pw_pc := (pw_pc s)(i := P_Idle),
      pw_held := (pw_held s)(i := insert (unat (index_of old)) (pw_held s i)), pw_cas := Suc (pw_cas s)\<rparr>)"
| pw_acq_retry: "pw_pc s i = Acq_Read old nx \<Longrightarrow>
    atomic_compare_exchange_weak memory_order_acq_rel memory_order_acquire Head k sp old (pack nx (tag_of old + 1))
      (pw_mem s) (pw_view s i) = Some (False, e, m, V) \<Longrightarrow>
    pw_step s (s\<lparr>pw_mem := m, pw_view := (pw_view s)(i := V), pw_pc := (pw_pc s)(i := Acq_Loaded e)\<rparr>)"
| pw_rel_load: "pw_pc s i = P_Idle \<Longrightarrow> x \<in> pw_held s i \<Longrightarrow>
    atomic_load memory_order_relaxed Head k (pw_mem s) (pw_view s i) = Some (old, V) \<Longrightarrow>
    pw_step s (s\<lparr>pw_view := (pw_view s)(i := V), pw_pc := (pw_pc s)(i := Rel_Loaded (of_nat x) old),
      pw_held := (pw_held s)(i := pw_held s i - {x})\<rparr>)"
| pw_rel_link: "pw_pc s i = Rel_Loaded idx old \<Longrightarrow>
    atomic_store memory_order_relaxed (Next (unat idx)) (ucast (index_of old)) (pw_mem s) (pw_view s i) = (m, V) \<Longrightarrow>
    pw_step s (s\<lparr>pw_mem := m, pw_view := (pw_view s)(i := V), pw_pc := (pw_pc s)(i := Rel_Linked idx old)\<rparr>)"
| pw_rel_cas: "pw_pc s i = Rel_Linked idx old \<Longrightarrow>
    atomic_compare_exchange_weak memory_order_acq_rel memory_order_relaxed Head k sp old (pack idx (tag_of old + 1))
      (pw_mem s) (pw_view s i) = Some (True, e, m, V) \<Longrightarrow>
    pw_step s (s\<lparr>pw_mem := m, pw_view := (pw_view s)(i := V), pw_pc := (pw_pc s)(i := P_Idle), pw_cas := Suc (pw_cas s)\<rparr>)"
| pw_rel_retry: "pw_pc s i = Rel_Linked idx old \<Longrightarrow>
    atomic_compare_exchange_weak memory_order_acq_rel memory_order_relaxed Head k sp old (pack idx (tag_of old + 1))
      (pw_mem s) (pw_view s i) = Some (False, e, m, V) \<Longrightarrow>
    pw_step s (s\<lparr>pw_mem := m, pw_view := (pw_view s)(i := V), pw_pc := (pw_pc s)(i := Rel_Loaded idx e)\<rparr>)"
| pw_use_read: "x \<in> pw_held s i \<Longrightarrow>
    atomic_load memory_order_relaxed (Object x) k (pw_mem s) (pw_view s i) = Some (v, V) \<Longrightarrow>
    pw_step s (s\<lparr>pw_view := (pw_view s)(i := V)\<rparr>)"
| pw_use_write: "x \<in> pw_held s i \<Longrightarrow>
    atomic_store memory_order_relaxed (Object x) v (pw_mem s) (pw_view s i) = (m, V) \<Longrightarrow>
    pw_step s (s\<lparr>pw_mem := m, pw_view := (pw_view s)(i := V)\<rparr>)"

section \<open>The newest values form an interleaved state\<close>

definition pw_abs :: "u64 \<Rightarrow> pool_weak \<Rightarrow> pool_sys" where
  "pw_abs C s = \<lparr>ps_next = map (\<lambda>i. ucast (newest (pw_mem s) (Next i))) [0..<unat C], ps_head = newest (pw_mem s) Head,
     ps_pc = pw_pc s, ps_held = pw_held s, ps_cas = pw_cas s\<rparr>"

lemma pw_abs_simps [simp]:
  "ps_head (pw_abs C s) = newest (pw_mem s) Head" "ps_pc (pw_abs C s) = pw_pc s" "ps_held (pw_abs C s) = pw_held s"
  "ps_cas (pw_abs C s) = pw_cas s" "length (ps_next (pw_abs C s)) = unat C"
  "x < unat C \<Longrightarrow> ps_next (pw_abs C s) ! x = ucast (newest (pw_mem s) (Next x))"
  by (simp_all add: pw_abs_def)

lemma owned_abs [simp]: "owned (pw_abs C s) i = pw_held s i \<union> releasing (pw_pc s i)"
  by (simp add: owned_def)

section \<open>The invariant\<close>

text \<open>A view that has seen the newest link and the newest contents of a slot.\<close>

definition covers :: "(pool_loc, u64) memory \<Rightarrow> pool_loc view \<Rightarrow> nat \<Rightarrow> bool" where
  "covers m V x \<longleftrightarrow> Suc (V (Next x)) = length (m (Next x)) \<and> Suc (V (Object x)) = length (m (Object x))"

text \<open>The tag of a head word is the number of its message.\<close>

definition heads_ok :: "nat \<Rightarrow> (pool_loc, u64) memory \<Rightarrow> nat \<Rightarrow> bool" where
  "heads_ok N m cas \<longleftrightarrow> length (m Head) = Suc cas \<and>
     (\<forall>t < length (m Head). let v = msg_val (m Head ! t) in
        unat (tag_of v) = t \<and> (index_of v = kNullIndex \<or> unat (index_of v) < N))"

fun pc_view :: "(pool_loc, u64) memory \<Rightarrow> pool_loc view \<Rightarrow> pool_pc \<Rightarrow> bool" where
  "pc_view m V (Acq_Loaded old) \<longleftrightarrow>
     (old = newest m Head \<longrightarrow> index_of old \<noteq> kNullIndex \<longrightarrow> covers m V (unat (index_of old)))"
| "pc_view m V _ \<longleftrightarrow> True"

definition pw_ok :: "u64 \<Rightarrow> nat list \<Rightarrow> pool_weak \<Rightarrow> bool" where
  "pw_ok C xs s \<longleftrightarrow>
     pool_sys_ok C xs (pw_abs C s) \<and> memory_wf (pw_mem s) \<and> heads_ok (unat C) (pw_mem s) (pw_cas s) \<and>
     (\<forall>x\<in>set xs. covers (pw_mem s) (msg_view (last (pw_mem s Head))) x) \<and>
     (\<forall>i. view_wf (pw_mem s) (pw_view s i) \<and> (\<forall>x\<in>pw_held s i \<union> releasing (pw_pc s i). covers (pw_mem s) (pw_view s i) x) \<and>
        pc_view (pw_mem s) (pw_view s i) (pw_pc s i))"

definition pw_inv :: "u64 \<Rightarrow> pool_weak \<Rightarrow> bool" where
  "pw_inv C s \<longleftrightarrow> (\<exists>xs. pw_ok C xs s)"

lemma pw_okD:
  assumes "pw_ok C xs s"
  shows "pool_sys_ok C xs (pw_abs C s)" "memory_wf (pw_mem s)" "heads_ok (unat C) (pw_mem s) (pw_cas s)"
    "x \<in> set xs \<Longrightarrow> covers (pw_mem s) (msg_view (last (pw_mem s Head))) x"
    "view_wf (pw_mem s) (pw_view s i)" "x \<in> pw_held s i \<union> releasing (pw_pc s i) \<Longrightarrow> covers (pw_mem s) (pw_view s i) x"
    "pc_view (pw_mem s) (pw_view s i) (pw_pc s i)"
  using assms unfolding pw_ok_def by blast+

lemma covers_mono: "covers m V x \<Longrightarrow> V \<le> W \<Longrightarrow> view_wf m W \<Longrightarrow> covers m W x"
  unfolding covers_def view_wf_def le_fun_def by (metis Suc_leI Suc_le_mono le_antisym)

lemma covers_other: "(\<And>y. l = Next y \<or> l = Object y \<Longrightarrow> y \<noteq> x) \<Longrightarrow> covers (m(l := h)) V x = covers m V x"
  unfolding covers_def by (cases l) auto

lemma newest_Next_other: "l \<noteq> Head \<Longrightarrow> newest (m(l := h)) Head = newest m Head"
  by (auto simp: newest_def)

text \<open>The slot of the head word is the first of the chain.\<close>

lemma head_in_chain:
  assumes "pw_ok C xs s" "index_of (newest (pw_mem s) Head) \<noteq> kNullIndex"
  shows "unat (index_of (newest (pw_mem s) Head)) \<in> set xs" "unat (index_of (newest (pw_mem s) Head)) < unat C"
  using pool_sys_okD(3) [OF pw_okD(1) [OF assms(1)]] assms(2) chain_bound [OF pool_sys_okD(3) [OF pw_okD(1) [OF assms(1)]]]
  by (cases xs; auto)+

text \<open>What a load of the head returns, and what it shows if it acquires.\<close>

lemma load_head:
  assumes ok: "pw_ok C xs s" and ld: "atomic_load mo Head k (pw_mem s) (pw_view s i) = Some (old, V)"
  shows "seen_head (unat C) (newest (pw_mem s) Head) (pw_cas s) old"
    "acquires mo \<Longrightarrow> pc_view (pw_mem s) V (Acq_Loaded old)"
proof -
  note d = pw_okD [OF ok] and a = atomic_load_Some [OF ld]
  let ?m = "pw_mem s"
  have h: "length (?m Head) = Suc (pw_cas s)" "unat (tag_of old) = k" "index_of old = kNullIndex \<or> unat (index_of old) < unat C"
    using d(3) a(2,3) by (auto simp: heads_ok_def Let_def)
  have last: "k = pw_cas s \<Longrightarrow> ?m Head ! k = last (?m Head)" using h(1) memory_wf_msg(1) [OF d(2), of Head] by (simp add: last_conv_nth)
  then have "k = pw_cas s \<Longrightarrow> old = newest ?m Head" using a(3) by (simp add: newest_def)
  with h a(2) show "seen_head (unat C) (newest ?m Head) (pw_cas s) old" by (auto simp: seen_head_def)
  assume acq: "acquires mo"
  have "covers ?m V (unat (index_of old))" if "old = newest ?m Head" "index_of old \<noteq> kNullIndex"
  proof -
    have "k = pw_cas s" using h(2) that(1) pool_sys_okD(5) [OF d(1)] by simp
    then have "msg_view (last (?m Head)) \<le> V" using a(6) [OF acq] last by simp
    then show ?thesis
      using covers_mono [OF d(4) _ atomic_load_wf [OF d(2,5) ld]] head_in_chain(1) [OF ok] that by auto
  qed
  then show "pc_view ?m V (Acq_Loaded old)" by simp
qed

section \<open>Preservation\<close>

text \<open>Steps that only load: the thread sees no less and owns the same slots.\<close>

lemma pw_load_ok:
  assumes ok: "pw_ok C xs s" and V: "view_wf (pw_mem s) V" "pw_view s i \<le> V"
    and ab: "pool_sys_ok C xs (pw_abs C (s\<lparr>pw_view := (pw_view s)(i := V), pw_pc := (pw_pc s)(i := pc), pw_held := (pw_held s)(i := H)\<rparr>))"
    and own: "H \<union> releasing pc = pw_held s i \<union> releasing (pw_pc s i)" and pv: "pc_view (pw_mem s) V pc"
  shows "pw_ok C xs (s\<lparr>pw_view := (pw_view s)(i := V), pw_pc := (pw_pc s)(i := pc), pw_held := (pw_held s)(i := H)\<rparr>)"
proof -
  note d = pw_okD [OF ok]
  have "covers (pw_mem s) V x" if "x \<in> H \<union> releasing pc" for x
    using covers_mono [OF d(6) V(2,1)] that own by blast
  then show ?thesis using ab d V pv unfolding pw_ok_def by auto
qed

text \<open>A store to the link or the object of a slot that the thread owns.\<close>

lemma pw_store_ok:
  assumes ok: "pw_ok C xs s" and x: "x \<in> pw_held s i \<union> releasing (pw_pc s i)" and l: "l = Next x \<or> l = Object x"
    and st: "atomic_store mo l v (pw_mem s) (pw_view s i) = (m, V)"
    and ab: "pool_sys_ok C xs (pw_abs C (s\<lparr>pw_mem := m, pw_view := (pw_view s)(i := V), pw_pc := (pw_pc s)(i := pc)\<rparr>))"
    and pc: "releasing pc = releasing (pw_pc s i)" "pc = pw_pc s i \<or> (\<forall>old. pc \<noteq> Acq_Loaded old)"
  shows "pw_ok C xs (s\<lparr>pw_mem := m, pw_view := (pw_view s)(i := V), pw_pc := (pw_pc s)(i := pc)\<rparr>)" (is "pw_ok C xs ?s")
proof -
  note d = pw_okD [OF ok] and w = atomic_store_wf [OF pw_okD(2,5) [OF ok] st]
  let ?m = "pw_mem s"
  obtain z where z: "m = ?m(l := ?m l @ [z])" and V: "V = (pw_view s i)(l := length (?m l))"
    using st by (auto simp: atomic_store_def Let_def)
  have lh: "l \<noteq> Head" using l by auto
  have xn: "x \<notin> set xs" using pool_sys_okD(7) [OF d(1), of i] x by auto
  have nh: "newest m Head = newest ?m Head" "m Head = ?m Head" using lh by (simp_all add: z newest_Next_other)
  have co: "covers m W y = covers ?m W y" if "y \<noteq> x" for W y using that l unfolding z by (intro covers_other) auto
  have "covers m V x" using d(6) [OF x] l by (auto simp: covers_def z V)
  moreover have "covers m V y" if "y \<in> pw_held s i \<union> releasing (pw_pc s i)" "y \<noteq> x" for y
    using covers_mono [OF _ w(4,2)] co [OF that(2)] d(6) [OF that(1)] by blast
  ultimately have ci: "covers m V y" if "y \<in> pw_held s i \<union> releasing pc" for y using that pc(1) by (cases "y = x") auto
  have cj: "covers m (pw_view s j) y" if "j \<noteq> i" "y \<in> pw_held s j \<union> releasing (pw_pc s j)" for j y
  proof -
    have "y \<noteq> x" using pool_sys_okD(8) [OF d(1) that(1)] that(2) x by auto
    then show ?thesis using co d(6) [OF that(2)] by simp
  qed
  have pv: "pc_view m W q" if "pc_view ?m (pw_view s j) q" "pw_view s j \<le> W" "view_wf m W" for W q j
  proof (cases q)
    case (Acq_Loaded old)
    have "covers m W (unat (index_of old))" if "old = newest ?m Head" "index_of old \<noteq> kNullIndex"
    proof -
      have "unat (index_of old) \<noteq> x" using head_in_chain(1) [OF ok] that xn by auto
      moreover have "covers ?m (pw_view s j) (unat (index_of old))" using \<open>pc_view ?m (pw_view s j) q\<close> Acq_Loaded that by simp
      ultimately show ?thesis using covers_mono [OF _ \<open>pw_view s j \<le> W\<close> \<open>view_wf m W\<close>] co by blast
    qed
    then show ?thesis by (simp add: Acq_Loaded nh)
  qed simp_all
  have pi: "pc_view m V pc" using pv [OF d(7) w(4,2)] pc(2) by (cases pc) auto
  have "heads_ok (unat C) m (pw_cas s)" using d(3) nh(2) by (simp add: heads_ok_def)
  moreover have "covers m (msg_view (last (m Head))) y" if "y \<in> set xs" for y
    using co d(4) [OF that] that xn unfolding nh(2) by (cases "y = x") auto
  moreover have "view_wf m (pw_view s j)" for j by (rule view_wf_later [OF w(3) d(5)])
  ultimately show ?thesis using ab w(1,2) ci cj pi pv [OF d(7)] unfolding pw_ok_def by auto
qed

text \<open>A successful exchange of the head.\<close>

lemma pw_cas_ok:
  assumes ok: "pw_ok C xs s"
    and cas: "atomic_compare_exchange_weak memory_order_acq_rel mo Head k sp old new (pw_mem s) (pw_view s i) = Some (True, e, m, V)"
    and ab: "pool_sys_ok C ys (pw_abs C (s\<lparr>pw_mem := m, pw_view := (pw_view s)(i := V), pw_pc := (pw_pc s)(i := P_Idle),
      pw_held := (pw_held s)(i := H), pw_cas := Suc (pw_cas s)\<rparr>))"
    and own: "set ys \<union> H \<subseteq> set xs \<union> pw_held s i \<union> releasing (pw_pc s i)"
  shows "pw_ok C ys (s\<lparr>pw_mem := m, pw_view := (pw_view s)(i := V), pw_pc := (pw_pc s)(i := P_Idle),
      pw_held := (pw_held s)(i := H), pw_cas := Suc (pw_cas s)\<rparr>)" (is "pw_ok C ys ?s")
proof -
  note d = pw_okD [OF ok] and c = compare_exchange_True [OF pw_okD(2,5) [OF ok] cas]
  let ?m = "pw_mem s"
  obtain z where z: "m = ?m(Head := ?m Head @ [z])" "msg_val z = new" "msg_view (last (?m Head)) \<le> V" "V \<le> msg_view z"
    "msg_view (last (?m Head)) \<le> msg_view z" using compare_exchange_views [OF cas] .
  have co: "covers m W y = covers ?m W y" for W y unfolding z(1) by (rule covers_other) auto
  have lz: "last (m Head) = z" by (simp add: z(1))
  have wz: "view_wf m (msg_view z)" using memory_wf_msg(3) [OF c(4), of Head] lz by simp
  have all: "covers m V y" if "y \<in> set xs \<union> pw_held s i \<union> releasing (pw_pc s i)" for y
    using that covers_mono [OF _ z(3) c(5)] covers_mono [OF _ c(7) c(5)] d(4) d(6) [of y i] co by blast
  have nh: "newest m Head = new" by (simp add: z newest_def)
  have tag: "unat (tag_of new) = Suc (pw_cas s)" using pool_sys_okD(5) [OF ab] nh by simp
  have idx: "index_of new = kNullIndex \<or> unat (index_of new) < unat C"
    using seen_current [OF ab] nh by (simp add: seen_head_def)
  have "heads_ok (unat C) m (Suc (pw_cas s))"
    using d(3) tag idx by (auto simp: heads_ok_def z Let_def nth_append less_Suc_eq)
  moreover have "covers m (msg_view (last (m Head))) y" if "y \<in> set ys" for y
    using covers_mono [OF all z(4) wz] that own unfolding lz by blast
  moreover have "pc_view m (pw_view s j) (pw_pc s j)" for j
  proof (cases "pw_pc s j")
    case (Acq_Loaded q)
    then have "seen_head (unat C) (newest ?m Head) (pw_cas s) q" using pool_sys_okD(10) [OF d(1), of j] by simp
    then have "q \<noteq> new" using seen_head_stale tag by blast
    then show ?thesis by (simp add: Acq_Loaded nh)
  qed simp_all
  moreover have "view_wf m (pw_view s j)" for j by (rule view_wf_later [OF c(6) d(5)])
  moreover have "covers m V y" if "y \<in> H" for y using all own that by blast
  ultimately show ?thesis using ab c(4,5) d(6) co unfolding pw_ok_def by auto
qed

section \<open>Every reachable state\<close>

lemma pw_abs_load:
  "pw_abs C (s\<lparr>pw_view := V, pw_pc := P, pw_held := H\<rparr>) = (pw_abs C s)\<lparr>ps_pc := P, ps_held := H\<rparr>"
  by (simp add: pw_abs_def)

lemma link_word [simp]: "ucast (ucast (v :: u16) :: u64) = v"
  by (rule bit_word_eqI) (auto simp: bit_simps)

lemma pw_abs_link:
  assumes "x < unat C" "m = (pw_mem s)(Next x := pw_mem s (Next x) @ [z])" "msg_val z = ucast v"
  shows "pw_abs C (s\<lparr>pw_mem := m, pw_view := V, pw_pc := P\<rparr>) = (pw_abs C s)\<lparr>ps_next := (ps_next (pw_abs C s))[x := v], ps_pc := P\<rparr>"
  using assms by (auto simp: pw_abs_def newest_def nth_list_update intro!: nth_equalityI)

lemma pw_load_inv:
  assumes ok: "pw_ok C xs s" and V: "view_wf (pw_mem s) V" "pw_view s i \<le> V"
    and rel: "releasing pc = releasing (pw_pc s i)"
    and pc: "pc_ok (ps_next (pw_abs C s)) (newest (pw_mem s) Head) (pw_cas s) pc" and pv: "pc_view (pw_mem s) V pc"
  shows "pw_inv C (s\<lparr>pw_view := (pw_view s)(i := V), pw_pc := (pw_pc s)(i := pc)\<rparr>)"
proof -
  have "pool_sys_ok C xs (pw_abs C (s\<lparr>pw_view := (pw_view s)(i := V), pw_pc := (pw_pc s)(i := pc), pw_held := (pw_held s)(i := pw_held s i)\<rparr>))"
    using pc_step_ok [OF pw_okD(1) [OF ok], of pc i] rel pc unfolding pw_abs_load by (simp add: pw_abs_def)
  from pw_load_ok [OF ok V this _ pv] rel show ?thesis by (auto simp: pw_inv_def)
qed

lemma pw_acq_next_inv:
  assumes ok: "pw_ok C xs s" and pc: "pw_pc s i = Acq_Loaded old" "index_of old \<noteq> kNullIndex"
    and ld: "atomic_load mo (Next (unat (index_of old))) k (pw_mem s) (pw_view s i) = Some (v, V)"
  shows "pw_inv C (s\<lparr>pw_view := (pw_view s)(i := V), pw_pc := (pw_pc s)(i := Acq_Read old (ucast v))\<rparr>)"
proof (rule pw_load_inv [OF ok atomic_load_wf [OF pw_okD(2,5) [OF ok] ld] atomic_load_Some(4) [OF ld]])
  note d = pw_okD [OF ok] and a = atomic_load_Some [OF ld]
  let ?m = "pw_mem s" and ?l = "Next (unat (index_of old))"
  have "ucast v = ps_next (pw_abs C s) ! unat (index_of old)" if "old = newest ?m Head"
  proof -
    have "covers ?m (pw_view s i) (unat (index_of old))" using d(7) [of i] pc that by simp
    then have "k = length (?m ?l) - 1" using a(1,2) by (auto simp: covers_def)
    then have "v = newest ?m ?l" using a(3) memory_wf_msg(1) [OF d(2), of ?l] by (simp add: newest_def last_conv_nth)
    then show ?thesis using head_in_chain(2) [OF ok] that pc(2) by simp
  qed
  then show "pc_ok (ps_next (pw_abs C s)) (newest ?m Head) (pw_cas s) (Acq_Read old (ucast v))"
    using pool_sys_okD(10) [OF d(1), of i] pc by simp
qed (use pc in simp_all)

text \<open>\<open>acquire\<close> has loaded the head, first or after a failed exchange.\<close>

lemma pw_acq_load_inv:
  assumes ok: "pw_ok C xs s" and pc: "releasing (pw_pc s i) = {}"
    and ld: "atomic_load memory_order_acquire Head k (pw_mem s) (pw_view s i) = Some (old, V)"
  shows "pw_inv C (s\<lparr>pw_view := (pw_view s)(i := V), pw_pc := (pw_pc s)(i := Acq_Loaded old)\<rparr>)"
  using load_head [OF ok ld] pc
  by (intro pw_load_inv [OF ok atomic_load_wf [OF pw_okD(2,5) [OF ok] ld] atomic_load_Some(4) [OF ld]]) simp_all

lemma pw_acq_cas_inv:
  assumes ok: "pw_ok C xs s" and pc: "pw_pc s i = Acq_Read old nx" and bound: "Suc (pw_cas s) < 2 ^ 48"
    and cas: "atomic_compare_exchange_weak memory_order_acq_rel mo Head k sp old (pack nx (tag_of old + 1))
      (pw_mem s) (pw_view s i) = Some (True, e, m, V)"
  shows "pw_inv C (s\<lparr>pw_mem := m, pw_view := (pw_view s)(i := V), pw_pc := (pw_pc s)(i := P_Idle),
      pw_held := (pw_held s)(i := insert (unat (index_of old)) (pw_held s i)), pw_cas := Suc (pw_cas s)\<rparr>)" (is "pw_inv C ?t")
proof -
  note d = pw_okD [OF ok] and c = compare_exchange_True [OF pw_okD(2,5) [OF ok] cas]
  obtain z where z: "m = (pw_mem s)(Head := pw_mem s Head @ [z])" "msg_val z = pack nx (tag_of old + 1)" using c(3) by blast
  have nn: "index_of old \<noteq> kNullIndex" using pool_sys_okD(10) [OF d(1), of i] pc by simp
  have tl: "set (tl xs) \<subseteq> set xs" by (cases xs) auto
  have "ps_pc (pw_abs C s) i = Acq_Read (ps_head (pw_abs C s)) nx" using pc c(1) by simp
  then have "pool_sys_ok C (tl xs) (pw_abs C ?t)"
    using acq_cas_ok [OF d(1)] bound z c(1) by (fastforce simp: pw_abs_def newest_def)
  then have "pw_ok C (tl xs) ?t"
    using head_in_chain(1) [OF ok] nn c(1) tl by (intro pw_cas_ok [OF ok cas]) auto
  then show ?thesis by (auto simp: pw_inv_def)
qed

lemma pw_rel_load_inv:
  assumes ok: "pw_ok C xs s" and pc: "pw_pc s i = P_Idle" "x \<in> pw_held s i"
    and ld: "atomic_load memory_order_relaxed Head k (pw_mem s) (pw_view s i) = Some (old, V)"
  shows "pw_inv C (s\<lparr>pw_view := (pw_view s)(i := V), pw_pc := (pw_pc s)(i := Rel_Loaded (of_nat x) old),
      pw_held := (pw_held s)(i := pw_held s i - {x})\<rparr>)" (is "pw_inv C ?t")
proof -
  note d = pw_okD [OF ok]
  have "pool_sys_ok C xs (pw_abs C ?t)"
    using rel_load_ok [OF d(1), of i x old] load_head(1) [OF ok ld] pc unfolding pw_abs_load by (simp add: pw_abs_def)
  moreover have "unat (of_nat x :: u16) = x"
    using pool_sys_okD(7) [OF d(1), of i] pc(2) by (intro slot_u16 [OF pool_sys_okD(1) [OF d(1)]]) auto
  ultimately have "pw_ok C xs ?t"
    using pc atomic_load_wf [OF d(2,5) ld] atomic_load_Some(4) [OF ld] by (intro pw_load_ok [OF ok]) auto
  then show ?thesis by (auto simp: pw_inv_def)
qed

lemma pw_rel_link_inv:
  assumes ok: "pw_ok C xs s" and pc: "pw_pc s i = Rel_Loaded idx old"
    and st: "atomic_store mo (Next (unat idx)) (ucast (index_of old)) (pw_mem s) (pw_view s i) = (m, V)"
  shows "pw_inv C (s\<lparr>pw_mem := m, pw_view := (pw_view s)(i := V), pw_pc := (pw_pc s)(i := Rel_Linked idx old)\<rparr>)" (is "pw_inv C ?t")
proof -
  note d = pw_okD [OF ok]
  obtain z where z: "m = (pw_mem s)(Next (unat idx) := pw_mem s (Next (unat idx)) @ [z])" "msg_val z = ucast (index_of old)"
    using st by (auto simp: atomic_store_def Let_def)
  have x: "unat idx < unat C" using pool_sys_okD(7) [OF d(1), of i] pc by auto
  have "pool_sys_ok C xs (pw_abs C ?t)"
    using rel_link_ok [OF d(1), of i idx old] pc unfolding pw_abs_link [OF x z] by simp
  then have "pw_ok C xs ?t" using pc by (intro pw_store_ok [OF ok _ _ st]) auto
  then show ?thesis by (auto simp: pw_inv_def)
qed

lemma pw_rel_cas_inv:
  assumes ok: "pw_ok C xs s" and pc: "pw_pc s i = Rel_Linked idx old" and bound: "Suc (pw_cas s) < 2 ^ 48"
    and cas: "atomic_compare_exchange_weak memory_order_acq_rel mo Head k sp old (pack idx (tag_of old + 1))
      (pw_mem s) (pw_view s i) = Some (True, e, m, V)"
  shows "pw_inv C (s\<lparr>pw_mem := m, pw_view := (pw_view s)(i := V), pw_pc := (pw_pc s)(i := P_Idle), pw_cas := Suc (pw_cas s)\<rparr>)"
proof -
  note d = pw_okD [OF ok] and c = compare_exchange_True [OF pw_okD(2,5) [OF ok] cas]
  let ?t = "s\<lparr>pw_mem := m, pw_view := (pw_view s)(i := V), pw_pc := (pw_pc s)(i := P_Idle),
    pw_held := (pw_held s)(i := pw_held s i), pw_cas := Suc (pw_cas s)\<rparr>"
  obtain z where z: "m = (pw_mem s)(Head := pw_mem s Head @ [z])" "msg_val z = pack idx (tag_of old + 1)" using c(3) by blast
  have "ps_pc (pw_abs C s) i = Rel_Linked idx (ps_head (pw_abs C s))" using pc c(1) by simp
  then have "pool_sys_ok C (unat idx # xs) (pw_abs C ?t)"
    using rel_cas_ok [OF d(1)] bound z c(1) by (fastforce simp: pw_abs_def newest_def)
  then have "pw_ok C (unat idx # xs) ?t" using pc by (intro pw_cas_ok [OF ok cas]) auto
  then show ?thesis by (auto simp: pw_inv_def)
qed

lemma pw_rel_retry_inv:
  assumes ok: "pw_ok C xs s" and pc: "pw_pc s i = Rel_Linked idx q"
    and ld: "atomic_load memory_order_relaxed Head k (pw_mem s) (pw_view s i) = Some (old, V)"
  shows "pw_inv C (s\<lparr>pw_view := (pw_view s)(i := V), pw_pc := (pw_pc s)(i := Rel_Loaded idx old)\<rparr>)"
  using load_head(1) [OF ok ld] pc
  by (intro pw_load_inv [OF ok atomic_load_wf [OF pw_okD(2,5) [OF ok] ld] atomic_load_Some(4) [OF ld]]) simp_all

text \<open>The holder uses its object.\<close>

lemma pw_use_read_inv:
  assumes ok: "pw_ok C xs s" and ld: "atomic_load mo (Object x) k (pw_mem s) (pw_view s i) = Some (v, V)"
  shows "pw_inv C (s\<lparr>pw_view := (pw_view s)(i := V)\<rparr>)"
proof -
  note d = pw_okD [OF ok] and w = atomic_load_wf [OF pw_okD(2,5) [OF ok] ld] and le = atomic_load_Some(4) [OF ld]
  have "pc_view (pw_mem s) V (pw_pc s i)" using d(7) [of i] covers_mono [OF _ le w] by (cases "pw_pc s i") auto
  then have "pw_inv C (s\<lparr>pw_view := (pw_view s)(i := V), pw_pc := (pw_pc s)(i := pw_pc s i)\<rparr>)"
    using pool_sys_okD(10) [OF d(1), of i] by (intro pw_load_inv [OF ok w le]) auto
  then show ?thesis by simp
qed

lemma pw_use_write_inv:
  assumes ok: "pw_ok C xs s" and x: "x \<in> pw_held s i" and st: "atomic_store mo (Object x) v (pw_mem s) (pw_view s i) = (m, V)"
  shows "pw_inv C (s\<lparr>pw_mem := m, pw_view := (pw_view s)(i := V)\<rparr>)"
proof -
  let ?t = "s\<lparr>pw_mem := m, pw_view := (pw_view s)(i := V), pw_pc := (pw_pc s)(i := pw_pc s i)\<rparr>"
  have "pw_abs C ?t = pw_abs C s" using st by (auto simp: pw_abs_def atomic_store_def Let_def newest_def)
  then have "pw_ok C xs ?t" using x pw_okD(1) [OF ok] by (intro pw_store_ok [OF ok _ _ st]) auto
  then show ?thesis by (auto simp: pw_inv_def)
qed

lemma pw_step_inv:
  assumes "pw_step s t" "pw_inv C s" "pw_cas t < 2 ^ 48"
  shows "pw_inv C t"
proof -
  from assms(2) obtain xs where ok: "pw_ok C xs s" by (auto simp: pw_inv_def)
  from assms(1) show ?thesis
  proof cases
    case (pw_acq_load i k old V)
    then show ?thesis using pw_acq_load_inv [OF ok _ pw_acq_load(3)] by simp
  next
    case (pw_acq_null i old)
    then show ?thesis using pw_load_inv [OF ok pw_okD(5) [OF ok] order_refl, of P_Idle i] by simp
  next
    case (pw_acq_next i old k v V)
    then show ?thesis using pw_acq_next_inv [OF ok] by blast
  next
    case (pw_acq_cas i old nx k sp e m V)
    then show ?thesis using pw_acq_cas_inv [OF ok] assms(3) by simp
  next
    case (pw_acq_retry i old nx k sp e m V)
    note f = compare_exchange_False [OF pw_acq_retry(3)]
    then show ?thesis using pw_acq_load_inv [OF ok _ f(2)] pw_acq_retry(1,2) by simp
  next
    case (pw_rel_load i x k old V)
    then show ?thesis using pw_rel_load_inv [OF ok] by blast
  next
    case (pw_rel_link i idx old m V)
    then show ?thesis using pw_rel_link_inv [OF ok] by blast
  next
    case (pw_rel_cas i idx old k sp e m V)
    then show ?thesis using pw_rel_cas_inv [OF ok] assms(3) by simp
  next
    case (pw_rel_retry i idx old k sp e m V)
    note f = compare_exchange_False [OF pw_rel_retry(3)]
    then show ?thesis using pw_rel_retry_inv [OF ok _ f(2)] pw_rel_retry(1,2) by simp
  next
    case (pw_use_read x i k v V)
    then show ?thesis using pw_use_read_inv [OF ok] by blast
  next
    case (pw_use_write x i v m V)
    then show ?thesis using pw_use_write_inv [OF ok] by blast
  qed
qed

lemma pw_init_inv:
  assumes "pw_init C s"
  shows "pw_inv C s"
proof -
  have cap: "pool_capacity C" and mem: "pw_mem s = pw_mem_init C" "\<And>i. pw_view s i = empty_view" "pw_pc s = (\<lambda>_. P_Idle)"
    "pw_held s = (\<lambda>_. {})" "pw_cas s = 0" using assms by (simp_all add: pw_init_def)
  have "pool_sys_init C (pw_abs C s)"
    using cap pool_capacity_bounds(3) [OF cap] by (simp add: pool_sys_init_def mem pw_abs_def ObjectPool_ctor_def newest_def pw_mem_init_def)
  then obtain xs where ok: "pool_sys_ok C xs (pw_abs C s)" using pool_init_inv by (auto simp: pool_sys_inv_def)
  have wf: "memory_wf (pw_mem_init C)" by (simp add: memory_wf_def pw_mem_init_def view_wf_def empty_view_def)
  have cov: "covers (pw_mem_init C) empty_view x" for x by (simp add: covers_def pw_mem_init_def empty_view_def)
  have "heads_ok (unat C) (pw_mem_init C) 0"
    using pool_capacity_bounds(1) [OF cap] by (simp add: heads_ok_def pw_mem_init_def unat_tag_of_pack)
  then have "pw_ok C xs s"
    using ok wf cov view_wf_empty [OF wf] by (simp add: pw_ok_def mem) (simp add: pw_mem_init_def)
  then show ?thesis by (auto simp: pw_inv_def)
qed

interpretation pw_run: bounded_invariant_system "pw_init C" pw_step "pw_inv C" pw_cas "2 ^ 48"
  for C
proof (unfold_locales, goal_cases)
  case (1 s) then show ?case by (rule pw_init_inv)
next
  case (2 s t) then show ?case by cases simp_all
next
  case (3 s t) then show ?case by (rule pw_step_inv)
qed

section \<open>An undisturbed acquire\<close>

text \<open>A thread that reads the newest messages takes the first slot of the free list.\<close>

lemma pw_acquire_solo:
  assumes r: "reachable (pw_init C) pw_step s" and bound: "pw_cas s < 2 ^ 48" and idle: "pw_pc s i = P_Idle"
    and free: "index_of (newest (pw_mem s) Head) \<noteq> kNullIndex"
  shows "\<exists>t. reachable (pw_init C) pw_step t \<and> pw_cas t = Suc (pw_cas s) \<and> pw_pc t = pw_pc s \<and>
    pw_held t = (pw_held s)(i := insert (unat (index_of (newest (pw_mem s) Head))) (pw_held s i)) \<and>
    index_of (newest (pw_mem t) Head) = ucast (newest (pw_mem s) (Next (unat (index_of (newest (pw_mem s) Head)))))"
proof -
  let ?old = "newest (pw_mem s) Head" and ?l = "Next (unat (index_of (newest (pw_mem s) Head)))"
  have wf: "memory_wf (pw_mem s)" "view_wf (pw_mem s) (pw_view s i)"
    using pw_run.reachable_below_inv [OF r bound] pw_okD(2,5) by (auto simp: pw_inv_def)
  obtain V where ld: "atomic_load memory_order_acquire Head (length (pw_mem s Head) - 1) (pw_mem s) (pw_view s i) = Some (?old, V)"
    using atomic_load_last [OF wf] by (auto simp: newest_def)
  let ?s1 = "s\<lparr>pw_view := (pw_view s)(i := V), pw_pc := (pw_pc s)(i := Acq_Loaded ?old)\<rparr>"
  have "pw_step s ?s1" by (rule pw_acq_load [OF idle ld])
  with r have r1: "reachable (pw_init C) pw_step ?s1" by (rule reach_step)
  have w1: "view_wf (pw_mem ?s1) (pw_view ?s1 i)" using atomic_load_wf [OF wf ld] by simp
  obtain V2 where ld2: "atomic_load memory_order_relaxed ?l (length (pw_mem ?s1 ?l) - 1) (pw_mem ?s1) (pw_view ?s1 i) =
      Some (newest (pw_mem s) ?l, V2)"
    using atomic_load_last [OF _ w1] wf(1) by (auto simp: newest_def)
  let ?nx = "ucast (newest (pw_mem s) ?l) :: u16"
  let ?s2 = "?s1\<lparr>pw_view := (pw_view ?s1)(i := V2), pw_pc := (pw_pc ?s1)(i := Acq_Read ?old ?nx)\<rparr>"
  have "pw_step ?s1 ?s2" by (rule pw_acq_next [OF _ free ld2]) simp
  with r1 have r2: "reachable (pw_init C) pw_step ?s2" by (rule reach_step)
  have w2: "view_wf (pw_mem ?s2) (pw_view ?s2 i)" using atomic_load_wf [OF _ w1 ld2] wf(1) by simp
  have w3: "memory_wf (pw_mem ?s2)" "newest (pw_mem ?s2) Head = ?old" using wf(1) by simp_all
  obtain m V3 where cas: "atomic_compare_exchange_weak memory_order_acq_rel memory_order_acquire Head (length (pw_mem ?s2 Head) - 1) False
      ?old (pack ?nx (tag_of ?old + 1)) (pw_mem ?s2) (pw_view ?s2 i) = Some (True, ?old, m, V3)"
    by (rule compare_exchange_succeeds [OF w3(1) w2, of memory_order_acq_rel memory_order_acquire Head "pack ?nx (tag_of ?old + 1)",
          unfolded w3(2)])
  let ?t = "?s2\<lparr>pw_mem := m, pw_view := (pw_view ?s2)(i := V3), pw_pc := (pw_pc ?s2)(i := P_Idle),
      pw_held := (pw_held ?s2)(i := insert (unat (index_of ?old)) (pw_held ?s2 i)), pw_cas := Suc (pw_cas ?s2)\<rparr>"
  have "pw_step ?s2 ?t" by (rule pw_acq_cas [OF _ cas]) simp
  with r2 have r3: "reachable (pw_init C) pw_step ?t" by (rule reach_step)
  obtain z where "m = (pw_mem s)(Head := pw_mem s Head @ [z])" "msg_val z = pack ?nx (tag_of ?old + 1)"
    using compare_exchange_views [OF cas] by auto
  then have "index_of (newest m Head) = ?nx" by simp
  moreover have "(pw_pc s)(i := P_Idle) = pw_pc s" using idle by auto
  ultimately show ?thesis using r3 by (intro exI [of _ ?t]) simp
qed

definition pw_start :: "u64 \<Rightarrow> pool_weak" where
  "pw_start C = \<lparr>pw_mem = pw_mem_init C, pw_view = (\<lambda>_. empty_view), pw_pc = (\<lambda>_. P_Idle), pw_held = (\<lambda>_. {}), pw_cas = 0\<rparr>"

section \<open>Properties\<close>

text \<open>
  C8. The orders of the pool are enough. With every load free to return an old message, as long as
  the head has been updated fewer than \<open>2 ^ 48\<close> times: no slot is in the hands of two threads; every
  slot is free, held or being released; the view of a holder is the newest message of its object,
  so that it sees everything earlier holders wrote and its own accesses race with none of theirs;
  and a thread that is about to write the link of the slot it releases has seen the newest one.
\<close>

theorem pool_weak_exclusive:
  assumes "reachable (pw_init C) pw_step s" "pw_cas s < 2 ^ 48"
  shows "(\<forall>i j. i \<noteq> j \<longrightarrow> pw_held s i \<inter> pw_held s j = {}) \<and>
    (\<exists>xs. chain (map (\<lambda>x. ucast (newest (pw_mem s) (Next x))) [0..<unat C]) (index_of (newest (pw_mem s) Head)) xs \<and> distinct xs \<and>
      set xs \<union> (\<Union>i. pw_held s i \<union> releasing (pw_pc s i)) = {..<unat C} \<and> (\<forall>i. set xs \<inter> pw_held s i = {})) \<and>
    (\<forall>i x. x \<in> pw_held s i \<longrightarrow> Suc (pw_view s i (Object x)) = length (pw_mem s (Object x))) \<and>
    (\<forall>i idx old. pw_pc s i = Rel_Loaded idx old \<longrightarrow> Suc (pw_view s i (Next (unat idx))) = length (pw_mem s (Next (unat idx))))"
proof -
  from pw_run.reachable_below_inv [OF assms] obtain xs where ok: "pw_ok C xs s" by (auto simp: pw_inv_def)
  note d = pw_okD [OF ok] and p = pool_sys_okD [OF pw_okD(1) [OF ok]]
  have "i \<noteq> j \<Longrightarrow> pw_held s i \<inter> pw_held s j = {}" for i j using p(8) [of i j] by auto
  moreover have "chain (map (\<lambda>x. ucast (newest (pw_mem s) (Next x))) [0..<unat C]) (index_of (newest (pw_mem s) Head)) xs"
    using p(3) by (simp add: pw_abs_def)
  moreover have "set xs \<subseteq> {..<unat C}" using chain_bound [OF p(3)] by auto
  then have "set xs \<union> (\<Union>i. pw_held s i \<union> releasing (pw_pc s i)) = {..<unat C}" using p(7,9) by fastforce
  moreover have "set xs \<inter> pw_held s i = {}" for i using p(7) [of i] by auto
  moreover have "Suc (pw_view s i (Object x)) = length (pw_mem s (Object x))" if "x \<in> pw_held s i" for i x
    using d(6) [of x i] that by (simp add: covers_def)
  moreover have "Suc (pw_view s i (Next (unat idx))) = length (pw_mem s (Next (unat idx)))" if "pw_pc s i = Rel_Loaded idx old" for i idx old
    using d(6) [of "unat idx" i] that by (simp add: covers_def)
  ultimately show ?thesis using p(4) by blast
qed

theorem pool_weak_exclusive_witness:
  "\<exists>s. reachable (pw_init 2) pw_step s \<and> pw_held s 0 = {0} \<and> Suc (pw_view s 0 (Object 0)) = length (pw_mem s (Object 0))"
proof -
  have "pw_init 2 (pw_start 2)" by (simp add: pw_init_def pw_start_def pool_capacity_def)
  then have r: "reachable (pw_init 2) pw_step (pw_start 2)" by (rule reach_init)
  have h: "index_of (newest (pw_mem (pw_start 2)) Head) = 0"
    by (simp add: pw_start_def pw_mem_init_def newest_def)
  have c: "pw_cas (pw_start 2) < 2 ^ 48" "pw_pc (pw_start 2) 0 = P_Idle" "(0 :: u16) \<noteq> kNullIndex"
    "pw_cas (pw_start 2) = 0" "pw_held (pw_start 2) = (\<lambda>_. {})" by (simp_all add: pw_start_def kNullIndex_def)
  obtain s where s: "reachable (pw_init 2) pw_step s" "pw_cas s = 1" "pw_held s 0 = {0}"
    using pw_acquire_solo [OF r c(1,2), unfolded h c(4,5), OF c(3)] by auto
  then have "Suc (pw_view s 0 (Object 0)) = length (pw_mem s (Object 0))"
    using pool_weak_exclusive [OF s(1)] by simp
  then show ?thesis using s by blast
qed

end
