(* ===== verification/Spmc_Ring.thy ===== *)
theory Spmc_Ring
  imports Lwipc_Prelude
begin

text \<open>
  The contract that the two single-producer, multiple-consumer rings of LwIPC (\<open>ShmRingBuffer\<close>
  and \<open>IntraRingBuffer\<close>) share: a ring represents the history of everything ever pushed, keeps
  the last \<open>cap\<close> items of it readable, and a consumer's cursor is a position in that history.
  The first argument of \<open>push\<close> is what the operation reads from its environment, the clock of
  the heartbeat.
\<close>

type_synonym Cursor = u64

text \<open>A consumer that polls until nothing is left, for at most \<open>n\<close> rounds.\<close>

fun drain :: "(Cursor \<Rightarrow> 'a \<Rightarrow> bool \<times> Cursor \<times> 'a) \<Rightarrow> nat \<Rightarrow> Cursor \<Rightarrow> 'a \<Rightarrow> 'a list \<times> Cursor" where
  "drain pop 0 c out = ([], c)"
| "drain pop (Suc n) c out =
     (case pop c out of
        (True, c', x) \<Rightarrow> (let (xs, c'') = drain pop n c' x in (x # xs, c''))
      | (False, c', x) \<Rightarrow> ([], c'))"

locale spmc_ring =
  fixes holds_history :: "'r \<Rightarrow> 'a list \<Rightarrow> bool"
    and cap :: nat
    and push :: "'e \<Rightarrow> 'a \<Rightarrow> 'r \<Rightarrow> u64 \<times> 'r"
    and make_cursor :: "'r \<Rightarrow> Cursor"
    and pop :: "Cursor \<Rightarrow> 'a \<Rightarrow> 'r \<Rightarrow> bool \<times> Cursor \<times> 'a"
  assumes history_bound: "holds_history r hs \<Longrightarrow> length hs < 2 ^ 63"
    and cap_pos: "holds_history r hs \<Longrightarrow> 0 < cap"
    and push_history: "holds_history r hs \<Longrightarrow> Suc (length hs) < 2 ^ 63 \<Longrightarrow>
      fst (push e x r) = of_nat (length hs) \<and> holds_history (snd (push e x r)) (hs @ [x])"
    and cursor_history: "holds_history r hs \<Longrightarrow> make_cursor r = of_nat (length hs)"
    and pop_at_head: "holds_history r hs \<Longrightarrow> length hs \<le> unat c \<Longrightarrow> pop c out r = (False, c, out)"
    and pop_behind: "holds_history r hs \<Longrightarrow> unat c < length hs \<Longrightarrow>
      pop c out r = (let p = max (unat c) (length hs - cap) in (True, of_nat (Suc p), hs ! p))"
begin

definition push_all :: "('e \<times> 'a) list \<Rightarrow> 'r \<Rightarrow> 'r" where
  "push_all xs r = fold (\<lambda>(e, x) r. snd (push e x r)) xs r"

lemma push_all_history:
  "holds_history r hs \<Longrightarrow> length hs + length xs < 2 ^ 63 \<Longrightarrow> holds_history (push_all xs r) (hs @ map snd xs)"
proof (induction xs arbitrary: r hs)
  case Nil
  then show ?case by (simp add: push_all_def)
next
  case (Cons x xs)
  have "holds_history (snd (push (fst x) (snd x) r)) (hs @ [snd x])" using Cons.prems push_history by simp
  from Cons.IH [OF this] Cons.prems show ?case by (simp add: push_all_def case_prod_beta)
qed

lemma history_cursor: "holds_history r hs \<Longrightarrow> unat (make_cursor r) = length hs"
  using history_bound [of r hs] by (simp add: cursor_history unat_of_nat_u64)

text \<open>Once a cursor is inside the window, a drain returns exactly the rest of the history.\<close>

lemma drain_window:
  assumes "holds_history r hs" "unat c \<le> length hs" "length hs \<le> unat c + cap" "length hs - unat c \<le> n"
  shows "drain (\<lambda>c out. pop c out r) n c out = (drop (unat c) hs, of_nat (length hs))"
  using assms
proof (induction n arbitrary: c out)
  case 0
  then have "length hs = unat c" by simp
  then show ?case by simp
next
  case (Suc n)
  show ?case
  proof (cases "unat c = length hs")
    case True
    have "pop c out r = (False, c, out)" using pop_at_head [OF Suc.prems(1)] True by simp
    moreover have "of_nat (length hs) = c" by (simp flip: True)
    ultimately show ?thesis using True by simp
  next
    case False
    with Suc.prems have lt: "unat c < length hs" by simp
    let ?c = "of_nat (Suc (unat c)) :: u64"
    have c': "unat ?c = Suc (unat c)"
      using lt history_bound [OF Suc.prems(1)] by (intro unat_of_nat_u64) simp
    have "max (unat c) (length hs - cap) = unat c" using Suc.prems(3) by simp
    then have "pop c out r = (True, ?c, hs ! unat c)"
      using pop_behind [OF Suc.prems(1) lt] by (simp only: Let_def)
    moreover have "drain (\<lambda>c out. pop c out r) n ?c (hs ! unat c) = (drop (unat ?c) hs, of_nat (length hs))"
      using Suc.prems lt c' by (intro Suc.IH) simp_all
    ultimately show ?thesis using c' lt by (simp add: Cons_nth_drop_Suc)
  qed
qed

lemma drain_history:
  assumes "holds_history r hs" "unat c \<le> length hs" "length hs - unat c \<le> n" "cap \<le> n"
  shows "drain (\<lambda>c out. pop c out r) n c out =
    (drop (max (unat c) (length hs - cap)) hs, of_nat (length hs))"
proof (cases "length hs \<le> unat c + cap")
  case True
  then have "max (unat c) (length hs - cap) = unat c" by simp
  then show ?thesis using drain_window [OF assms(1,2) True assms(3)] by simp
next
  case False
  then have lt: "unat c < length hs" using cap_pos [OF assms(1)] by simp
  obtain m where n: "n = Suc m" using assms(4) cap_pos [OF assms(1)] by (cases n) auto
  let ?p = "length hs - cap" and ?c = "of_nat (Suc (length hs - cap)) :: u64"
  have pm: "max (unat c) ?p = ?p" using False by simp
  have c': "unat ?c = Suc ?p"
    using history_bound [OF assms(1)] by (intro unat_of_nat_u64) simp
  have "pop c out r = (True, ?c, hs ! ?p)"
    using pop_behind [OF assms(1) lt] pm by (simp add: Let_def)
  moreover have "drain (\<lambda>c out. pop c out r) m ?c (hs ! ?p) = (drop (Suc ?p) hs, of_nat (length hs))"
    using drain_window [OF assms(1), of ?c m] c' assms(4) n cap_pos [OF assms(1)] False by simp
  moreover have "?p < length hs" using cap_pos [OF assms(1)] lt by simp
  ultimately show ?thesis using n pm by (simp add: Cons_nth_drop_Suc)
qed

text \<open>
  Latest-only delivery: a consumer that takes its cursor now and drains later receives, in order,
  everything pushed in between, or the last \<open>cap\<close> items of it.
\<close>

lemma drain_after_pushes:
  assumes "holds_history r hs" "length hs + length xs < 2 ^ 63" "length xs \<le> n" "cap \<le> n"
  shows "fst (drain (\<lambda>c out. pop c out (push_all xs r)) n (make_cursor r) out) =
    drop (length xs - cap) (map snd xs)"
proof -
  have h: "holds_history (push_all xs r) (hs @ map snd xs)" by (rule push_all_history [OF assms(1,2)])
  have "max (length hs) (length hs + length xs - cap) = length hs + (length xs - cap)" by auto
  then show ?thesis
    using drain_history [OF h, of "make_cursor r" n] history_cursor [OF assms(1)] assms(3,4)
    by simp
qed

end

end
