(* ===== verification/Shm_Ring_Buffer.thy ===== *)
theory Shm_Ring_Buffer
  imports Spmc_Ring
begin

text \<open>
  \<open>ShmRingBuffer\<close> of \<open>shm_ring_buffer.hpp\<close>: the shared segment as a record, \<open>push\<close> as its atomic
  actions in program order, \<open>pop\<close> as a function of its four reads, the heartbeat, the layout of
  the segment, and the life of a handle (\<open>open_shm\<close>, the destructor, \<open>shm_exists\<close>) over an
  arbitrary operating system. The segment implements the contract of \<open>Spmc_Ring\<close>.
\<close>

section \<open>The segment and its operations\<close>

record 'a shm_slot =
  slot_seq :: u64
  slot_data :: 'a

record 'a shm_segment =
  write_pos :: u64
  last_heartbeat_ns :: u64
  shm_slots :: "'a shm_slot list"

definition slot_at :: "u64 \<Rightarrow> u64 \<Rightarrow> 'a shm_segment \<Rightarrow> 'a shm_slot" where
  "slot_at C pos seg = shm_slots seg ! slot_index C pos"

text \<open>The atomic actions of \<open>push\<close>, in program order.\<close>

definition push_claim :: "'a shm_segment \<Rightarrow> u64 \<times> 'a shm_segment" where
  "push_claim seg = (write_pos seg, seg\<lparr>write_pos := write_pos seg + 1\<rparr>)"

definition store_sequence :: "u64 \<Rightarrow> u64 \<Rightarrow> u64 \<Rightarrow> 'a shm_segment \<Rightarrow> 'a shm_segment" where
  "store_sequence C pos v seg =
     seg\<lparr>shm_slots := (shm_slots seg)[slot_index C pos := (slot_at C pos seg)\<lparr>slot_seq := v\<rparr>]\<rparr>"

definition copy_payload :: "u64 \<Rightarrow> u64 \<Rightarrow> 'a \<Rightarrow> 'a shm_segment \<Rightarrow> 'a shm_segment" where
  "copy_payload C pos item seg =
     seg\<lparr>shm_slots := (shm_slots seg)[slot_index C pos := (slot_at C pos seg)\<lparr>slot_data := item\<rparr>]\<rparr>"

definition beat :: "u64 \<Rightarrow> 'a shm_segment \<Rightarrow> 'a shm_segment" where
  "beat now seg = seg\<lparr>last_heartbeat_ns := now\<rparr>"

definition shm_push :: "u64 \<Rightarrow> u64 \<Rightarrow> 'a \<Rightarrow> 'a shm_segment \<Rightarrow> u64 \<times> 'a shm_segment" where
  "shm_push C now item seg =
     (let (pos, seg1) = push_claim seg;
          seg2 = store_sequence C pos (pos * 2) seg1;
          seg3 = copy_payload C pos item seg2;
          seg4 = store_sequence C pos (pos * 2 + 1) seg3
      in (pos, beat now seg4))"

definition shm_make_cursor :: "'a shm_segment \<Rightarrow> Cursor" where
  "shm_make_cursor seg = write_pos seg"

definition make_cursor_from_start :: Cursor where
  "make_cursor_from_start = 0"

text \<open>
  \<open>pop\<close> as a function of what its four reads of shared memory return: the write position, the
  slot's sequence, its payload, and the sequence again. Other processes may write between the
  reads, so the four values need not come from one state of the segment.
\<close>

definition fast_forward :: "u64 \<Rightarrow> u64 \<Rightarrow> Cursor \<Rightarrow> Cursor" where
  "fast_forward C wp pos = (if wp - pos > C then wp - C else pos)"

definition pop_reads ::
  "u64 \<Rightarrow> u64 \<Rightarrow> (nat \<Rightarrow> u64) \<Rightarrow> (nat \<Rightarrow> 'a) \<Rightarrow> (nat \<Rightarrow> u64) \<Rightarrow> Cursor \<Rightarrow> 'a \<Rightarrow> bool \<times> Cursor \<times> 'a" where
  "pop_reads C wp seq1 data seq2 pos out =
     (if pos \<ge> wp then (False, pos, out)
      else let pos' = fast_forward C wp pos;
               i = slot_index C pos';
               expected_seq = pos' * 2 + 1
      in if seq1 i \<noteq> expected_seq then (False, pos', out)
         else if seq2 i \<noteq> expected_seq then (False, pos', data i)
         else (True, pos' + 1, data i))"

definition shm_pop :: "u64 \<Rightarrow> Cursor \<Rightarrow> 'a \<Rightarrow> 'a shm_segment \<Rightarrow> bool \<times> Cursor \<times> 'a" where
  "shm_pop C pos out seg =
     pop_reads C (write_pos seg) (\<lambda>i. slot_seq (shm_slots seg ! i)) (\<lambda>i. slot_data (shm_slots seg ! i))
       (\<lambda>i. slot_seq (shm_slots seg ! i)) pos out"

definition producer_alive :: "u64 \<Rightarrow> u64 \<Rightarrow> 'a shm_segment \<Rightarrow> bool" where
  "producer_alive now timeout_ns seg =
     (let hb = last_heartbeat_ns seg
      in if hb = 0 then False else now \<ge> hb \<and> now - hb \<le> timeout_ns)"

definition shm_init :: "u64 \<Rightarrow> 'a \<Rightarrow> 'a shm_segment" where
  "shm_init C zero = \<lparr>write_pos = 0, last_heartbeat_ns = 0,
     shm_slots = replicate (unat C) \<lparr>slot_seq = 0, slot_data = zero\<rparr>\<rparr>"

section \<open>Layout of the segment\<close>

definition round_up :: "nat \<Rightarrow> nat \<Rightarrow> nat" where
  "round_up a n = (n + (a - 1)) div a * a"

definition sizeof_ControlBlock :: nat where
  "sizeof_ControlBlock = round_up 64 (8 + 8 + 48)"

text \<open>\<open>sz\<close> and \<open>al\<close> are \<open>sizeof(T)\<close> and \<open>alignof(T)\<close>.\<close>

definition sizeof_Slot :: "nat \<Rightarrow> nat \<Rightarrow> nat" where
  "sizeof_Slot al sz =
     (let kPayload = 8 + sz;
          kPad = (if kPayload < 64 then 64 - kPayload else 1)
      in round_up (max 64 al) (round_up al 8 + sz + kPad))"

definition total_size :: "u64 \<Rightarrow> nat \<Rightarrow> nat \<Rightarrow> nat" where
  "total_size C al sz = sizeof_ControlBlock + sizeof_Slot al sz * unat C"

definition slot_offset :: "nat \<Rightarrow> nat \<Rightarrow> nat \<Rightarrow> nat" where
  "slot_offset al sz i = sizeof_ControlBlock + sizeof_Slot al sz * i"

section \<open>The life of a handle\<close>

text \<open>
  The calls to the operating system. An environment answers each call, and may look at all calls
  made before; a negative answer to \<open>shm_open\<close>, a non-zero one to \<open>ftruncate\<close> and \<open>MAP_FAILED\<close>
  (\<open>-1\<close>) from \<open>mmap\<close> are failures.
\<close>

datatype syscall =
  Shm_unlink string
| Shm_open string bool bool   \<comment> \<open>name, \<open>O_CREAT\<close>, \<open>O_RDWR\<close>\<close>
| Ftruncate int nat
| Mmap int nat
| Munmap int nat
| Close int

type_synonym os = "syscall list \<Rightarrow> syscall \<Rightarrow> int"
type_synonym calls = "syscall list"

record shm_handle =
  shm_name :: string
  is_owner :: bool
  fd :: int
  ctrl :: int   \<comment> \<open>address of the mapping, \<open>0\<close> for \<open>nullptr\<close>\<close>

definition shm_exists :: "os \<Rightarrow> string \<Rightarrow> calls \<Rightarrow> bool \<times> calls" where
  "shm_exists os name tr =
     (let c = Shm_open name False False; d = os tr c; tr1 = tr @ [c]
      in if d < 0 then (False, tr1) else (True, tr1 @ [Close d]))"

datatype shm_error = Shm_open_create_failed string | Ftruncate_failed string
  | Shm_open_attach_failed string | Mmap_failed string

definition map_shm :: "os \<Rightarrow> nat \<Rightarrow> string \<Rightarrow> bool \<Rightarrow> int \<Rightarrow> calls \<Rightarrow> (shm_error + shm_handle) \<times> calls" where
  "map_shm os bytes name create d tr =
     (let c = Mmap d bytes; mem = os tr c; tr' = tr @ [c]
      in if mem = -1 then (Inl (Mmap_failed name), tr')
         else (Inr \<lparr>shm_name = name, is_owner = create, fd = d, ctrl = mem\<rparr>, tr'))"

definition open_shm :: "os \<Rightarrow> nat \<Rightarrow> string \<Rightarrow> bool \<Rightarrow> calls \<Rightarrow> (shm_error + shm_handle) \<times> calls" where
  "open_shm os bytes name create tr =
     (if create then
        let tr1 = tr @ [Shm_unlink name];
            c = Shm_open name True True; d = os tr1 c; tr2 = tr1 @ [c]
        in if d < 0 then (Inl (Shm_open_create_failed name), tr2)
           else let c' = Ftruncate d bytes; tr3 = tr2 @ [c']
                in if os tr2 c' \<noteq> 0 then (Inl (Ftruncate_failed name), tr3)
                   else map_shm os bytes name create d tr3
      else
        let c = Shm_open name False True; d = os tr c; tr1 = tr @ [c]
        in if d < 0 then (Inl (Shm_open_attach_failed name), tr1)
           else map_shm os bytes name create d tr1)"

text \<open>What the constructor leaves in memory: the creator initialises the segment, an attacher keeps it.\<close>

definition open_memory :: "u64 \<Rightarrow> 'a \<Rightarrow> bool \<Rightarrow> 'a shm_segment \<Rightarrow> 'a shm_segment" where
  "open_memory C zero create old = (if create then shm_init C zero else old)"

definition ShmRingBuffer_dtor :: "nat \<Rightarrow> shm_handle \<Rightarrow> calls \<Rightarrow> calls" where
  "ShmRingBuffer_dtor bytes h tr =
     (let tr1 = (if ctrl h \<noteq> 0 then tr @ [Munmap (ctrl h) bytes] else tr);
          tr2 = (if fd h \<ge> 0 then tr1 @ [Close (fd h)] else tr1)
      in if is_owner h then tr2 @ [Shm_unlink (shm_name h)] else tr2)"

section \<open>What a segment represents\<close>

text \<open>
  The segment holds the history \<open>hs\<close>: everything ever pushed, of which the last \<open>C\<close> items are in
  their slots under an odd sequence number.
\<close>

definition shm_history :: "u64 \<Rightarrow> 'a shm_segment \<Rightarrow> 'a list \<Rightarrow> bool" where
  "shm_history C seg hs \<longleftrightarrow>
     valid_capacity C \<and> length (shm_slots seg) = unat C \<and> length hs < 2 ^ 63 \<and>
     unat (write_pos seg) = length hs \<and>
     (\<forall>p < length hs. length hs \<le> p + unat C \<longrightarrow>
        shm_slots seg ! (p mod unat C) = \<lparr>slot_seq = of_nat p * 2 + 1, slot_data = hs ! p\<rparr>)"

lemma shm_history_slot:
  assumes "shm_history C seg hs" "p < length hs" "length hs \<le> p + unat C"
  shows "shm_slots seg ! (p mod unat C) = \<lparr>slot_seq = of_nat p * 2 + 1, slot_data = hs ! p\<rparr>"
  using assms by (simp add: shm_history_def)

lemma shm_init_history: "valid_capacity C \<Longrightarrow> shm_history C (shm_init C z) []"
  by (simp add: shm_history_def shm_init_def)

lemma shm_slot_rebuild: "(sl :: 'a shm_slot)\<lparr>slot_seq := a, slot_data := x, slot_seq := b\<rparr> = \<lparr>slot_seq = b, slot_data = x\<rparr>"
  by (cases sl) simp

lemma shm_push_eq:
  assumes "valid_capacity C" "length (shm_slots seg) = unat C"
  shows "shm_push C now item seg = (write_pos seg,
    \<lparr>write_pos = write_pos seg + 1, last_heartbeat_ns = now,
      shm_slots = (shm_slots seg)[unat (write_pos seg) mod unat C :=
        \<lparr>slot_seq = write_pos seg * 2 + 1, slot_data = item\<rparr>]\<rparr>)"
proof -
  have "unat (write_pos seg) mod unat C < unat C" using valid_capacity_ge2 [OF assms(1)] by simp
  then show ?thesis
    using assms(2)
    by (cases seg) (simp add: shm_push_def push_claim_def store_sequence_def copy_payload_def beat_def
        slot_at_def Let_def slot_index_mod [OF assms(1)] shm_slot_rebuild)
qed

lemma shm_push_history:
  assumes h: "shm_history C seg hs" and n: "Suc (length hs) < 2 ^ 63"
  shows "fst (shm_push C now x seg) = of_nat (length hs)"
    and "shm_history C (snd (shm_push C now x seg)) (hs @ [x])"
proof -
  have C: "valid_capacity C" and L: "length (shm_slots seg) = unat C"
    and w: "unat (write_pos seg) = length hs"
    using h by (simp_all add: shm_history_def)
  have ww: "write_pos seg = of_nat (length hs)" by (simp flip: w)
  show "fst (shm_push C now x seg) = of_nat (length hs)"
    by (simp add: shm_push_eq [OF C L] ww)
  have suc: "unat (write_pos seg + 1) = Suc (length hs)"
    using unat_suc_u64 [of "write_pos seg"] w n by simp
  have c2: "2 \<le> unat C" by (rule valid_capacity_ge2 [OF C])
  have "(shm_slots seg)[length hs mod unat C := \<lparr>slot_seq = write_pos seg * 2 + 1, slot_data = x\<rparr>] ! (p mod unat C) =
      \<lparr>slot_seq = of_nat p * 2 + 1, slot_data = (hs @ [x]) ! p\<rparr>"
    if p: "p < Suc (length hs)" "Suc (length hs) \<le> p + unat C" for p
  proof (cases "p = length hs")
    case True
    then show ?thesis using c2 L ww by (simp add: mult.commute)
  next
    case False
    have "p mod unat C \<noteq> length hs mod unat C"
      using window_mod_inj [of p "unat C" "length hs" "Suc (length hs)"] False p c2 by auto
    then show ?thesis using False p h by (simp add: shm_history_def nth_append)
  qed
  then show "shm_history C (snd (shm_push C now x seg)) (hs @ [x])"
    using n C L suc by (simp add: shm_push_eq [OF C L] shm_history_def w)
qed

lemma shm_pop_at_head:
  assumes "shm_history C seg hs" "length hs \<le> unat c"
  shows "shm_pop C c out seg = (False, c, out)"
  using assms by (simp add: shm_pop_def pop_reads_def shm_history_def word_le_nat_alt)

lemma fast_forward_nat:
  assumes "unat c < unat wp"
  shows "unat (fast_forward C wp c) = max (unat c) (unat wp - unat C)"
proof -
  have s: "unat (wp - c) = unat wp - unat c" using assms by (intro unat_sub_le) (simp add: word_le_nat_alt)
  show ?thesis
  proof (cases "wp - c > C")
    case True
    then have gt: "unat C < unat wp - unat c" by (simp add: word_less_nat_alt s)
    then have "unat (wp - C) = unat wp - unat C" by (intro unat_sub_le) (simp add: word_le_nat_alt)
    with True gt show ?thesis by (simp add: fast_forward_def)
  next
    case False
    then have "unat wp - unat c \<le> unat C" by (simp add: word_less_nat_alt s)
    with False show ?thesis by (simp add: fast_forward_def)
  qed
qed

lemma shm_pop_behind:
  assumes h: "shm_history C seg hs" and c: "unat c < length hs"
  shows "shm_pop C c out seg =
    (let p = max (unat c) (length hs - unat C) in (True, of_nat (Suc p), hs ! p))"
proof -
  define p where "p = max (unat c) (length hs - unat C)"
  have C: "valid_capacity C" and w: "unat (write_pos seg) = length hs" and len: "length hs < 2 ^ 63"
    using h by (simp_all add: shm_history_def)
  have c2: "2 \<le> unat C" by (rule valid_capacity_ge2 [OF C])
  have p: "p < length hs" "length hs \<le> p + unat C" using c c2 by (auto simp: p_def)
  have ff: "unat (fast_forward C (write_pos seg) c) = p"
    using fast_forward_nat [of c "write_pos seg" C] c w by (simp add: p_def)
  then have fw: "fast_forward C (write_pos seg) c = of_nat p" by (simp flip: ff)
  have sl: "shm_slots seg ! (p mod unat C) = \<lparr>slot_seq = of_nat p * 2 + 1, slot_data = hs ! p\<rparr>"
    using h p by (simp add: shm_history_def)
  have "\<not> write_pos seg \<le> c" using c w by (simp add: word_le_nat_alt)
  then show ?thesis
    using fw sl slot_index_of_nat [OF C, of p] p len
    by (simp add: shm_pop_def pop_reads_def Let_def p_def [symmetric] add.commute)
qed

interpretation shm_ring: spmc_ring "shm_history C" "unat C" "shm_push C" shm_make_cursor "shm_pop C"
  for C
proof (unfold_locales, goal_cases)
  case (1 r hs) then show ?case by (simp add: shm_history_def)
next
  case (2 r hs) then show ?case using valid_capacity_ge2 by (fastforce simp: shm_history_def)
next
  case (3 r hs e x) then show ?case by (simp add: shm_push_history)
next
  case (4 r hs) then show ?case by (auto simp: shm_history_def shm_make_cursor_def word_unat_eq_iff unat_of_nat_u64)
next
  case (5 r hs c out) then show ?case by (rule shm_pop_at_head)
next
  case (6 r hs c out) then show ?case by (rule shm_pop_behind)
qed


section \<open>Delivery\<close>

definition shm_push_all :: "u64 \<Rightarrow> (u64 \<times> 'a) list \<Rightarrow> 'a shm_segment \<Rightarrow> 'a shm_segment" where
  "shm_push_all C xs seg = fold (\<lambda>(now, x) seg. snd (shm_push C now x seg)) xs seg"

lemma shm_push_all_locale: "shm_push_all C = shm_ring.push_all C"
  by (intro ext) (simp add: shm_push_all_def shm_ring.push_all_def)

lemma shm_push_all_init:
  assumes "valid_capacity C" "length xs < 2 ^ 63"
  shows "shm_history C (shm_push_all C xs (shm_init C z)) (map snd xs)"
  using shm_ring.push_all_history [OF shm_init_history [OF assms(1)], of xs z] assms(2)
  by (simp add: shm_push_all_locale)



text \<open>
  A consumer that starts with \<open>make_cursor_from_start\<close> receives, in order, the last \<open>Capacity\<close>
  of all items ever pushed, and its cursor ends at the write position, where a further \<open>pop\<close> returns
  \<open>false\<close> and leaves both cursor and output as they are.
\<close>

theorem shm_from_start:
  fixes z out :: 'a
  assumes "valid_capacity C" "length xs < 2 ^ 63" "length xs \<le> n" "unat C \<le> n"
  defines "seg \<equiv> shm_push_all C xs (shm_init C z)"
  shows "drain (\<lambda>c out. shm_pop C c out seg) n make_cursor_from_start out =
      (drop (length xs - unat C) (map snd xs), write_pos seg) \<and>
    shm_pop C (write_pos seg) out seg = (False, write_pos seg, out)"
proof
  have h: "shm_history C seg (map snd xs)" using shm_push_all_init [OF assms(1,2)] by (simp add: seg_def)
  then have w: "unat (write_pos seg) = length xs" by (simp add: shm_history_def)
  then have w': "write_pos seg = of_nat (length xs)" by (simp flip: w)
  show "drain (\<lambda>c out. shm_pop C c out seg) n make_cursor_from_start out =
      (drop (length xs - unat C) (map snd xs), write_pos seg)"
    using shm_ring.drain_history [OF h, of make_cursor_from_start n out] assms(3,4) w'
    by (simp add: make_cursor_from_start_def)
  show "shm_pop C (write_pos seg) out seg = (False, write_pos seg, out)"
    using shm_pop_at_head [OF h] w by simp
qed

theorem shm_from_start_witness:
  "drain (\<lambda>c out. shm_pop 2 c out (shm_push_all 2 [(7, 20), (8, 21), (9, 22)] (shm_init 2 (0::nat)))) 3
     make_cursor_from_start 0 = ([21, 22], 3)"
  using shm_from_start [of 2 "[(7, 20), (8, 21), (9, 22)]" 3 "0::nat" 0]
  by (simp add: valid_capacity_def shm_push_all_def shm_push_eq shm_init_def)

section \<open>Heartbeat\<close>

text \<open>
  \<open>producer_alive\<close> is a question about the last push only: it is \<open>false\<close> on a fresh segment, and
  after pushes ending with one at clock value \<open>t\<close> (the clock is past the epoch) it holds exactly when
  the clock has not stepped back and at most \<open>timeout_ns\<close> nanoseconds have passed.
\<close>

theorem producer_alive_iff_recent_push:
  assumes "valid_capacity C" "t \<noteq> 0"
  shows "\<not> producer_alive now timeout_ns (shm_init C z) \<and>
    (producer_alive now timeout_ns (snd (shm_push C t x seg)) \<longleftrightarrow>
      unat t \<le> unat now \<and> unat now \<le> unat t + unat timeout_ns)"
proof
  show "\<not> producer_alive now timeout_ns (shm_init C z)" by (simp add: producer_alive_def shm_init_def)
  have hb: "last_heartbeat_ns (snd (shm_push C t x seg)) = t"
    by (simp add: shm_push_def push_claim_def beat_def Let_def)
  show "producer_alive now timeout_ns (snd (shm_push C t x seg)) \<longleftrightarrow>
      unat t \<le> unat now \<and> unat now \<le> unat t + unat timeout_ns"
    using assms(2) unat_sub_le [of t now]
    by (auto simp: producer_alive_def hb word_le_nat_alt)
qed

theorem producer_alive_witness:
  "producer_alive 150 100 (snd (shm_push 2 50 (1::nat) (shm_init 2 0)))
    \<and> \<not> producer_alive 151 100 (snd (shm_push 2 50 (1::nat) (shm_init 2 0)))"
  using producer_alive_iff_recent_push [of 2 50 150 100 "0::nat" "1::nat" "shm_init 2 0"]
    producer_alive_iff_recent_push [of 2 50 151 100 "0::nat" "1::nat" "shm_init 2 0"]
  by (simp add: valid_capacity_def)

section \<open>Layout\<close>

lemma round_up_ge:
  assumes "0 < a"
  shows "n \<le> round_up a n"
proof -
  have "n + (a - 1) = round_up a n + (n + (a - 1)) mod a" by (simp add: round_up_def)
  moreover have "(n + (a - 1)) mod a \<le> a - 1" using mod_less_divisor [OF assms] by (metis Suc_pred' assms less_Suc_eq_le)
  ultimately show ?thesis by simp
qed

lemma dvd_round_up: "a dvd round_up a n"
  by (simp add: round_up_def)

text \<open>
  The layout of the segment. For a payload type whose alignment is at most a cache line, every
  slot starts on a cache line, holds the sequence word and the payload, does not overlap the control
  block or another slot, and the last one ends where the mapping does.
\<close>

theorem segment_layout:
  assumes "al dvd 64" "0 < al" "i < unat C"
  shows "sizeof_ControlBlock = 64 \<and> 64 dvd slot_offset al sz i \<and>
    round_up al 8 + sz \<le> sizeof_Slot al sz \<and>
    slot_offset al sz i + sizeof_Slot al sz \<le> total_size C al sz \<and>
    (\<forall>j < i. slot_offset al sz j + sizeof_Slot al sz \<le> slot_offset al sz i)"
proof (intro conjI)
  show cb: "sizeof_ControlBlock = 64" by (simp add: sizeof_ControlBlock_def round_up_def)
  have "al \<le> 64" using assms(1) by (simp add: dvd_imp_le)
  then have m: "max 64 al = 64" by simp
  have "64 dvd sizeof_Slot al sz" by (simp add: sizeof_Slot_def Let_def m dvd_round_up)
  then show "64 dvd slot_offset al sz i" by (simp add: slot_offset_def cb)
  show "round_up al 8 + sz \<le> sizeof_Slot al sz"
    unfolding sizeof_Slot_def Let_def m by (rule order_trans [OF _ round_up_ge]) simp_all
  have mono: "sizeof_Slot al sz * k + sizeof_Slot al sz \<le> sizeof_Slot al sz * l" if "k < l" for k l
    using mult_le_mono2 [of "Suc k" l "sizeof_Slot al sz"] that by simp
  show "slot_offset al sz i + sizeof_Slot al sz \<le> total_size C al sz"
    using mono [OF assms(3)] by (simp add: slot_offset_def total_size_def)
  show "\<forall>j < i. slot_offset al sz j + sizeof_Slot al sz \<le> slot_offset al sz i"
    using mono [of _ i] by (simp add: slot_offset_def)
qed

theorem segment_layout_witness:
  "slot_offset 8 100 1 + sizeof_Slot 8 100 \<le> total_size 2 8 100"
  using segment_layout [of 8 1 2 100] by simp

section \<open>Resources of a handle\<close>

text \<open>
  Replay of a trace: the descriptors opened and not yet closed, and the mappings made and not yet
  undone.
\<close>

fun held :: "os \<Rightarrow> calls \<Rightarrow> calls \<Rightarrow> int list \<times> int list \<Rightarrow> int list \<times> int list" where
  "held os past [] r = r"
| "held os past (c # cs) (fds, maps) = held os (past @ [c]) cs
     (case c of
        Shm_open n cr rw \<Rightarrow> (if os past c < 0 then fds else os past c # fds, maps)
      | Close d \<Rightarrow> (remove1 d fds, maps)
      | Mmap d n \<Rightarrow> (fds, if os past c = -1 then maps else os past c # maps)
      | Munmap a n \<Rightarrow> (fds, remove1 a maps)
      | _ \<Rightarrow> (fds, maps))"

lemma held_append: "held os past (xs @ ys) r = held os (past @ xs) ys (held os past xs r)"
proof (induction xs arbitrary: past r)
  case (Cons x xs)
  obtain fds maps where "r = (fds, maps)" by (cases r)
  then show ?case using Cons.IH by simp
qed simp



text \<open>
  The failing constructor. An exception from \<open>open_shm\<close> leaves no descriptor behind exactly when
  \<open>shm_open\<close> itself failed. When \<open>ftruncate\<close> or \<open>mmap\<close> fails the descriptor stays open: the object was
  never constructed, so its destructor, the only place that closes \<open>fd_\<close>, does not run.
\<close>

theorem failed_open_leaks_fd:
  assumes "open_shm os bytes name create [] = (Inl e, tr)"
  shows "fst (held os [] tr ([], [])) = [] \<longleftrightarrow>
    e = Shm_open_create_failed name \<or> e = Shm_open_attach_failed name"
  using assms by (auto simp: open_shm_def map_shm_def Let_def split: if_splits)

theorem failed_open_leaks_fd_witness:
  "fst (held (\<lambda>tr c. case c of Shm_open _ _ _ \<Rightarrow> 3 | _ \<Rightarrow> -1) []
     [Shm_unlink ''/ch'', Shm_open ''/ch'' True True, Ftruncate 3 192] ([], [])) \<noteq> []"
  using failed_open_leaks_fd [of "\<lambda>tr c. case c of Shm_open _ _ _ \<Rightarrow> 3 | _ \<Rightarrow> -1" 192 "''/ch''" True
      "Ftruncate_failed ''/ch''" "[Shm_unlink ''/ch'', Shm_open ''/ch'' True True, Ftruncate 3 192]"]
  by (simp add: open_shm_def)

end
