(* ===== verification/Shm_Ring_Concurrent.thy ===== *)
theory Shm_Ring_Concurrent
  imports Shm_Ring_Buffer
begin

text \<open>
  One producer and any number of consumers on a shared segment, interleaved at the grain of the
  code's shared accesses: the atomic operations on \<open>write_pos\<close> and \<open>sequence\<close>, and the single cells
  of the two \<open>memcpy\<close> calls, which may be copied in any order. The sequence number makes a
  consumer discard a payload that the producer overwrote while it was being read.
\<close>

section \<open>The system\<close>

datatype 'b prod_pc =
    P_Idle
  | P_Claimed u64 "'b list"
  | P_Copying u64 "'b list" "nat set"
  | P_Beat

datatype cons_pc = C_Idle | C_Check | C_Copying "nat set"

text \<open>
  \<open>sc_hist\<close> and \<open>sc_got\<close> are history variables: the payloads whose \<open>push\<close> has claimed a position,
  and the positions and payloads for which a consumer's \<open>pop\<close> returned \<open>true\<close>.
\<close>

record 'b shm_sys =
  sc_seg :: "'b list shm_segment"
  sc_prod :: "'b prod_pc"
  sc_pc :: "nat \<Rightarrow> cons_pc"
  sc_cursor :: "nat \<Rightarrow> Cursor"
  sc_out :: "nat \<Rightarrow> 'b list"
  sc_hist :: "'b list list"
  sc_got :: "nat \<Rightarrow> (nat \<times> 'b list) list"

definition write_cell :: "u64 \<Rightarrow> u64 \<Rightarrow> nat \<Rightarrow> 'b \<Rightarrow> 'b list shm_segment \<Rightarrow> 'b list shm_segment" where
  "write_cell C pos k b seg = copy_payload C pos ((slot_data (slot_at C pos seg))[k := b]) seg"

definition shm_sys_init :: "u64 \<Rightarrow> nat \<Rightarrow> 'b shm_sys \<Rightarrow> bool" where
  "shm_sys_init C wd s \<longleftrightarrow>
     valid_capacity C \<and> (\<exists>zero. length zero = wd \<and> sc_seg s = shm_init C zero) \<and>
     sc_prod s = P_Idle \<and> sc_pc s = (\<lambda>_. C_Idle) \<and> sc_cursor s = (\<lambda>_. make_cursor_from_start) \<and>
     (\<forall>i. length (sc_out s i) = wd) \<and> sc_hist s = [] \<and> sc_got s = (\<lambda>_. [])"

inductive shm_step :: "u64 \<Rightarrow> nat \<Rightarrow> 'b shm_sys \<Rightarrow> 'b shm_sys \<Rightarrow> bool" for C :: u64 and wd :: nat where
  p_claim: "sc_prod s = P_Idle \<Longrightarrow> length item = wd \<Longrightarrow> push_claim (sc_seg s) = (pos, seg') \<Longrightarrow>
    shm_step C wd s (s\<lparr>sc_seg := seg', sc_prod := P_Claimed pos item, sc_hist := sc_hist s @ [item]\<rparr>)"
| p_begin: "sc_prod s = P_Claimed pos item \<Longrightarrow>
    shm_step C wd s (s\<lparr>sc_seg := store_sequence C pos (pos * 2) (sc_seg s), sc_prod := P_Copying pos item {..<wd}\<rparr>)"
| p_cell: "sc_prod s = P_Copying pos item rem \<Longrightarrow> k \<in> rem \<Longrightarrow>
    shm_step C wd s (s\<lparr>sc_seg := write_cell C pos k (item ! k) (sc_seg s), sc_prod := P_Copying pos item (rem - {k})\<rparr>)"
| p_publish: "sc_prod s = P_Copying pos item {} \<Longrightarrow>
    shm_step C wd s (s\<lparr>sc_seg := store_sequence C pos (pos * 2 + 1) (sc_seg s), sc_prod := P_Beat\<rparr>)"
| p_beat: "sc_prod s = P_Beat \<Longrightarrow>
    shm_step C wd s (s\<lparr>sc_seg := beat now (sc_seg s), sc_prod := P_Idle\<rparr>)"
| c_cursor: "sc_pc s i = C_Idle \<Longrightarrow>
    shm_step C wd s (s\<lparr>sc_cursor := (sc_cursor s)(i := shm_make_cursor (sc_seg s))\<rparr>)"
| c_load: "sc_pc s i = C_Idle \<Longrightarrow> sc_cursor s i < write_pos (sc_seg s) \<Longrightarrow>
    shm_step C wd s (s\<lparr>sc_cursor := (sc_cursor s)(i := fast_forward C (write_pos (sc_seg s)) (sc_cursor s i)),
      sc_pc := (sc_pc s)(i := C_Check)\<rparr>)"
| c_not_ready: "sc_pc s i = C_Check \<Longrightarrow>
    slot_seq (slot_at C (sc_cursor s i) (sc_seg s)) \<noteq> sc_cursor s i * 2 + 1 \<Longrightarrow>
    shm_step C wd s (s\<lparr>sc_pc := (sc_pc s)(i := C_Idle)\<rparr>)"
| c_ready: "sc_pc s i = C_Check \<Longrightarrow>
    slot_seq (slot_at C (sc_cursor s i) (sc_seg s)) = sc_cursor s i * 2 + 1 \<Longrightarrow>
    shm_step C wd s (s\<lparr>sc_pc := (sc_pc s)(i := C_Copying {..<wd})\<rparr>)"
| c_cell: "sc_pc s i = C_Copying rem \<Longrightarrow> k \<in> rem \<Longrightarrow>
    shm_step C wd s (s\<lparr>sc_out := (sc_out s)(i := (sc_out s i)[k := slot_data (slot_at C (sc_cursor s i) (sc_seg s)) ! k]),
      sc_pc := (sc_pc s)(i := C_Copying (rem - {k}))\<rparr>)"
| c_torn: "sc_pc s i = C_Copying {} \<Longrightarrow>
    slot_seq (slot_at C (sc_cursor s i) (sc_seg s)) \<noteq> sc_cursor s i * 2 + 1 \<Longrightarrow>
    shm_step C wd s (s\<lparr>sc_pc := (sc_pc s)(i := C_Idle)\<rparr>)"
| c_done: "sc_pc s i = C_Copying {} \<Longrightarrow>
    slot_seq (slot_at C (sc_cursor s i) (sc_seg s)) = sc_cursor s i * 2 + 1 \<Longrightarrow>
    shm_step C wd s (s\<lparr>sc_cursor := (sc_cursor s)(i := sc_cursor s i + 1), sc_pc := (sc_pc s)(i := C_Idle),
      sc_got := (sc_got s)(i := sc_got s i @ [(unat (sc_cursor s i), sc_out s i)])\<rparr>)"

section \<open>The invariant\<close>

definition seq_at :: "'b list shm_segment \<Rightarrow> nat \<Rightarrow> nat" where
  "seq_at seg i = unat (slot_seq (shm_slots seg ! i))"

definition data_at :: "'b list shm_segment \<Rightarrow> nat \<Rightarrow> 'b list" where
  "data_at seg i = slot_data (shm_slots seg ! i)"

text \<open>Slot \<open>i\<close> is as \<open>m\<close> completed pushes of the history left it.\<close>

definition slot_settled :: "nat \<Rightarrow> 'b list shm_segment \<Rightarrow> 'b list list \<Rightarrow> nat \<Rightarrow> nat \<Rightarrow> bool" where
  "slot_settled n seg h m i \<longleftrightarrow>
     m \<le> i \<and> seq_at seg i = 0 \<or>
     (\<exists>p<m. m \<le> p + n \<and> p mod n = i \<and> seq_at seg i = 2 * p + 1 \<and> data_at seg i = h ! p)"

definition segment_shape :: "u64 \<Rightarrow> nat \<Rightarrow> 'b list shm_segment \<Rightarrow> 'b list list \<Rightarrow> bool" where
  "segment_shape C wd seg h \<longleftrightarrow>
     valid_capacity C \<and> length (shm_slots seg) = unat C \<and> unat (write_pos seg) = length h \<and>
     (\<forall>i<unat C. length (data_at seg i) = wd) \<and> (\<forall>x\<in>set h. length x = wd)"

fun prod_ok :: "nat \<Rightarrow> 'b list shm_segment \<Rightarrow> 'b list list \<Rightarrow> 'b prod_pc \<Rightarrow> bool" where
  "prod_ok n seg h P_Idle \<longleftrightarrow> (\<forall>i<n. slot_settled n seg h (length h) i)"
| "prod_ok n seg h P_Beat \<longleftrightarrow> (\<forall>i<n. slot_settled n seg h (length h) i)"
| "prod_ok n seg h (P_Claimed pos item) \<longleftrightarrow>
     length h = Suc (unat pos) \<and> h ! unat pos = item \<and> (\<forall>i<n. slot_settled n seg h (unat pos) i)"
| "prod_ok n seg h (P_Copying pos item rem) \<longleftrightarrow>
     length h = Suc (unat pos) \<and> h ! unat pos = item \<and>
     (\<forall>i<n. i \<noteq> unat pos mod n \<longrightarrow> slot_settled n seg h (unat pos) i) \<and>
     seq_at seg (unat pos mod n) = 2 * unat pos \<and>
     (\<forall>k<length item. k \<notin> rem \<longrightarrow> data_at seg (unat pos mod n) ! k = item ! k)"

fun cons_ok :: "nat \<Rightarrow> 'b list shm_segment \<Rightarrow> 'b list list \<Rightarrow> nat \<Rightarrow> 'b list \<Rightarrow> cons_pc \<Rightarrow> bool" where
  "cons_ok n seg h c out C_Idle \<longleftrightarrow> True"
| "cons_ok n seg h c out C_Check \<longleftrightarrow> c < length h"
| "cons_ok n seg h c out (C_Copying rem) \<longleftrightarrow> c < length h \<and> 2 * c + 1 \<le> seq_at seg (c mod n) \<and>
     (seq_at seg (c mod n) = 2 * c + 1 \<longrightarrow> (\<forall>k<length out. k \<notin> rem \<longrightarrow> out ! k = h ! c ! k))"

definition got_ok :: "'b list list \<Rightarrow> nat \<Rightarrow> (nat \<times> 'b list) list \<Rightarrow> bool" where
  "got_ok h c g \<longleftrightarrow> (\<exists>ps. sorted_wrt (<) ps \<and> (\<forall>p\<in>set ps. p < c) \<and> g = map (\<lambda>p. (p, h ! p)) ps)"

definition shm_sys_inv :: "u64 \<Rightarrow> nat \<Rightarrow> 'b shm_sys \<Rightarrow> bool" where
  "shm_sys_inv C wd s \<longleftrightarrow>
     segment_shape C wd (sc_seg s) (sc_hist s) \<and> prod_ok (unat C) (sc_seg s) (sc_hist s) (sc_prod s) \<and>
     (\<forall>i. unat (sc_cursor s i) \<le> length (sc_hist s) \<and> length (sc_out s i) = wd \<and>
        cons_ok (unat C) (sc_seg s) (sc_hist s) (unat (sc_cursor s i)) (sc_out s i) (sc_pc s i) \<and>
        got_ok (sc_hist s) (unat (sc_cursor s i)) (sc_got s i))"

section \<open>The producer's steps\<close>

lemma slot_settled_same:
  "seq_at seg' i = seq_at seg i \<Longrightarrow> data_at seg' i = data_at seg i \<Longrightarrow>
    slot_settled n seg' h m i = slot_settled n seg h m i"
  by (simp add: slot_settled_def)

lemma slot_settled_append:
  assumes "m \<le> length h"
  shows "slot_settled n seg (h @ hs) m i = slot_settled n seg h m i"
proof -
  have "(h @ hs) ! p = h ! p" if "p < m" for p using that assms by (simp add: nth_append)
  then show ?thesis by (simp add: slot_settled_def cong: conj_cong)
qed

lemma slot_settled_Suc:
  assumes "slot_settled n seg h m i" "i < n" "i \<noteq> m mod n"
  shows "slot_settled n seg h (Suc m) i"
proof -
  have "Suc m \<le> i" if "m \<le> i"
    using that assms(2,3) by (cases "m = i") auto
  moreover have "Suc m \<le> p + n" if "m \<le> p + n" "p mod n = i" for p
    using that assms(3) by (cases "m = p + n") auto
  ultimately show ?thesis using assms(1) by (auto simp: slot_settled_def intro: less_SucI)
qed

lemma pos_seq_nat:
  assumes "unat (pos :: u64) < 2 ^ 63"
  shows "unat (pos * 2) = 2 * unat pos" "unat (pos * 2 + 1) = 2 * unat pos + 1"
proof -
  show a: "unat (pos * 2) = 2 * unat pos" using assms by (subst unat_mult_lt) auto
  show "unat (pos * 2 + 1) = 2 * unat pos + 1" using assms a by (subst unat_suc_u64) auto
qed

lemma expected_seq_iff:
  assumes "unat (c :: u64) < 2 ^ 63"
  shows "w = c * 2 + 1 \<longleftrightarrow> unat w = 2 * unat c + 1"
  using pos_seq_nat(2) [OF assms] by (metis word_unat_eq_iff)

lemma segment_shapeD:
  assumes "segment_shape C wd seg h"
  shows "valid_capacity C" "length (shm_slots seg) = unat C" "unat (write_pos seg) = length h"
    "i < unat C \<Longrightarrow> length (data_at seg i) = wd" "x \<in> set h \<Longrightarrow> length x = wd" "0 < unat C"
  using assms valid_capacity_ge2 [of C] by (auto simp: segment_shape_def)

lemma store_sequence_at:
  assumes "segment_shape C wd seg h" "i < unat C"
  shows "seq_at (store_sequence C pos v seg) i = (if i = unat pos mod unat C then unat v else seq_at seg i)"
    "data_at (store_sequence C pos v seg) i = data_at seg i"
  using segment_shapeD(1,2) [OF assms(1)] assms(2)
  by (simp_all add: seq_at_def data_at_def store_sequence_def slot_at_def slot_index_mod nth_list_update)

lemma write_cell_at:
  assumes "segment_shape C wd seg h" "i < unat C"
  shows "seq_at (write_cell C pos k b seg) i = seq_at seg i"
    "data_at (write_cell C pos k b seg) i =
       (if i = unat pos mod unat C then (data_at seg i)[k := b] else data_at seg i)"
  using segment_shapeD(1,2) [OF assms(1)] assms(2)
  by (simp_all add: seq_at_def data_at_def write_cell_def copy_payload_def slot_at_def slot_index_mod nth_list_update)

lemma store_sequence_shape:
  assumes "segment_shape C wd seg h"
  shows "segment_shape C wd (store_sequence C pos v seg) h"
  using assms store_sequence_at(2) [OF assms]
  by (auto simp: segment_shape_def) (simp_all add: store_sequence_def)

lemma write_cell_shape:
  assumes "segment_shape C wd seg h"
  shows "segment_shape C wd (write_cell C pos k b seg) h"
  using assms write_cell_at(2) [OF assms]
  by (auto simp: segment_shape_def) (simp_all add: write_cell_def copy_payload_def)

text \<open>A published sequence number vouches for the payload, whatever the producer is doing.\<close>

lemma settled_odd:
  "slot_settled n seg h m i \<Longrightarrow> seq_at seg i = 2 * p + 1 \<Longrightarrow> data_at seg i = h ! p"
  by (auto simp: slot_settled_def)

lemma odd_slot_data:
  assumes "prod_ok n seg h pc" "i < n" "seq_at seg i = 2 * p + 1"
  shows "data_at seg i = h ! p"
proof (cases pc)
  case (P_Copying pos item rem)
  then have "i \<noteq> unat pos mod n" using assms by (metis even_Suc even_mult_iff prod_ok.simps(4) Suc_eq_plus1 dvd_triv_left)
  then show ?thesis using assms P_Copying by (auto intro: settled_odd)
qed (use assms in \<open>auto intro: settled_odd\<close>)

lemma slot_below:
  assumes "slot_settled n seg h m i"
  shows "seq_at seg i < 2 * m \<or> seq_at seg i = 0"
  using assms by (auto simp: slot_settled_def)

section \<open>What a consumer keeps\<close>

lemma cons_ok_mono:
  assumes "cons_ok n seg h c out pc" "\<And>i. i < n \<Longrightarrow> seq_at seg i \<le> seq_at seg' i" "0 < n"
  shows "cons_ok n seg' (h @ hs) c out pc"
proof (cases pc)
  case (C_Copying rem)
  have "seq_at seg (c mod n) \<le> seq_at seg' (c mod n)" using assms(2,3) by simp
  with assms(1) C_Copying show ?thesis by (auto simp: nth_append)
qed (use assms in auto)

lemma got_ok_append:
  assumes "got_ok h c g" "c \<le> length h"
  shows "got_ok (h @ hs) c g"
proof -
  from assms obtain ps where ps: "sorted_wrt (<) ps" "\<forall>p\<in>set ps. p < c" "g = map (\<lambda>p. (p, h ! p)) ps"
    by (auto simp: got_ok_def)
  then have "g = map (\<lambda>p. (p, (h @ hs) ! p)) ps" using assms(2) by (auto simp: nth_append)
  with ps show ?thesis unfolding got_ok_def by blast
qed

lemma got_ok_forward: "got_ok h c g \<Longrightarrow> c \<le> c' \<Longrightarrow> got_ok h c' g"
  unfolding got_ok_def by (elim exE conjE, rule exI, intro conjI) (assumption, force, assumption)

lemma got_ok_snoc:
  assumes "got_ok h c g"
  shows "got_ok h (Suc c) (g @ [(c, h ! c)])"
proof -
  from assms obtain ps where ps: "sorted_wrt (<) ps" "\<forall>p\<in>set ps. p < c" "g = map (\<lambda>p. (p, h ! p)) ps"
    by (auto simp: got_ok_def)
  then have "sorted_wrt (<) (ps @ [c])" "\<forall>p\<in>set (ps @ [c]). p < Suc c"
    "g @ [(c, h ! c)] = map (\<lambda>p. (p, h ! p)) (ps @ [c])"
    by (auto simp: sorted_wrt_append)
  then show ?thesis unfolding got_ok_def by blast
qed

text \<open>A producer's step leaves every consumer as it is when no sequence number moves back.\<close>

lemma producer_keeps:
  assumes "shm_sys_inv C wd s"
    and "sc_pc t = sc_pc s" "sc_cursor t = sc_cursor s" "sc_out t = sc_out s" "sc_got t = sc_got s"
    and "sc_hist t = sc_hist s @ hs"
    and "\<And>i. i < unat C \<Longrightarrow> seq_at (sc_seg s) i \<le> seq_at (sc_seg t) i"
    and "segment_shape C wd (sc_seg t) (sc_hist t)"
    and "prod_ok (unat C) (sc_seg t) (sc_hist t) (sc_prod t)"
  shows "shm_sys_inv C wd t"
proof -
  have C: "0 < unat C" using segment_shapeD(6) assms(8) .
  have "unat (sc_cursor t i) \<le> length (sc_hist t) \<and> length (sc_out t i) = wd \<and>
        cons_ok (unat C) (sc_seg t) (sc_hist t) (unat (sc_cursor t i)) (sc_out t i) (sc_pc t i) \<and>
        got_ok (sc_hist t) (unat (sc_cursor t i)) (sc_got t i)" for i
  proof -
    from assms(1) have c: "unat (sc_cursor s i) \<le> length (sc_hist s)" "length (sc_out s i) = wd"
      "cons_ok (unat C) (sc_seg s) (sc_hist s) (unat (sc_cursor s i)) (sc_out s i) (sc_pc s i)"
      "got_ok (sc_hist s) (unat (sc_cursor s i)) (sc_got s i)"
      by (auto simp: shm_sys_inv_def)
    show ?thesis
      using c cons_ok_mono [OF c(3) assms(7) C] got_ok_append [OF c(4,1)] assms(2-6) by simp
  qed
  with assms(8,9) show ?thesis unfolding shm_sys_inv_def by blast
qed

text \<open>A consumer's step leaves the producer and the other consumers as they are.\<close>

lemma consumer_keeps:
  assumes "shm_sys_inv C wd s"
    and "sc_seg t = sc_seg s" "sc_prod t = sc_prod s" "sc_hist t = sc_hist s"
    and "\<And>j. j \<noteq> i \<Longrightarrow> sc_pc t j = sc_pc s j \<and> sc_cursor t j = sc_cursor s j \<and> sc_out t j = sc_out s j \<and> sc_got t j = sc_got s j"
    and "unat (sc_cursor t i) \<le> length (sc_hist s)" "length (sc_out t i) = wd"
    and "cons_ok (unat C) (sc_seg s) (sc_hist s) (unat (sc_cursor t i)) (sc_out t i) (sc_pc t i)"
    and "got_ok (sc_hist s) (unat (sc_cursor t i)) (sc_got t i)"
  shows "shm_sys_inv C wd t"
  unfolding shm_sys_inv_def
proof (intro conjI allI)
  fix j
  have "unat (sc_cursor t j) \<le> length (sc_hist t) \<and> length (sc_out t j) = wd \<and>
        cons_ok (unat C) (sc_seg t) (sc_hist t) (unat (sc_cursor t j)) (sc_out t j) (sc_pc t j) \<and>
        got_ok (sc_hist t) (unat (sc_cursor t j)) (sc_got t j)"
    using assms by (cases "j = i") (simp_all add: shm_sys_inv_def)
  then show "unat (sc_cursor t j) \<le> length (sc_hist t)" "length (sc_out t j) = wd"
    "cons_ok (unat C) (sc_seg t) (sc_hist t) (unat (sc_cursor t j)) (sc_out t j) (sc_pc t j)"
    "got_ok (sc_hist t) (unat (sc_cursor t j)) (sc_got t j)" by blast+
qed (use assms in \<open>simp_all add: shm_sys_inv_def\<close>)

section \<open>Preservation\<close>

lemma p_claim_inv:
  assumes "shm_sys_inv C wd s" "sc_prod s = P_Idle" "length item = wd" "push_claim (sc_seg s) = (pos, seg')"
    "Suc (length (sc_hist s)) < 2 ^ 63"
  shows "shm_sys_inv C wd (s\<lparr>sc_seg := seg', sc_prod := P_Claimed pos item, sc_hist := sc_hist s @ [item]\<rparr>)"
    (is "shm_sys_inv C wd ?t")
proof (rule producer_keeps [OF assms(1), where hs = "[item]"])
  from assms(1,2) have sh: "segment_shape C wd (sc_seg s) (sc_hist s)"
    and st: "\<And>i. i < unat C \<Longrightarrow> slot_settled (unat C) (sc_seg s) (sc_hist s) (length (sc_hist s)) i"
    by (simp_all add: shm_sys_inv_def)
  have pos: "pos = write_pos (sc_seg s)" and seg': "seg' = (sc_seg s)\<lparr>write_pos := write_pos (sc_seg s) + 1\<rparr>"
    using assms(4) by (auto simp: push_claim_def)
  note w = segment_shapeD(3) [OF sh]
  have w': "unat (write_pos (sc_seg s) + 1) = Suc (length (sc_hist s))"
    using unat_suc_u64 [of "write_pos (sc_seg s)"] w assms(5) by simp
  have at: "seq_at seg' i = seq_at (sc_seg s) i" "data_at seg' i = data_at (sc_seg s) i" for i
    by (simp_all add: seg' seq_at_def data_at_def)
  show "segment_shape C wd (sc_seg ?t) (sc_hist ?t)"
    using sh w' assms(3) at(2) by (simp add: segment_shape_def) (simp add: seg')
  show "prod_ok (unat C) (sc_seg ?t) (sc_hist ?t) (sc_prod ?t)"
    using st w by (simp add: pos slot_settled_same [OF at] slot_settled_append)
qed (use assms(4) in \<open>auto simp: push_claim_def seq_at_def\<close>)

lemma p_begin_inv:
  assumes "shm_sys_inv C wd s" "sc_prod s = P_Claimed pos item" "length (sc_hist s) < 2 ^ 63"
  shows "shm_sys_inv C wd (s\<lparr>sc_seg := store_sequence C pos (pos * 2) (sc_seg s), sc_prod := P_Copying pos item {..<wd}\<rparr>)"
    (is "shm_sys_inv C wd ?t")
proof (rule producer_keeps [OF assms(1), where hs = "[]"])
  from assms(1,2) have sh: "segment_shape C wd (sc_seg s) (sc_hist s)"
    and h: "length (sc_hist s) = Suc (unat pos)" "sc_hist s ! unat pos = item"
    and st: "\<And>i. i < unat C \<Longrightarrow> slot_settled (unat C) (sc_seg s) (sc_hist s) (unat pos) i"
    by (simp_all add: shm_sys_inv_def)
  have lt: "unat pos mod unat C < unat C" using segment_shapeD(6) [OF sh] by simp
  have sq: "unat (pos * 2) = 2 * unat pos" using pos_seq_nat(1) assms(3) h(1) by simp
  note at = store_sequence_at [OF sh]
  have il: "length item = wd" using segment_shapeD(5) [OF sh, of item] h by (metis lessI nth_mem)
  have st': "slot_settled (unat C) (store_sequence C pos (pos * 2) (sc_seg s)) (sc_hist s) (unat pos) i"
    if "i < unat C" "i \<noteq> unat pos mod unat C" for i
    using slot_settled_same [of "store_sequence C pos (pos * 2) (sc_seg s)" i "sc_seg s"] at that st by simp
  show "seq_at (sc_seg s) i \<le> seq_at (sc_seg ?t) i"
    if "i < unat C" for i
    using slot_below [OF st [OF that]] at(1) [OF that, of pos] sq by auto
  show "prod_ok (unat C) (sc_seg ?t) (sc_hist ?t) (sc_prod ?t)"
    using st' h at(1) [OF lt] sq il by simp
qed (use assms(1) in \<open>simp_all add: store_sequence_shape shm_sys_inv_def\<close>)

lemma p_cell_inv:
  assumes "shm_sys_inv C wd s" "sc_prod s = P_Copying pos item rem" "k \<in> rem"
  shows "shm_sys_inv C wd (s\<lparr>sc_seg := write_cell C pos k (item ! k) (sc_seg s), sc_prod := P_Copying pos item (rem - {k})\<rparr>)"
    (is "shm_sys_inv C wd ?t")
proof (rule producer_keeps [OF assms(1), where hs = "[]"])
  from assms(1,2) have sh: "segment_shape C wd (sc_seg s) (sc_hist s)"
    and pk: "prod_ok (unat C) (sc_seg s) (sc_hist s) (P_Copying pos item rem)"
    by (simp_all add: shm_sys_inv_def)
  have lt: "unat pos mod unat C < unat C" using segment_shapeD(6) [OF sh] by simp
  note at = write_cell_at [OF sh]
  have il: "length item = wd" using segment_shapeD(5) [OF sh, of item] pk by (metis lessI nth_mem prod_ok.simps(4))
  have "slot_settled (unat C) (write_cell C pos k (item ! k) (sc_seg s)) (sc_hist s) (unat pos) i"
    if "i < unat C" "i \<noteq> unat pos mod unat C" for i
    using slot_settled_same [of "write_cell C pos k (item ! k) (sc_seg s)" i "sc_seg s"] at that pk by simp
  moreover have "data_at (write_cell C pos k (item ! k) (sc_seg s)) (unat pos mod unat C) ! l = item ! l"
    if "l < length item" "l \<notin> rem - {k}" for l
    using that pk at(2) [OF lt, of pos] segment_shapeD(4) [OF sh lt] il by (cases "l = k") simp_all
  ultimately show "prod_ok (unat C) (sc_seg ?t) (sc_hist ?t) (sc_prod ?t)"
    using pk at(1) [OF lt] by simp
  show "seq_at (sc_seg s) i \<le> seq_at (sc_seg ?t) i" if "i < unat C" for i
    using at(1) [OF that] by simp
qed (use assms(1) in \<open>simp_all add: write_cell_shape shm_sys_inv_def\<close>)

lemma p_publish_inv:
  assumes "shm_sys_inv C wd s" "sc_prod s = P_Copying pos item {}" "length (sc_hist s) < 2 ^ 63"
  shows "shm_sys_inv C wd (s\<lparr>sc_seg := store_sequence C pos (pos * 2 + 1) (sc_seg s), sc_prod := P_Beat\<rparr>)"
    (is "shm_sys_inv C wd ?t")
proof (rule producer_keeps [OF assms(1), where hs = "[]"])
  let ?j = "unat pos mod unat C" and ?seg = "store_sequence C pos (pos * 2 + 1) (sc_seg s)"
  from assms(1,2) have sh: "segment_shape C wd (sc_seg s) (sc_hist s)"
    and pk: "prod_ok (unat C) (sc_seg s) (sc_hist s) (P_Copying pos item {})"
    by (simp_all add: shm_sys_inv_def)
  have lt: "?j < unat C" using segment_shapeD(6) [OF sh] by simp
  have sq: "unat (pos * 2 + 1) = 2 * unat pos + 1" using pos_seq_nat(2) assms(3) pk by simp
  note at = store_sequence_at [OF sh]
  have il: "length item = wd" using segment_shapeD(5) [OF sh, of item] pk by (metis lessI nth_mem prod_ok.simps(4))
  have d: "data_at (sc_seg s) ?j = item"
    using pk il segment_shapeD(4) [OF sh lt] by (intro nth_equalityI) simp_all
  have "slot_settled (unat C) ?seg (sc_hist s) (Suc (unat pos)) i" if "i < unat C" for i
  proof (cases "i = ?j")
    case True
    with at [OF lt, of pos "pos * 2 + 1"] sq d pk that show ?thesis
      unfolding slot_settled_def by (intro disjI2 exI [of _ "unat pos"]) simp
  next
    case False
    then have "slot_settled (unat C) ?seg (sc_hist s) (unat pos) i"
      using slot_settled_same [of ?seg i "sc_seg s"] at that pk by simp
    then show ?thesis using that False by (rule slot_settled_Suc)
  qed
  then show "prod_ok (unat C) (sc_seg ?t) (sc_hist ?t) (sc_prod ?t)" using pk by simp
  show "seq_at (sc_seg s) i \<le> seq_at (sc_seg ?t) i" if "i < unat C" for i
    using at(1) [OF that, of pos "pos * 2 + 1"] sq pk by simp
qed (use assms(1) in \<open>simp_all add: store_sequence_shape shm_sys_inv_def\<close>)

lemma p_beat_inv:
  assumes "shm_sys_inv C wd s" "sc_prod s = P_Beat"
  shows "shm_sys_inv C wd (s\<lparr>sc_seg := beat now (sc_seg s), sc_prod := P_Idle\<rparr>)"
    (is "shm_sys_inv C wd ?t")
proof (rule producer_keeps [OF assms(1), where hs = "[]"])
  have at: "seq_at (beat now (sc_seg s)) i = seq_at (sc_seg s) i"
    "data_at (beat now (sc_seg s)) i = data_at (sc_seg s) i" for i
    by (simp_all add: beat_def seq_at_def data_at_def)
  show "seq_at (sc_seg s) i \<le> seq_at (sc_seg ?t) i" for i by (simp add: at)
  show "prod_ok (unat C) (sc_seg ?t) (sc_hist ?t) (sc_prod ?t)"
    using assms by (simp add: shm_sys_inv_def slot_settled_same [OF at])
  have "segment_shape C wd (sc_seg s) (sc_hist s)" using assms(1) by (simp add: shm_sys_inv_def)
  then show "segment_shape C wd (sc_seg ?t) (sc_hist ?t)"
    by (simp add: segment_shape_def at) (simp add: beat_def)
qed simp_all

text \<open>What the consumer's reads of a slot mean in terms of the invariant.\<close>

lemma cursor_slot:
  assumes "segment_shape C wd seg h"
  shows "slot_at C c seg = shm_slots seg ! (unat c mod unat C)"
  using segment_shapeD(1) [OF assms] by (simp add: slot_at_def slot_index_mod)

lemma cursor_seq_iff:
  assumes "segment_shape C wd seg h" "unat c < length h" "length h < 2 ^ 63"
  shows "slot_seq (slot_at C c seg) = c * 2 + 1 \<longleftrightarrow> seq_at seg (unat c mod unat C) = 2 * unat c + 1"
  using expected_seq_iff [of c] assms(2,3) by (simp add: cursor_slot [OF assms(1)] seq_at_def)

lemma shm_sys_invD:
  assumes "shm_sys_inv C wd s"
  shows "segment_shape C wd (sc_seg s) (sc_hist s)"
    "prod_ok (unat C) (sc_seg s) (sc_hist s) (sc_prod s)"
    "unat (sc_cursor s i) \<le> length (sc_hist s)" "length (sc_out s i) = wd"
    "cons_ok (unat C) (sc_seg s) (sc_hist s) (unat (sc_cursor s i)) (sc_out s i) (sc_pc s i)"
    "got_ok (sc_hist s) (unat (sc_cursor s i)) (sc_got s i)"
  using assms by (simp_all add: shm_sys_inv_def)

lemma c_cell_inv:
  assumes "shm_sys_inv C wd s" "sc_pc s i = C_Copying rem" "k \<in> rem"
  shows "shm_sys_inv C wd (s\<lparr>sc_out := (sc_out s)(i := (sc_out s i)[k := slot_data (slot_at C (sc_cursor s i) (sc_seg s)) ! k]),
      sc_pc := (sc_pc s)(i := C_Copying (rem - {k}))\<rparr>)" (is "shm_sys_inv C wd ?t")
proof (rule consumer_keeps [OF assms(1), where i = i])
  note d = shm_sys_invD(1,2) [OF assms(1)] shm_sys_invD(3-6) [OF assms(1), where i = i]
  let ?c = "unat (sc_cursor s i)"
  have lt: "?c mod unat C < unat C" using segment_shapeD(6) [OF d(1)] by simp
  have "(sc_out s i)[k := slot_data (slot_at C (sc_cursor s i) (sc_seg s)) ! k] ! l = sc_hist s ! ?c ! l"
    if "seq_at (sc_seg s) (?c mod unat C) = 2 * ?c + 1" "l < length (sc_out s i)" "l \<notin> rem - {k}" for l
    using that d(5) assms(2) odd_slot_data [OF d(2) lt that(1)]
    by (cases "l = k") (simp_all add: cursor_slot [OF d(1)] data_at_def)
  then show "cons_ok (unat C) (sc_seg s) (sc_hist s) (unat (sc_cursor ?t i)) (sc_out ?t i) (sc_pc ?t i)"
    using d(5) assms(2) by simp
qed (use shm_sys_invD [OF assms(1)] in simp_all)

lemma c_load_inv:
  assumes "shm_sys_inv C wd s" "sc_pc s i = C_Idle" "sc_cursor s i < write_pos (sc_seg s)"
  shows "shm_sys_inv C wd (s\<lparr>sc_cursor := (sc_cursor s)(i := fast_forward C (write_pos (sc_seg s)) (sc_cursor s i)),
      sc_pc := (sc_pc s)(i := C_Check)\<rparr>)" (is "shm_sys_inv C wd ?t")
proof (rule consumer_keeps [OF assms(1), where i = i])
  note d = shm_sys_invD(1,2) [OF assms(1)] shm_sys_invD(3-6) [OF assms(1), where i = i]
  have lt: "unat (sc_cursor s i) < unat (write_pos (sc_seg s))" using assms(3) by (simp add: word_less_nat_alt)
  note w = segment_shapeD(3,6) [OF d(1)] and ff = fast_forward_nat [OF lt, of C]
  show "unat (sc_cursor ?t i) \<le> length (sc_hist s)" using ff w lt by simp
  show "cons_ok (unat C) (sc_seg s) (sc_hist s) (unat (sc_cursor ?t i)) (sc_out ?t i) (sc_pc ?t i)"
    using ff w lt by simp
  show "got_ok (sc_hist s) (unat (sc_cursor ?t i)) (sc_got ?t i)"
    using got_ok_forward [OF d(6)] ff by simp
qed (use shm_sys_invD [OF assms(1)] in simp_all)

lemma c_done_inv:
  assumes "shm_sys_inv C wd s" "sc_pc s i = C_Copying {}" "length (sc_hist s) < 2 ^ 63"
    "slot_seq (slot_at C (sc_cursor s i) (sc_seg s)) = sc_cursor s i * 2 + 1"
  shows "shm_sys_inv C wd (s\<lparr>sc_cursor := (sc_cursor s)(i := sc_cursor s i + 1), sc_pc := (sc_pc s)(i := C_Idle),
      sc_got := (sc_got s)(i := sc_got s i @ [(unat (sc_cursor s i), sc_out s i)])\<rparr>)"
    (is "shm_sys_inv C wd ?t")
proof (rule consumer_keeps [OF assms(1), where i = i])
  note d = shm_sys_invD(1,2) [OF assms(1)] shm_sys_invD(3-6) [OF assms(1), where i = i]
  let ?c = "unat (sc_cursor s i)"
  have c: "?c < length (sc_hist s)" using d(5) assms(2) by simp
  have "seq_at (sc_seg s) (?c mod unat C) = 2 * ?c + 1" using cursor_seq_iff [OF d(1) c assms(3)] assms(4) by simp
  then have "sc_out s i = sc_hist s ! ?c"
    using d(4,5) assms(2) segment_shapeD(5) [OF d(1) nth_mem [OF c]] by (intro nth_equalityI) simp_all
  moreover have s: "unat (sc_cursor s i + 1) = Suc ?c"
    using unat_suc_u64 [of "sc_cursor s i"] c assms(3) by simp
  ultimately show "got_ok (sc_hist s) (unat (sc_cursor ?t i)) (sc_got ?t i)"
    using got_ok_snoc [OF d(6)] by simp
  show "unat (sc_cursor ?t i) \<le> length (sc_hist s)" using s c by simp
qed (use shm_sys_invD [OF assms(1)] in simp_all)

lemma shm_step_inv:
  assumes "shm_step C wd s t" "shm_sys_inv C wd s" "length (sc_hist t) < 2 ^ 63"
  shows "shm_sys_inv C wd t"
  using assms
proof (cases rule: shm_step.cases)
  case (c_cursor i)
  note d = shm_sys_invD(1,2) [OF assms(2)] shm_sys_invD(3-6) [OF assms(2), where i = i]
  show ?thesis unfolding c_cursor
    by (rule consumer_keeps [OF assms(2), where i = i])
      (use shm_sys_invD [OF assms(2)] c_cursor segment_shapeD(3) [OF d(1)] got_ok_forward [OF d(6)] in
        \<open>simp_all add: shm_make_cursor_def\<close>)
next
  case (c_ready i)
  note d = shm_sys_invD(1,2) [OF assms(2)] shm_sys_invD(3-6) [OF assms(2), where i = i]
  have c: "unat (sc_cursor s i) < length (sc_hist s)" using d(5) c_ready by simp
  have "seq_at (sc_seg s) (unat (sc_cursor s i) mod unat C) = 2 * unat (sc_cursor s i) + 1"
    using cursor_seq_iff [OF d(1) c] assms(3) c_ready by simp
  then show ?thesis unfolding c_ready(1)
    by (intro consumer_keeps [OF assms(2), where i = i]) (use shm_sys_invD [OF assms(2)] c in simp_all)
next
  case (c_not_ready i)
  show ?thesis unfolding c_not_ready
    by (rule consumer_keeps [OF assms(2), where i = i]) (use shm_sys_invD [OF assms(2)] in simp_all)
next
  case (c_torn i)
  show ?thesis unfolding c_torn
    by (rule consumer_keeps [OF assms(2), where i = i]) (use shm_sys_invD [OF assms(2)] in simp_all)
qed (simp_all add: p_claim_inv p_begin_inv p_cell_inv p_publish_inv p_beat_inv c_cell_inv c_load_inv c_done_inv)

lemma shm_step_hist: "shm_step C wd s t \<Longrightarrow> length (sc_hist s) \<le> length (sc_hist t)"
  by (induction rule: shm_step.induct) simp_all

lemma shm_init_inv:
  assumes "shm_sys_init C wd s"
  shows "shm_sys_inv C wd s"
proof -
  from assms obtain zero where z: "length zero = wd" "sc_seg s = shm_init C zero" "valid_capacity C"
    by (auto simp: shm_sys_init_def)
  have at: "seq_at (shm_init C zero) i = 0" "data_at (shm_init C zero) i = zero" if "i < unat C" for i
    using that by (simp_all add: seq_at_def data_at_def shm_init_def)
  then have "segment_shape C wd (shm_init C zero) []" "prod_ok (unat C) (shm_init C zero) [] P_Idle"
    using z by (simp_all add: segment_shape_def slot_settled_def) (simp_all add: shm_init_def)
  moreover have "got_ok [] 0 []" by (simp add: got_ok_def)
  ultimately show ?thesis
    using assms z by (simp add: shm_sys_inv_def shm_sys_init_def make_cursor_from_start_def)
qed

interpretation shm_run: bounded_invariant_system
  "shm_sys_init C wd" "shm_step C wd" "shm_sys_inv C wd" "\<lambda>s. length (sc_hist s)" "2 ^ 63"
  for C wd
proof (unfold_locales, goal_cases)
  case (1 s) then show ?case by (rule shm_init_inv)
next
  case (2 s t) then show ?case by (rule shm_step_hist)
next
  case (3 s t) then show ?case by (rule shm_step_inv)
qed

section \<open>Uninterrupted runs are the sequential operations\<close>

definition merge :: "nat set \<Rightarrow> 'b list \<Rightarrow> 'b list \<Rightarrow> 'b list" where
  "merge rem item d = map (\<lambda>k. if k \<in> rem then item ! k else d ! k) [0..<length d]"

lemma merge_empty: "merge {} item d = d"
  by (simp add: merge_def map_nth)

lemma merge_insert: "merge F item (d[k := item ! k]) = merge (insert k F) item d"
  by (rule nth_equalityI) (auto simp: merge_def nth_list_update)

lemma merge_all: "length item = length d \<Longrightarrow> merge {..<length d} item d = item"
  by (rule nth_equalityI) (simp_all add: merge_def)

lemma copy_payload_twice:
  assumes "slot_index C pos < length (shm_slots seg)"
  shows "copy_payload C pos b (copy_payload C pos a seg) = copy_payload C pos b seg"
    "slot_data (slot_at C pos (copy_payload C pos a seg)) = a"
    "length (shm_slots (copy_payload C pos a seg)) = length (shm_slots seg)"
  using assms by (simp_all add: copy_payload_def slot_at_def)

lemma copy_cells_run:
  assumes "finite rem" "sc_prod s = P_Copying pos item rem" "slot_index C pos < length (shm_slots (sc_seg s))"
  shows "(shm_step C wd)\<^sup>*\<^sup>* s (s\<lparr>sc_seg := copy_payload C pos (merge rem item (slot_data (slot_at C pos (sc_seg s)))) (sc_seg s),
    sc_prod := P_Copying pos item {}\<rparr>)"
  using assms
proof (induction rem arbitrary: s rule: finite_induct)
  case empty
  have "copy_payload C pos (slot_data (slot_at C pos (sc_seg s))) (sc_seg s) = sc_seg s"
    by (simp add: copy_payload_def slot_at_def)
  moreover have "s\<lparr>sc_prod := P_Copying pos item {}\<rparr> = s" using empty(1) by (cases s) simp
  ultimately show ?case by (simp add: merge_empty)
next
  case (insert k F)
  let ?seg = "write_cell C pos k (item ! k) (sc_seg s)"
  let ?t = "s\<lparr>sc_seg := ?seg, sc_prod := P_Copying pos item F\<rparr>"
  have "shm_step C wd s ?t"
    using p_cell [where C = C and wd = wd, OF insert.prems(1), of k] insert.hyps(2) by simp
  also have "(shm_step C wd)\<^sup>*\<^sup>* ?t (?t\<lparr>sc_seg := copy_payload C pos (merge F item (slot_data (slot_at C pos (sc_seg ?t)))) (sc_seg ?t),
    sc_prod := P_Copying pos item {}\<rparr>)"
    by (rule insert.IH) (use insert.prems(2) in \<open>simp_all add: write_cell_def copy_payload_twice\<close>)
  finally (converse_rtranclp_into_rtranclp) show ?case
    using insert.prems(2) by (simp add: write_cell_def copy_payload_twice merge_insert)
qed

lemma push_run:
  assumes inv: "shm_sys_inv C wd s" and idle: "sc_prod s = P_Idle" and item: "length item = wd"
  shows "(shm_step C wd)\<^sup>*\<^sup>* s (s\<lparr>sc_seg := snd (shm_push C now item (sc_seg s)), sc_hist := sc_hist s @ [item]\<rparr>)"
proof -
  define pos where "pos = write_pos (sc_seg s)"
  define seg1 where "seg1 = (sc_seg s)\<lparr>write_pos := pos + 1\<rparr>"
  define seg2 where "seg2 = store_sequence C pos (pos * 2) seg1"
  define seg3 where "seg3 = copy_payload C pos item seg2"
  define seg4 where "seg4 = store_sequence C pos (pos * 2 + 1) seg3"
  note sh = segment_shapeD [OF shm_sys_invD(1) [OF inv]]
  have ix: "slot_index C pos < unat C" using sh(1,6) by (simp add: slot_index_mod)
  have d: "slot_data (slot_at C pos seg2) = data_at (sc_seg s) (slot_index C pos)"
    using ix sh(2) by (simp add: seg2_def seg1_def store_sequence_def slot_at_def data_at_def)
  have m: "merge {..<wd} item (slot_data (slot_at C pos seg2)) = item"
    using merge_all [of item "slot_data (slot_at C pos seg2)"] sh(4) [OF ix] d item by simp
  let ?t = "\<lambda>seg pc. s\<lparr>sc_hist := sc_hist s @ [item], sc_seg := seg, sc_prod := pc\<rparr>"
  have "shm_step C wd s (?t seg1 (P_Claimed pos item))"
    using p_claim [OF idle item, of pos seg1 C] by (cases s) (simp add: push_claim_def pos_def seg1_def)
  moreover have "shm_step C wd (?t seg1 (P_Claimed pos item)) (?t seg2 (P_Copying pos item {..<wd}))"
    using p_begin [of "?t seg1 (P_Claimed pos item)" pos item C wd] by (simp add: seg2_def)
  moreover have "(shm_step C wd)\<^sup>*\<^sup>* (?t seg2 (P_Copying pos item {..<wd})) (?t seg3 (P_Copying pos item {}))"
    using copy_cells_run [of "{..<wd}" "?t seg2 (P_Copying pos item {..<wd})" pos item C wd] ix sh(2) m
    by (simp add: seg3_def) (simp add: seg2_def seg1_def store_sequence_def)
  moreover have "shm_step C wd (?t seg3 (P_Copying pos item {})) (?t seg4 P_Beat)"
    using p_publish [of "?t seg3 (P_Copying pos item {})" pos item C wd] by (simp add: seg4_def)
  moreover have "shm_step C wd (?t seg4 P_Beat) (?t (beat now seg4) P_Idle)"
    using p_beat [of "?t seg4 P_Beat" C wd now] by simp
  moreover have "?t (beat now seg4) P_Idle = s\<lparr>sc_seg := snd (shm_push C now item (sc_seg s)), sc_hist := sc_hist s @ [item]\<rparr>"
    using idle by (cases s) (simp add: shm_push_def push_claim_def Let_def seg1_def seg2_def seg3_def seg4_def pos_def)
  ultimately show ?thesis
    by (metis (no_types, lifting) converse_rtranclp_into_rtranclp r_into_rtranclp rtranclp_trans)
qed

text \<open>The bridge to the sequential contract: between two pushes the segment holds the history.\<close>

lemma settled_history:
  assumes "shm_sys_inv C wd s" "sc_prod s = P_Idle" "length (sc_hist s) < 2 ^ 63"
  shows "shm_history C (sc_seg s) (sc_hist s)"
proof -
  note d = shm_sys_invD(1,2) [OF assms(1)] and sh = segment_shapeD [OF shm_sys_invD(1) [OF assms(1)]]
  let ?n = "length (sc_hist s)"
  have "shm_slots (sc_seg s) ! (p mod unat C) = \<lparr>slot_seq = of_nat p * 2 + 1, slot_data = sc_hist s ! p\<rparr>"
    if p: "p < ?n" "?n \<le> p + unat C" for p
  proof -
    have lt: "p mod unat C < unat C" using sh(6) by simp
    have "slot_settled (unat C) (sc_seg s) (sc_hist s) ?n (p mod unat C)" using d(2) assms(2) lt by simp
    moreover have "\<not> ?n \<le> p mod unat C" using p by (meson mod_less_eq_dividend leD le_less_trans)
    ultimately obtain q where q: "q < ?n" "?n \<le> q + unat C" "q mod unat C = p mod unat C"
      "seq_at (sc_seg s) (p mod unat C) = 2 * q + 1" "data_at (sc_seg s) (p mod unat C) = sc_hist s ! q"
      by (auto simp: slot_settled_def)
    have "q = p" using window_mod_inj [OF q(3,1) p(1) q(2) p(2)] .
    moreover have "unat (of_nat p :: u64) = p" using p(1) assms(3) by (simp add: unat_of_nat_u64)
    ultimately have "slot_seq (shm_slots (sc_seg s) ! (p mod unat C)) = of_nat p * 2 + 1"
      using expected_seq_iff [of "of_nat p"] q(4) p(1) assms(3) by (simp add: seq_at_def)
    then show ?thesis using q(5) \<open>q = p\<close> by (simp add: data_at_def shm_slot.equality)
  qed
  then show ?thesis using sh assms(3) by (simp add: shm_history_def)
qed

lemma copy_out_run:
  assumes "finite rem" "sc_pc s i = C_Copying rem"
  shows "(shm_step C wd)\<^sup>*\<^sup>* s (s\<lparr>sc_out := (sc_out s)(i := merge rem (slot_data (slot_at C (sc_cursor s i) (sc_seg s))) (sc_out s i)),
    sc_pc := (sc_pc s)(i := C_Copying {})\<rparr>)"
  using assms
proof (induction rem arbitrary: s rule: finite_induct)
  case empty
  have id: "s\<lparr>sc_out := (sc_out s)(i := sc_out s i), sc_pc := (sc_pc s)(i := C_Copying {})\<rparr> = s"
    using empty(1) by (cases s) (simp add: fun_upd_idem)
  show ?case unfolding merge_empty id by (rule rtranclp.rtrancl_refl)
next
  case (insert k F)
  let ?d = "slot_data (slot_at C (sc_cursor s i) (sc_seg s))"
  let ?t = "s\<lparr>sc_out := (sc_out s)(i := (sc_out s i)[k := ?d ! k]), sc_pc := (sc_pc s)(i := C_Copying F)\<rparr>"
  have "shm_step C wd s ?t"
    using c_cell [where C = C and wd = wd, OF insert.prems(1), of k] insert.hyps(2) by simp
  also have "(shm_step C wd)\<^sup>*\<^sup>* ?t (?t\<lparr>sc_out := (sc_out ?t)(i := merge F (slot_data (slot_at C (sc_cursor ?t i) (sc_seg ?t))) (sc_out ?t i)),
    sc_pc := (sc_pc ?t)(i := C_Copying {})\<rparr>)"
    by (rule insert.IH) simp
  finally (converse_rtranclp_into_rtranclp) show ?case by (simp add: merge_insert) (simp add: fun_upd_def)
qed

text \<open>The system after a consumer's \<open>pop\<close> that no other thread interrupts.\<close>

definition after_pop :: "u64 \<Rightarrow> nat \<Rightarrow> 'b shm_sys \<Rightarrow> 'b shm_sys" where
  "after_pop C i s =
     (case shm_pop C (sc_cursor s i) (sc_out s i) (sc_seg s) of
        (ok, c', out') \<Rightarrow> s\<lparr>sc_cursor := (sc_cursor s)(i := c'), sc_out := (sc_out s)(i := out'),
          sc_got := (sc_got s)(i := sc_got s i @ (if ok then [(unat c' - 1, out')] else []))\<rparr>)"

lemma shm_pop_ready:
  assumes "c0 < write_pos seg" "c = fast_forward C (write_pos seg) c0" "slot_seq (slot_at C c seg) = c * 2 + 1"
  shows "shm_pop C c0 out seg = (True, c + 1, slot_data (slot_at C c seg))"
  using assms(1,3) by (simp add: not_le [symmetric] shm_pop_def pop_reads_def Let_def slot_at_def flip: assms(2))

lemma shm_pop_not_ready:
  assumes "c0 < write_pos seg" "c = fast_forward C (write_pos seg) c0" "slot_seq (slot_at C c seg) \<noteq> c * 2 + 1"
  shows "shm_pop C c0 out seg = (False, c, out)"
  using assms(1,3) by (simp add: not_le [symmetric] shm_pop_def pop_reads_def Let_def slot_at_def flip: assms(2))

lemma pop_run_ready:
  assumes inv: "shm_sys_inv C wd s" and idle: "sc_pc s i = C_Idle" and n: "length (sc_hist s) < 2 ^ 63"
    and lt: "sc_cursor s i < write_pos (sc_seg s)"
    and c: "c = fast_forward C (write_pos (sc_seg s)) (sc_cursor s i)"
    and sq: "slot_seq (slot_at C c (sc_seg s)) = c * 2 + 1"
  shows "(shm_step C wd)\<^sup>*\<^sup>* s (after_pop C i s)"
proof -
  let ?d = "slot_data (slot_at C c (sc_seg s))"
  let ?t = "\<lambda>cur pc. s\<lparr>sc_cursor := (sc_cursor s)(i := cur), sc_pc := (sc_pc s)(i := pc)\<rparr>"
  note d = shm_sys_invD(1,2) [OF inv] shm_sys_invD(3-6) [OF inv, where i = i]
  note sh = segment_shapeD [OF d(1)]
  have cn: "unat c = max (unat (sc_cursor s i)) (unat (write_pos (sc_seg s)) - unat C)"
    using fast_forward_nat lt c by (simp add: word_less_nat_alt)
  then have "unat c < length (sc_hist s)" using lt sh(3,6) by (auto simp: word_less_nat_alt)
  then have c1: "unat (c + 1) = Suc (unat c)" using n unat_suc_u64 [of c] by simp
  have "length ?d = wd" using sh(4,6) by (simp add: cursor_slot [OF d(1)] flip: data_at_def)
  then have m: "merge {..<wd} ?d (sc_out s i) = ?d" using merge_all [of ?d "sc_out s i"] d(4) by simp
  have "shm_step C wd s (?t c C_Check)"
    using c_load [where C = C and wd = wd, OF idle lt] by (simp add: c)
  moreover have "shm_step C wd (?t c C_Check) (?t c (C_Copying {..<wd}))"
    using c_ready [of "?t c C_Check" i C wd] sq by simp
  moreover have "(shm_step C wd)\<^sup>*\<^sup>* (?t c (C_Copying {..<wd}))
      ((?t c (C_Copying {}))\<lparr>sc_out := (sc_out s)(i := ?d)\<rparr>)"
    using copy_out_run [of "{..<wd}" "?t c (C_Copying {..<wd})" i C wd] m by (cases s) simp
  moreover have "shm_step C wd ((?t c (C_Copying {}))\<lparr>sc_out := (sc_out s)(i := ?d)\<rparr>)
      (s\<lparr>sc_cursor := (sc_cursor s)(i := c + 1), sc_out := (sc_out s)(i := ?d),
        sc_got := (sc_got s)(i := sc_got s i @ [(unat c, ?d)])\<rparr>)"
    using c_done [of "(?t c (C_Copying {}))\<lparr>sc_out := (sc_out s)(i := ?d)\<rparr>" i C wd] sq idle
    by (cases s) (simp add: fun_upd_idem)
  moreover have "s\<lparr>sc_cursor := (sc_cursor s)(i := c + 1), sc_out := (sc_out s)(i := ?d),
        sc_got := (sc_got s)(i := sc_got s i @ [(unat c, ?d)])\<rparr> = after_pop C i s"
    using shm_pop_ready [OF lt c sq, of "sc_out s i"] c1 by (simp add: after_pop_def)
  ultimately show ?thesis
    by (metis (no_types, lifting) converse_rtranclp_into_rtranclp r_into_rtranclp rtranclp_trans)
qed

lemma pop_run:
  assumes inv: "shm_sys_inv C wd s" and idle: "sc_pc s i = C_Idle" and n: "length (sc_hist s) < 2 ^ 63"
  shows "(shm_step C wd)\<^sup>*\<^sup>* s (after_pop C i s)"
proof -
  define c where "c = fast_forward C (write_pos (sc_seg s)) (sc_cursor s i)"
  let ?t = "\<lambda>pc. s\<lparr>sc_cursor := (sc_cursor s)(i := c), sc_pc := (sc_pc s)(i := pc)\<rparr>"
  consider "write_pos (sc_seg s) \<le> sc_cursor s i"
    | "sc_cursor s i < write_pos (sc_seg s)" "slot_seq (slot_at C c (sc_seg s)) = c * 2 + 1"
    | "sc_cursor s i < write_pos (sc_seg s)" "slot_seq (slot_at C c (sc_seg s)) \<noteq> c * 2 + 1"
    by fastforce
  then show ?thesis
  proof cases
    case 1
    then have "after_pop C i s = s"
      by (cases s) (simp add: after_pop_def shm_pop_def pop_reads_def fun_upd_idem)
    then show ?thesis by simp
  next
    case 2
    then show ?thesis using pop_run_ready [OF inv idle n _ c_def] by simp
  next
    case 3
    have "shm_step C wd s (?t C_Check)"
      using c_load [where C = C and wd = wd, OF idle 3(1)] by (simp add: c_def)
    moreover have "shm_step C wd (?t C_Check) (?t C_Idle)"
      using c_not_ready [of "?t C_Check" i C wd] 3(2) by simp
    moreover have "?t C_Idle = after_pop C i s"
      using shm_pop_not_ready [OF 3(1) c_def 3(2), of "sc_out s i"] idle
      by (cases s) (simp add: after_pop_def fun_upd_idem)
    ultimately show ?thesis by (metis converse_rtranclp_into_rtranclp r_into_rtranclp)
  qed
qed

section \<open>Properties\<close>

definition shm_start :: "u64 \<Rightarrow> nat \<Rightarrow> 'b \<Rightarrow> 'b shm_sys" where
  "shm_start C wd b = \<lparr>sc_seg = shm_init C (replicate wd b), sc_prod = P_Idle, sc_pc = (\<lambda>_. C_Idle),
     sc_cursor = (\<lambda>_. make_cursor_from_start), sc_out = (\<lambda>_. replicate wd b), sc_hist = [], sc_got = (\<lambda>_. [])\<rparr>"

lemma shm_start_reachable:
  "valid_capacity C \<Longrightarrow> reachable (shm_sys_init C wd) (shm_step C wd) (shm_start C wd b)"
  by (rule reach_init) (auto simp: shm_sys_init_def shm_start_def intro: exI [of _ "replicate wd b"])

text \<open>
  C1. No torn, stale, repeated or reordered delivery under concurrency. Whatever the interleaving of
  the producer's and the consumers' accesses, cell by cell of the copied payloads, the payloads a
  consumer's \<open>pop\<close> returned with \<open>true\<close> are whole payloads of the push history, at strictly increasing
  positions. The bound is where a sequence number would wrap.
\<close>

theorem shm_concurrent_delivery:
  assumes "reachable (shm_sys_init C wd) (shm_step C wd) s" "length (sc_hist s) < 2 ^ 63"
  shows "\<exists>ps. sorted_wrt (<) ps \<and> set ps \<subseteq> {..<length (sc_hist s)} \<and>
    sc_got s i = map (\<lambda>p. (p, sc_hist s ! p)) ps"
proof -
  have inv: "shm_sys_inv C wd s" by (rule shm_run.reachable_below_inv [OF assms])
  then show ?thesis using shm_sys_invD(3,6) [OF inv, where i = i] by (fastforce simp: got_ok_def)
qed

theorem shm_concurrent_delivery_witness:
  "\<exists>s :: nat shm_sys. reachable (shm_sys_init 2 1) (shm_step 2 1) s \<and> sc_got s 4 = [(0, [7])] \<and>
    (\<exists>ps. sorted_wrt (<) ps \<and> set ps \<subseteq> {..<length (sc_hist s)} \<and> sc_got s 4 = map (\<lambda>p. (p, sc_hist s ! p)) ps)"
proof -
  let ?s = "shm_start 2 1 (0::nat)"
  let ?t = "?s\<lparr>sc_seg := snd (shm_push 2 5 [7] (sc_seg ?s)), sc_hist := sc_hist ?s @ [[7]]\<rparr>"
  have C: "valid_capacity 2" by (simp add: valid_capacity_def)
  have r: "reachable (shm_sys_init 2 1) (shm_step 2 1) ?s" by (rule shm_start_reachable [OF C])
  have "(shm_step 2 1)\<^sup>*\<^sup>* ?s ?t"
    by (rule push_run [OF shm_run.reachable_below_inv [OF r]]) (simp_all add: shm_start_def)
  then have r': "reachable (shm_sys_init 2 1) (shm_step 2 1) ?t" using r by (rule reachable_run)
  have "(shm_step 2 1)\<^sup>*\<^sup>* ?t (after_pop 2 4 ?t)"
    by (rule pop_run [OF shm_run.reachable_below_inv [OF r']]) (simp_all add: shm_start_def)
  then have r'': "reachable (shm_sys_init 2 1) (shm_step 2 1) (after_pop 2 4 ?t)" using r' by (rule reachable_run)
  have g: "sc_got (after_pop 2 4 ?t) 4 = [(0, [7])]" "length (sc_hist (after_pop 2 4 ?t)) < 2 ^ 63"
    by (simp_all add: after_pop_def shm_start_def shm_push_eq C shm_init_def shm_pop_def pop_reads_def
        fast_forward_def make_cursor_from_start_def slot_index_def kMask_def)
  then show ?thesis using r'' shm_concurrent_delivery [OF r'' g(2), of 4] by blast
qed



text \<open>
  A message is there for a consumer whenever the producer is between two calls: then a \<open>pop\<close>
  that runs uninterrupted returns \<open>true\<close> exactly when the cursor is behind the write position, with
  the oldest item still in the ring at or after the cursor.
\<close>

theorem shm_quiescent_pop:
  assumes "reachable (shm_sys_init C wd) (shm_step C wd) s" "length (sc_hist s) < 2 ^ 63" "sc_prod s = P_Idle"
  shows "shm_pop C (sc_cursor s i) out (sc_seg s) =
    (if unat (sc_cursor s i) < length (sc_hist s)
     then let p = max (unat (sc_cursor s i)) (length (sc_hist s) - unat C) in (True, of_nat (Suc p), sc_hist s ! p)
     else (False, sc_cursor s i, out))"
proof -
  have inv: "shm_sys_inv C wd s" by (rule shm_run.reachable_below_inv [OF assms(1,2)])
  have h: "shm_history C (sc_seg s) (sc_hist s)" by (rule settled_history [OF inv assms(3,2)])
  show ?thesis
    using shm_pop_behind [OF h, of "sc_cursor s i" out] shm_pop_at_head [OF h, of "sc_cursor s i" out] by simp
qed

theorem shm_quiescent_pop_witness:
  "shm_pop 2 (sc_cursor (shm_start 2 1 (0::nat)) 3) [8] (sc_seg (shm_start 2 1 (0::nat))) = (False, 0, [8])"
  using shm_quiescent_pop [OF shm_start_reachable [of 2 1 "0::nat"], of 3 "[8]"]
  by (simp add: shm_start_def valid_capacity_def make_cursor_from_start_def)

end
