(* ===== verification/Shm_Ring_Weak.thy ===== *)
theory Shm_Ring_Weak
  imports Sync_Policy Shm_Ring_Concurrent
begin

text \<open>
  The ring buffers on the memory model of the policies: one producer and any number of consumers,
  where a load may return an old message. The model has the accesses of \<open>push\<close> and \<open>pop\<close> with the
  orders the code gives them, for \<open>ShmRingBuffer\<close> under each policy and for \<open>IntraRingBuffer\<close>. The
  cells of the two \<open>memcpy\<close> calls are relaxed accesses, the weakest that the language gives a
  meaning to. It shows what a \<open>true\<close> of \<open>pop\<close> vouches for once the accesses are not interleaved.
\<close>

section \<open>The orders of the two ring buffers\<close>

record ring_orders =
  claim_order :: memory_order
  begin_order :: memory_order
  publish_order :: memory_order
  read_order :: memory_order
  has_heartbeat :: bool

definition shm_orders :: "sync_policy \<Rightarrow> ring_orders" where
  "shm_orders P = \<lparr>claim_order = fetch_add_order P, begin_order = store_order P, publish_order = store_order P,
     read_order = load_order P, has_heartbeat = True\<rparr>"

definition intra_orders :: ring_orders where
  "intra_orders = \<lparr>claim_order = memory_order_acq_rel, begin_order = memory_order_relaxed,
     publish_order = memory_order_release, read_order = memory_order_acquire, has_heartbeat = False\<rparr>"

definition orders_publish :: "ring_orders \<Rightarrow> bool" where
  "orders_publish R \<longleftrightarrow> releases (publish_order R) \<and> acquires (read_order R)"

lemma orders_publish_shm [simp]: "orders_publish (shm_orders P) = publishing P"
  by (simp add: orders_publish_def shm_orders_def publishing_def)

lemma orders_publish_intra [simp]: "orders_publish intra_orders"
  by (simp add: orders_publish_def intra_orders_def)

section \<open>The system\<close>

datatype shm_loc = Write_Pos | Heartbeat | Sequence nat | Data nat nat

type_synonym shm_memory = "(shm_loc, u64) memory"

text \<open>
  The thread-local state of each side is as in the interleaved model, with a view per thread.
  \<open>wm_hist\<close> has the payloads whose \<open>push\<close> has claimed a position; an entry of \<open>wm_got\<close> is the position
  and the payload of a \<open>pop\<close> that returned \<open>true\<close> and the number of claims at that moment.
\<close>

record weak_sys =
  wm_mem :: shm_memory
  wm_prod :: "u64 prod_pc"
  wm_pview :: "shm_loc view"
  wm_pc :: "nat \<Rightarrow> cons_pc"
  wm_view :: "nat \<Rightarrow> shm_loc view"
  wm_cursor :: "nat \<Rightarrow> Cursor"
  wm_out :: "nat \<Rightarrow> u64 list"
  wm_hist :: "u64 list list"
  wm_got :: "nat \<Rightarrow> (nat \<times> u64 list \<times> nat) list"

definition weak_mem_init :: shm_memory where
  "weak_mem_init = (\<lambda>_. [\<lparr>msg_val = 0, msg_view = empty_view\<rparr>])"

definition weak_init :: "u64 \<Rightarrow> nat \<Rightarrow> weak_sys \<Rightarrow> bool" where
  "weak_init C wd s \<longleftrightarrow>
     valid_capacity C \<and> wm_mem s = weak_mem_init \<and> wm_prod s = P_Idle \<and> wm_pview s = empty_view \<and>
     wm_pc s = (\<lambda>_. C_Idle) \<and> wm_view s = (\<lambda>_. empty_view) \<and> wm_cursor s = (\<lambda>_. make_cursor_from_start) \<and>
     (\<forall>i. length (wm_out s i) = wd) \<and> wm_hist s = [] \<and> wm_got s = (\<lambda>_. [])"

text \<open>Only \<open>ShmRingBuffer\<close> ends a push with a heartbeat.\<close>

definition after_publish :: "ring_orders \<Rightarrow> u64 prod_pc" where
  "after_publish R = (if has_heartbeat R then P_Beat else P_Idle)"

inductive weak_step :: "ring_orders \<Rightarrow> u64 \<Rightarrow> nat \<Rightarrow> weak_sys \<Rightarrow> weak_sys \<Rightarrow> bool"
  for R :: ring_orders and C :: u64 and wd :: nat where
  w_claim: "wm_prod s = P_Idle \<Longrightarrow> length item = wd \<Longrightarrow>
    atomic_rmw (claim_order R) Write_Pos (\<lambda>x. x + 1) (wm_mem s) (wm_pview s) = (pos, m, V) \<Longrightarrow>
    weak_step R C wd s (s\<lparr>wm_mem := m, wm_pview := V, wm_prod := P_Claimed pos item, wm_hist := wm_hist s @ [item]\<rparr>)"
| w_begin: "wm_prod s = P_Claimed pos item \<Longrightarrow>
    atomic_store (begin_order R) (Sequence (slot_index C pos)) (pos * 2) (wm_mem s) (wm_pview s) = (m, V) \<Longrightarrow>
    weak_step R C wd s (s\<lparr>wm_mem := m, wm_pview := V, wm_prod := P_Copying pos item {..<wd}\<rparr>)"
| w_cell: "wm_prod s = P_Copying pos item rem \<Longrightarrow> k \<in> rem \<Longrightarrow>
    atomic_store memory_order_relaxed (Data (slot_index C pos) k) (item ! k) (wm_mem s) (wm_pview s) = (m, V) \<Longrightarrow>
    weak_step R C wd s (s\<lparr>wm_mem := m, wm_pview := V, wm_prod := P_Copying pos item (rem - {k})\<rparr>)"
| w_publish: "wm_prod s = P_Copying pos item {} \<Longrightarrow>
    atomic_store (publish_order R) (Sequence (slot_index C pos)) (pos * 2 + 1) (wm_mem s) (wm_pview s) = (m, V) \<Longrightarrow>
    weak_step R C wd s (s\<lparr>wm_mem := m, wm_pview := V, wm_prod := after_publish R\<rparr>)"
| w_beat: "wm_prod s = P_Beat \<Longrightarrow>
    atomic_store memory_order_relaxed Heartbeat now (wm_mem s) (wm_pview s) = (m, V) \<Longrightarrow>
    weak_step R C wd s (s\<lparr>wm_mem := m, wm_pview := V, wm_prod := P_Idle\<rparr>)"
| w_cursor: "wm_pc s i = C_Idle \<Longrightarrow>
    atomic_load (read_order R) Write_Pos t (wm_mem s) (wm_view s i) = Some (w, V) \<Longrightarrow>
    weak_step R C wd s (s\<lparr>wm_view := (wm_view s)(i := V), wm_cursor := (wm_cursor s)(i := w)\<rparr>)"
| w_empty: "wm_pc s i = C_Idle \<Longrightarrow>
    atomic_load (read_order R) Write_Pos t (wm_mem s) (wm_view s i) = Some (w, V) \<Longrightarrow> w \<le> wm_cursor s i \<Longrightarrow>
    weak_step R C wd s (s\<lparr>wm_view := (wm_view s)(i := V)\<rparr>)"
| w_load: "wm_pc s i = C_Idle \<Longrightarrow>
    atomic_load (read_order R) Write_Pos t (wm_mem s) (wm_view s i) = Some (w, V) \<Longrightarrow> wm_cursor s i < w \<Longrightarrow>
    weak_step R C wd s (s\<lparr>wm_view := (wm_view s)(i := V),
      wm_cursor := (wm_cursor s)(i := fast_forward C w (wm_cursor s i)), wm_pc := (wm_pc s)(i := C_Check)\<rparr>)"
| w_not_ready: "wm_pc s i = C_Check \<Longrightarrow>
    atomic_load (read_order R) (Sequence (slot_index C (wm_cursor s i))) t (wm_mem s) (wm_view s i) = Some (q, V) \<Longrightarrow>
    q \<noteq> wm_cursor s i * 2 + 1 \<Longrightarrow>
    weak_step R C wd s (s\<lparr>wm_view := (wm_view s)(i := V), wm_pc := (wm_pc s)(i := C_Idle)\<rparr>)"
| w_ready: "wm_pc s i = C_Check \<Longrightarrow>
    atomic_load (read_order R) (Sequence (slot_index C (wm_cursor s i))) t (wm_mem s) (wm_view s i) = Some (q, V) \<Longrightarrow>
    q = wm_cursor s i * 2 + 1 \<Longrightarrow>
    weak_step R C wd s (s\<lparr>wm_view := (wm_view s)(i := V), wm_pc := (wm_pc s)(i := C_Copying {..<wd})\<rparr>)"
| w_copy: "wm_pc s i = C_Copying rem \<Longrightarrow> k \<in> rem \<Longrightarrow>
    atomic_load memory_order_relaxed (Data (slot_index C (wm_cursor s i)) k) t (wm_mem s) (wm_view s i) = Some (b, V) \<Longrightarrow>
    weak_step R C wd s (s\<lparr>wm_view := (wm_view s)(i := V), wm_out := (wm_out s)(i := (wm_out s i)[k := b]),
      wm_pc := (wm_pc s)(i := C_Copying (rem - {k}))\<rparr>)"
| w_torn: "wm_pc s i = C_Copying {} \<Longrightarrow>
    atomic_load (read_order R) (Sequence (slot_index C (wm_cursor s i))) t (wm_mem s) (wm_view s i) = Some (q, V) \<Longrightarrow>
    q \<noteq> wm_cursor s i * 2 + 1 \<Longrightarrow>
    weak_step R C wd s (s\<lparr>wm_view := (wm_view s)(i := V), wm_pc := (wm_pc s)(i := C_Idle)\<rparr>)"
| w_done: "wm_pc s i = C_Copying {} \<Longrightarrow>
    atomic_load (read_order R) (Sequence (slot_index C (wm_cursor s i))) t (wm_mem s) (wm_view s i) = Some (q, V) \<Longrightarrow>
    q = wm_cursor s i * 2 + 1 \<Longrightarrow>
    weak_step R C wd s (s\<lparr>wm_view := (wm_view s)(i := V), wm_cursor := (wm_cursor s)(i := wm_cursor s i + 1),
      wm_pc := (wm_pc s)(i := C_Idle),
      wm_got := (wm_got s)(i := wm_got s i @ [(unat (wm_cursor s i), wm_out s i, length (wm_hist s))])\<rparr>)"


section \<open>The invariant\<close>

text \<open>How often slot \<open>i\<close> has been used by the first \<open>m\<close> positions.\<close>

fun laps :: "nat \<Rightarrow> nat \<Rightarrow> nat \<Rightarrow> nat" where
  "laps N 0 i = 0"
| "laps N (Suc m) i = laps N m i + (if m mod N = i then 1 else 0)"

lemma laps_eq: "i < N \<Longrightarrow> laps N m i = m div N + (if i < m mod N then 1 else 0)"
proof (induction m)
  case (Suc m)
  then have n: "0 < N" "m mod N < N" by auto
  show ?case
  proof (cases "Suc (m mod N) = N")
    case True
    then have "Suc m mod N = 0" "Suc m div N = Suc (m div N)" using n by (simp_all add: mod_Suc div_Suc)
    with True Suc show ?thesis by auto
  next
    case False
    then have "Suc m mod N = Suc (m mod N)" "Suc m div N = m div N" using n by (simp_all add: mod_Suc div_Suc)
    with False Suc show ?thesis by auto
  qed
qed simp

lemma laps_here: "0 < N \<Longrightarrow> laps N m (m mod N) = m div N"
  by (simp add: laps_eq)

definition mem_ok :: "u64 \<Rightarrow> nat \<Rightarrow> shm_memory \<Rightarrow> u64 list list \<Rightarrow> bool" where
  "mem_ok C wd m h \<longleftrightarrow>
     memory_wf m \<and> (\<forall>x\<in>set h. length x = wd) \<and>
     length (m Write_Pos) = Suc (length h) \<and> (\<forall>t\<le>length h. msg_val (m Write_Pos ! t) = of_nat t) \<and>
     (\<forall>i<unat C. \<forall>k<wd. \<forall>t. 0 < t \<longrightarrow> t < length (m (Data i k)) \<longrightarrow>
        i + (t - 1) * unat C < length h \<and> msg_val (m (Data i k) ! t) = h ! (i + (t - 1) * unat C) ! k) \<and>
     (\<forall>i<unat C. \<forall>t<length (m (Sequence i)). \<forall>p. unat (msg_val (m (Sequence i) ! t)) = 2 * p + 1 \<longrightarrow>
        p < length h \<and> p mod unat C = i \<and> (\<forall>k<wd. p div unat C < msg_view (m (Sequence i) ! t) (Data i k)))"

text \<open>The producer is the only writer, so its view is of the newest messages.\<close>

fun weak_prod_ok :: "nat \<Rightarrow> nat \<Rightarrow> shm_loc view \<Rightarrow> u64 list list \<Rightarrow> u64 prod_pc \<Rightarrow> bool" where
  "weak_prod_ok N wd V h P_Idle \<longleftrightarrow> (\<forall>i<N. \<forall>k<wd. V (Data i k) = laps N (length h) i)"
| "weak_prod_ok N wd V h P_Beat \<longleftrightarrow> (\<forall>i<N. \<forall>k<wd. V (Data i k) = laps N (length h) i)"
| "weak_prod_ok N wd V h (P_Claimed pos item) \<longleftrightarrow> length h = Suc (unat pos) \<and> h ! unat pos = item \<and>
     (\<forall>i<N. \<forall>k<wd. V (Data i k) = laps N (unat pos) i)"
| "weak_prod_ok N wd V h (P_Copying pos item rem) \<longleftrightarrow> length h = Suc (unat pos) \<and> h ! unat pos = item \<and> rem \<subseteq> {..<wd} \<and>
     (\<forall>i<N. \<forall>k<wd. V (Data i k) = laps N (unat pos) i + (if i = unat pos mod N \<and> k \<notin> rem then 1 else 0))"

text \<open>A cell read for position \<open>c\<close> is that of \<open>c\<close> or of a later position of the same slot.\<close>

definition cell_ok :: "nat \<Rightarrow> u64 list list \<Rightarrow> nat \<Rightarrow> nat \<Rightarrow> nat \<Rightarrow> u64 \<Rightarrow> bool" where
  "cell_ok N h m c k b \<longleftrightarrow> (\<exists>q<m. c \<le> q \<and> q mod N = c mod N \<and> b = h ! q ! k)"

fun weak_cons_ok :: "nat \<Rightarrow> nat \<Rightarrow> shm_loc view \<Rightarrow> u64 list list \<Rightarrow> nat \<Rightarrow> u64 list \<Rightarrow> cons_pc \<Rightarrow> bool" where
  "weak_cons_ok N wd V h c out C_Idle \<longleftrightarrow> c \<le> V Write_Pos"
| "weak_cons_ok N wd V h c out C_Check \<longleftrightarrow> c < V Write_Pos"
| "weak_cons_ok N wd V h c out (C_Copying rem) \<longleftrightarrow> c < V Write_Pos \<and> rem \<subseteq> {..<wd} \<and>
     (\<forall>k<wd. c div N < V (Data (c mod N) k)) \<and> (\<forall>k<wd. k \<notin> rem \<longrightarrow> cell_ok N h (length h) c k (out ! k))"

definition accepted_ok :: "nat \<Rightarrow> nat \<Rightarrow> u64 list list \<Rightarrow> nat \<times> u64 list \<times> nat \<Rightarrow> bool" where
  "accepted_ok N wd h e \<longleftrightarrow>
     (case e of (p, d, m) \<Rightarrow> p < m \<and> m \<le> length h \<and> length d = wd \<and> (\<forall>k<wd. cell_ok N h m p k (d ! k)))"

definition weak_got_ok :: "nat \<Rightarrow> nat \<Rightarrow> u64 list list \<Rightarrow> nat \<Rightarrow> (nat \<times> u64 list \<times> nat) list \<Rightarrow> bool" where
  "weak_got_ok N wd h c g \<longleftrightarrow>
     sorted_wrt (<) (map fst g) \<and> (\<forall>e\<in>set g. fst e < c) \<and> (\<forall>e\<in>set g. accepted_ok N wd h e)"

definition weak_thread_ok :: "nat \<Rightarrow> nat \<Rightarrow> shm_memory \<Rightarrow> u64 list list \<Rightarrow> shm_loc view \<Rightarrow> nat \<Rightarrow> u64 list \<Rightarrow> cons_pc \<Rightarrow>
    (nat \<times> u64 list \<times> nat) list \<Rightarrow> bool" where
  "weak_thread_ok N wd m h V c out pc g \<longleftrightarrow>
     view_wf m V \<and> length out = wd \<and> weak_cons_ok N wd V h c out pc \<and> weak_got_ok N wd h c g"

definition weak_inv :: "u64 \<Rightarrow> nat \<Rightarrow> weak_sys \<Rightarrow> bool" where
  "weak_inv C wd s \<longleftrightarrow>
     valid_capacity C \<and> mem_ok C wd (wm_mem s) (wm_hist s) \<and> (\<forall>l. length (wm_mem s l) = Suc (wm_pview s l)) \<and>
     weak_prod_ok (unat C) wd (wm_pview s) (wm_hist s) (wm_prod s) \<and>
     (\<forall>i. weak_thread_ok (unat C) wd (wm_mem s) (wm_hist s) (wm_view s i) (unat (wm_cursor s i)) (wm_out s i) (wm_pc s i) (wm_got s i))"

section \<open>What a step of one side keeps of the other\<close>

lemma cell_ok_mono: "cell_ok N h m c k b \<Longrightarrow> m \<le> m' \<Longrightarrow> m \<le> length h \<Longrightarrow> cell_ok N (h @ hs) m' c k b"
  unfolding cell_ok_def by (elim exE conjE, rule_tac x = q in exI) (simp add: nth_append)

lemma weak_cons_ok_mono: "weak_cons_ok N wd V h c out pc \<Longrightarrow> weak_cons_ok N wd V (h @ hs) c out pc"
  by (cases pc) (auto intro: cell_ok_mono)

lemma accepted_ok_mono: "accepted_ok N wd h e \<Longrightarrow> accepted_ok N wd (h @ hs) e"
  by (cases e) (auto simp: accepted_ok_def intro: cell_ok_mono)

lemma weak_got_ok_mono: "weak_got_ok N wd h c g \<Longrightarrow> c \<le> c' \<Longrightarrow> weak_got_ok N wd (h @ hs) c' g"
  unfolding weak_got_ok_def using accepted_ok_mono by fastforce

lemma weak_got_ok_forward: "weak_got_ok N wd h c g \<Longrightarrow> c \<le> c' \<Longrightarrow> weak_got_ok N wd h c' g"
  using weak_got_ok_mono [where hs = "[]"] by simp

lemma weak_thread_ok_mono:
  "weak_thread_ok N wd m h V c out pc g \<Longrightarrow> later m m' \<Longrightarrow> weak_thread_ok N wd m' (h @ hs) V c out pc g"
  by (simp add: weak_thread_ok_def view_wf_later weak_cons_ok_mono weak_got_ok_mono [OF _ order_refl])

lemma weak_invD:
  assumes "weak_inv C wd s"
  shows "valid_capacity C" "mem_ok C wd (wm_mem s) (wm_hist s)" "length (wm_mem s l) = Suc (wm_pview s l)"
    "weak_prod_ok (unat C) wd (wm_pview s) (wm_hist s) (wm_prod s)"
    "weak_thread_ok (unat C) wd (wm_mem s) (wm_hist s) (wm_view s i) (unat (wm_cursor s i)) (wm_out s i) (wm_pc s i) (wm_got s i)"
    "0 < unat C" "slot_index C pos = unat pos mod unat C" "unat pos mod unat C < unat C"
  using assms valid_capacity_ge2 [of C] by (auto simp: weak_inv_def slot_index_mod)

lemma mem_okD:
  assumes "mem_ok C wd m h"
  shows "memory_wf m" "x \<in> set h \<Longrightarrow> length x = wd" "length (m Write_Pos) = Suc (length h)"
    "t \<le> length h \<Longrightarrow> msg_val (m Write_Pos ! t) = of_nat t"
    "i < unat C \<Longrightarrow> k < wd \<Longrightarrow> 0 < t \<Longrightarrow> t < length (m (Data i k)) \<Longrightarrow>
       i + (t - 1) * unat C < length h \<and> msg_val (m (Data i k) ! t) = h ! (i + (t - 1) * unat C) ! k"
    "i < unat C \<Longrightarrow> t < length (m (Sequence i)) \<Longrightarrow> unat (msg_val (m (Sequence i) ! t)) = 2 * p + 1 \<Longrightarrow>
       p < length h \<and> p mod unat C = i \<and> (\<forall>k<wd. p div unat C < msg_view (m (Sequence i) ! t) (Data i k))"
  using assms by (auto simp: mem_ok_def)

lemma producer_step_keeps:
  assumes "weak_inv C wd s"
    and "wm_pc t = wm_pc s" "wm_view t = wm_view s" "wm_cursor t = wm_cursor s" "wm_out t = wm_out s" "wm_got t = wm_got s"
    and "wm_hist t = wm_hist s @ hs" "later (wm_mem s) (wm_mem t)"
    and "mem_ok C wd (wm_mem t) (wm_hist t)" "\<And>l. length (wm_mem t l) = Suc (wm_pview t l)"
    and "weak_prod_ok (unat C) wd (wm_pview t) (wm_hist t) (wm_prod t)"
  shows "weak_inv C wd t"
  using assms(9-11) weak_invD(1,5) [OF assms(1)] weak_thread_ok_mono [OF _ assms(8)]
  unfolding weak_inv_def assms(2-7) by blast

lemma consumer_step_keeps:
  assumes "weak_inv C wd s"
    and "wm_mem t = wm_mem s" "wm_pview t = wm_pview s" "wm_prod t = wm_prod s" "wm_hist t = wm_hist s"
    and "\<And>j. j \<noteq> i \<Longrightarrow> wm_pc t j = wm_pc s j \<and> wm_view t j = wm_view s j \<and> wm_cursor t j = wm_cursor s j \<and>
           wm_out t j = wm_out s j \<and> wm_got t j = wm_got s j"
    and "weak_thread_ok (unat C) wd (wm_mem s) (wm_hist s) (wm_view t i) (unat (wm_cursor t i)) (wm_out t i) (wm_pc t i) (wm_got t i)"
  shows "weak_inv C wd t"
proof -
  have "weak_thread_ok (unat C) wd (wm_mem s) (wm_hist s) (wm_view t j) (unat (wm_cursor t j)) (wm_out t j) (wm_pc t j) (wm_got t j)" for j
    using assms(6) [of j] assms(7) weak_invD(5) [OF assms(1), of j] by (cases "j = i") simp_all
  then show ?thesis using assms(1) by (simp add: weak_inv_def assms(2-5))
qed


section \<open>The producer's steps\<close>

lemma newest_view:
  assumes "memory_wf m" "\<And>l. length (m l) = Suc (V l)"
  shows "view_wf m V" "view_wf m W \<Longrightarrow> W \<le> V"
  using assms(2) by (auto simp: view_wf_def le_fun_def) (metis less_Suc_eq_le)

lemma store_newest:
  assumes "memory_wf m" "\<And>l. length (m l) = Suc (V l)" "atomic_store mo l v m V = (m', V')"
  shows "m' = m(l := m l @ [\<lparr>msg_val = v, msg_view = released mo l (Suc (V l)) V'\<rparr>])" "V' = V(l := Suc (V l))"
    "length (m' k) = Suc (V' k)" "memory_wf m'" "later m m'"
  using assms atomic_store_wf [OF assms(1) newest_view(1) [OF assms(1,2)] assms(3)]
  by (auto simp: atomic_store_def Let_def)

lemma rmw_newest:
  assumes "memory_wf m" "\<And>l. length (m l) = Suc (V l)" "atomic_rmw mo l f m V = (old, m', V')"
  shows "old = msg_val (m l ! V l)" "V' = V(l := Suc (V l))"
    "\<exists>W. m' = m(l := m l @ [\<lparr>msg_val = f old, msg_view = W\<rparr>])"
    "length (m' k) = Suc (V' k)" "memory_wf m'" "later m m'"
proof -
  have ne: "m l \<noteq> []" using memory_wf_msg(1) [OF assms(1)] .
  have "msg_view (last (m l)) \<le> V" using newest_view(2) [OF assms(1,2)] memory_wf_msg(3) [OF assms(1)] .
  moreover have "V \<le> V(l := Suc (V l))" by (rule view_le_upd) simp
  ultimately have "observe mo (msg_view (last (m l))) (V(l := Suc (V l))) = V(l := Suc (V l))"
    by (metis observe_def order_trans sup.absorb1)
  then show V': "V' = V(l := Suc (V l))" using assms(2,3) by (simp add: atomic_rmw_def Let_def)
  show "old = msg_val (m l ! V l)" using assms(2,3) ne by (simp add: atomic_rmw_def Let_def last_conv_nth)
  show "\<exists>W. m' = m(l := m l @ [\<lparr>msg_val = f old, msg_view = W\<rparr>])"
    using assms(3) by (auto simp: atomic_rmw_def Let_def)
  then show "length (m' k) = Suc (V' k)" using assms(2) by (auto simp: V')
qed (use atomic_rmw_wf [OF assms(1) newest_view(1) [OF assms(1,2)] assms(3)] in simp_all)

lemma w_claim_inv:
  assumes inv: "weak_inv C wd s" and idle: "wm_prod s = P_Idle" and item: "length item = wd"
    and rmw: "atomic_rmw (claim_order R) Write_Pos (\<lambda>x. x + 1) (wm_mem s) (wm_pview s) = (pos, m, V)"
    and n: "Suc (length (wm_hist s)) < 2 ^ 63"
  shows "weak_inv C wd (s\<lparr>wm_mem := m, wm_pview := V, wm_prod := P_Claimed pos item, wm_hist := wm_hist s @ [item]\<rparr>)" (is "weak_inv C wd ?t")
proof (rule producer_step_keeps [OF inv, where hs = "[item]"])
  note d = weak_invD [OF inv] and mo = mem_okD [OF weak_invD(2) [OF inv]]
  let ?n = "length (wm_hist s)"
  note r = rmw_newest [OF mo(1) d(3) rmw]
  have vp: "wm_pview s Write_Pos = ?n" using d(3) [of Write_Pos] mo(3) by simp
  have pos: "pos = of_nat ?n" using r(1) mo(4) [of ?n] by (simp add: vp)
  then have up: "unat pos = ?n" using n by (simp add: unat_of_nat_u64)
  from r(3) obtain W where m: "m = (wm_mem s)(Write_Pos := wm_mem s Write_Pos @ [\<lparr>msg_val = pos + 1, msg_view = W\<rparr>])" by blast
  have "msg_val (m Write_Pos ! t) = of_nat t" if "t \<le> Suc ?n" for t
    using that mo(3,4) by (cases "t = Suc ?n") (simp_all add: m nth_append pos add.commute)
  moreover have "i + (t - 1) * unat C < Suc ?n \<and> msg_val (m (Data i k) ! t) = (wm_hist s @ [item]) ! (i + (t - 1) * unat C) ! k"
    if "i < unat C" "k < wd" "0 < t" "t < length (m (Data i k))" for i k t
    using mo(5) [of i k t] that by (simp add: m nth_append less_SucI)
  moreover have "p < Suc ?n \<and> p mod unat C = i \<and> (\<forall>k<wd. p div unat C < msg_view (m (Sequence i) ! t) (Data i k))"
    if "i < unat C" "t < length (m (Sequence i))" "unat (msg_val (m (Sequence i) ! t)) = 2 * p + 1" for i t p
    using mo(6) [of i t p] that by (simp add: m)
  ultimately have "mem_ok C wd m (wm_hist s @ [item])"
    unfolding mem_ok_def using r(5) mo(2,3) item by (auto simp: m)
  then show "mem_ok C wd (wm_mem ?t) (wm_hist ?t)" by simp
  show "weak_prod_ok (unat C) wd (wm_pview ?t) (wm_hist ?t) (wm_prod ?t)"
    using d(4) idle by (simp add: up r(2))
qed (use rmw_newest [OF mem_okD(1) [OF weak_invD(2) [OF inv]] weak_invD(3) [OF inv] rmw] in simp_all)

lemma mem_ok_sequence:
  assumes "mem_ok C wd m h" "m' = m(Sequence j := m (Sequence j) @ [x])" "memory_wf m'"
    and "\<And>p. unat (msg_val x) = 2 * p + 1 \<Longrightarrow> p < length h \<and> p mod unat C = j \<and> (\<forall>k<wd. p div unat C < msg_view x (Data j k))"
  shows "mem_ok C wd m' h"
proof -
  note mo = mem_okD [OF assms(1)]
  have "p < length h \<and> p mod unat C = i \<and> (\<forall>k<wd. p div unat C < msg_view (m' (Sequence i) ! t) (Data i k))"
    if a: "i < unat C" "t < length (m' (Sequence i))" "unat (msg_val (m' (Sequence i) ! t)) = 2 * p + 1" for i t p
  proof (cases "i = j \<and> t = length (m (Sequence j))")
    case True
    then show ?thesis using a(3) assms(4) [of p] by (simp add: assms(2))
  next
    case False
    then have "t < length (m (Sequence i))" "m' (Sequence i) ! t = m (Sequence i) ! t"
      using a(2) by (auto simp: assms(2) nth_append split: if_splits)
    then show ?thesis using mo(6) [of i t p] a by simp
  qed
  moreover have "m' Write_Pos = m Write_Pos" "m' (Data i k) = m (Data i k)" for i k by (simp_all add: assms(2))
  ultimately show ?thesis unfolding mem_ok_def using assms(3) mo(2-5) by simp
qed

lemma w_begin_inv:
  assumes inv: "weak_inv C wd s" and pc: "wm_prod s = P_Claimed pos item"
    and st: "atomic_store (begin_order R) (Sequence (slot_index C pos)) (pos * 2) (wm_mem s) (wm_pview s) = (m, V)"
    and n: "length (wm_hist s) < 2 ^ 63"
  shows "weak_inv C wd (s\<lparr>wm_mem := m, wm_pview := V, wm_prod := P_Copying pos item {..<wd}\<rparr>)" (is "weak_inv C wd ?t")
proof (rule producer_step_keeps [OF inv, where hs = "[]"])
  note d = weak_invD [OF inv] and mo = mem_okD [OF weak_invD(2) [OF inv]]
  note r = store_newest [OF mo(1) d(3) st]
  have pk: "weak_prod_ok (unat C) wd (wm_pview s) (wm_hist s) (P_Claimed pos item)" using d(4) pc by simp
  have "unat pos < 2 ^ 63" using pk n by simp
  then have "even (unat (pos * 2))" using pos_seq_nat(1) by simp
  then have "mem_ok C wd m (wm_hist s)" using mem_ok_sequence [OF d(2) r(1,4)] by (metis even_add even_mult_iff odd_one message.select_convs(1) even_numeral)
  then show "mem_ok C wd (wm_mem ?t) (wm_hist ?t)" by simp
  show "weak_prod_ok (unat C) wd (wm_pview ?t) (wm_hist ?t) (wm_prod ?t)" using pk by (simp add: r(2))
qed (use store_newest [OF mem_okD(1) [OF weak_invD(2) [OF inv]] weak_invD(3) [OF inv] st] in simp_all)

lemma w_publish_inv:
  assumes inv: "weak_inv C wd s" and pc: "wm_prod s = P_Copying pos item {}"
    and st: "atomic_store (publish_order R) (Sequence (slot_index C pos)) (pos * 2 + 1) (wm_mem s) (wm_pview s) = (m, V)"
    and n: "length (wm_hist s) < 2 ^ 63" and rel: "releases (publish_order R)"
  shows "weak_inv C wd (s\<lparr>wm_mem := m, wm_pview := V, wm_prod := after_publish R\<rparr>)" (is "weak_inv C wd ?t")
proof (rule producer_step_keeps [OF inv, where hs = "[]"])
  note d = weak_invD [OF inv] and mo = mem_okD [OF weak_invD(2) [OF inv]]
  let ?j = "unat pos mod unat C"
  note r = store_newest [OF mo(1) d(3) st]
  have pk: "weak_prod_ok (unat C) wd (wm_pview s) (wm_hist s) (P_Copying pos item {})" using d(4) pc by simp
  have h: "length (wm_hist s) = Suc (unat pos)" using pk by simp
  then have sq: "unat (pos * 2 + 1) = 2 * unat pos + 1" using n pos_seq_nat(2) by simp
  have "V (Data ?j k) = Suc (unat pos div unat C)" if "k < wd" for k
    using pk that d(6) laps_here [OF d(6), of "unat pos"] by (simp add: r(2))
  then have "mem_ok C wd m (wm_hist s)"
    using mem_ok_sequence [OF d(2) r(1,4)] sq h rel by (simp add: d(7) released_def)
  then show "mem_ok C wd (wm_mem ?t) (wm_hist ?t)" by simp
  show "weak_prod_ok (unat C) wd (wm_pview ?t) (wm_hist ?t) (wm_prod ?t)" using pk by (auto simp: r(2) after_publish_def)
qed (use store_newest [OF mem_okD(1) [OF weak_invD(2) [OF inv]] weak_invD(3) [OF inv] st] in simp_all)

lemma w_cell_inv:
  assumes inv: "weak_inv C wd s" and pc: "wm_prod s = P_Copying pos item rem" and k: "k \<in> rem"
    and st: "atomic_store memory_order_relaxed (Data (slot_index C pos) k) (item ! k) (wm_mem s) (wm_pview s) = (m, V)"
  shows "weak_inv C wd (s\<lparr>wm_mem := m, wm_pview := V, wm_prod := P_Copying pos item (rem - {k})\<rparr>)" (is "weak_inv C wd ?t")
proof (rule producer_step_keeps [OF inv, where hs = "[]"])
  note d = weak_invD [OF inv] and mo = mem_okD [OF weak_invD(2) [OF inv]]
  let ?j = "unat pos mod unat C"
  note r = store_newest [OF mo(1) d(3) st]
  have pk: "weak_prod_ok (unat C) wd (wm_pview s) (wm_hist s) (P_Copying pos item rem)" using d(4) pc by simp
  then have kw: "k < wd" using k by auto
  have V: "wm_pview s (Data ?j k) = unat pos div unat C" using pk k kw d(6) laps_here [OF d(6), of "unat pos"] by simp
  have at: "?j + (unat pos div unat C) * unat C = unat pos" by (simp add: add.commute)
  have "i + (t - 1) * unat C < length (wm_hist s) \<and> msg_val (m (Data i l) ! t) = wm_hist s ! (i + (t - 1) * unat C) ! l"
    if a: "i < unat C" "l < wd" "0 < t" "t < length (m (Data i l))" for i l t
  proof (cases "i = ?j \<and> l = k \<and> t = length (wm_mem s (Data ?j k))")
    case True
    then have "t = Suc (Suc (unat pos div unat C)) - 1" using d(3) [of "Data ?j k"] V by simp
    then show ?thesis using True pk at d(3) [of "Data ?j k"] V by (simp add: r(1) d(7) nth_append)
  next
    case False
    then have "t < length (wm_mem s (Data i l))" "m (Data i l) ! t = wm_mem s (Data i l) ! t"
      using a(4) by (auto simp: r(1) d(7) nth_append split: if_splits)
    then show ?thesis using mo(5) [of i l t] a by simp
  qed
  moreover have "m Write_Pos = wm_mem s Write_Pos" "m (Sequence i) = wm_mem s (Sequence i)" for i by (simp_all add: r(1))
  ultimately have "mem_ok C wd m (wm_hist s)" unfolding mem_ok_def using r(4) mo(2-4,6) by simp
  then show "mem_ok C wd (wm_mem ?t) (wm_hist ?t)" by simp
  show "weak_prod_ok (unat C) wd (wm_pview ?t) (wm_hist ?t) (wm_prod ?t)"
    using pk k V laps_here [OF d(6), of "unat pos"] by (auto simp: r(2) d(7))
qed (use store_newest [OF mem_okD(1) [OF weak_invD(2) [OF inv]] weak_invD(3) [OF inv] st] in simp_all)

lemma w_beat_inv:
  assumes inv: "weak_inv C wd s" and pc: "wm_prod s = P_Beat"
    and st: "atomic_store memory_order_relaxed Heartbeat now (wm_mem s) (wm_pview s) = (m, V)"
  shows "weak_inv C wd (s\<lparr>wm_mem := m, wm_pview := V, wm_prod := P_Idle\<rparr>)" (is "weak_inv C wd ?t")
proof (rule producer_step_keeps [OF inv, where hs = "[]"])
  note d = weak_invD [OF inv] and mo = mem_okD [OF weak_invD(2) [OF inv]]
  note r = store_newest [OF mo(1) d(3) st]
  have "mem_ok C wd m (wm_hist s)" using d(2) r(4) by (simp add: mem_ok_def r(1))
  then show "mem_ok C wd (wm_mem ?t) (wm_hist ?t)" by simp
  show "weak_prod_ok (unat C) wd (wm_pview ?t) (wm_hist ?t) (wm_prod ?t)" using d(4) pc by (simp add: r(2))
qed (use store_newest [OF mem_okD(1) [OF weak_invD(2) [OF inv]] weak_invD(3) [OF inv] st] in simp_all)


section \<open>The consumers' steps\<close>

lemma weak_cons_ok_view: "weak_cons_ok N wd V h c out pc \<Longrightarrow> V \<le> V' \<Longrightarrow> weak_cons_ok N wd V' h c out pc"
  by (cases pc) (auto simp: le_fun_def intro: le_trans less_le_trans)

lemma weak_thread_okD:
  assumes "weak_thread_ok N wd m h V c out pc g"
  shows "view_wf m V" "length out = wd" "weak_cons_ok N wd V h c out pc" "weak_got_ok N wd h c g"
  using assms by (simp_all add: weak_thread_ok_def)

text \<open>The number of a message of \<open>write_pos\<close> is its value.\<close>

lemma load_write_pos:
  assumes "mem_ok C wd m h" "atomic_load mo Write_Pos t m V = Some (w, V')" "length h < 2 ^ 63"
  shows "unat w = t" "V Write_Pos \<le> t" "t \<le> length h" "t \<le> V' Write_Pos"
  using atomic_load_Some [OF assms(2)] mem_okD(3,4) [OF assms(1)] assms(3) by (auto simp: unat_of_nat_u64)

lemma w_cursor_inv:
  assumes inv: "weak_inv C wd s" and pc: "wm_pc s i = C_Idle" and n: "length (wm_hist s) < 2 ^ 63"
    and ld: "atomic_load mo Write_Pos t (wm_mem s) (wm_view s i) = Some (w, V)"
  shows "weak_inv C wd (s\<lparr>wm_view := (wm_view s)(i := V), wm_cursor := (wm_cursor s)(i := w)\<rparr>)"
    "weak_inv C wd (s\<lparr>wm_view := (wm_view s)(i := V)\<rparr>)"
proof -
  note d = weak_invD(1,2) [OF inv] and th = weak_thread_okD [OF weak_invD(5) [OF inv, of i]]
  note l = load_write_pos [OF d(2) ld n] and a = atomic_load_Some [OF ld]
  have vw: "view_wf (wm_mem s) V" using atomic_load_wf [OF mem_okD(1) [OF d(2)] th(1) ld] .
  have c: "unat (wm_cursor s i) \<le> t" using th(3) pc l(2) by simp
  then show "weak_inv C wd (s\<lparr>wm_view := (wm_view s)(i := V), wm_cursor := (wm_cursor s)(i := w)\<rparr>)"
    by (intro consumer_step_keeps [OF inv, where i = i])
      (use th vw l pc weak_got_ok_forward [OF th(4)] in \<open>simp_all add: weak_thread_ok_def\<close>)
  show "weak_inv C wd (s\<lparr>wm_view := (wm_view s)(i := V)\<rparr>)"
    by (intro consumer_step_keeps [OF inv, where i = i])
      (use th vw weak_cons_ok_view [OF th(3) a(4)] in \<open>simp_all add: weak_thread_ok_def\<close>)
qed

lemma w_load_inv:
  assumes inv: "weak_inv C wd s" and pc: "wm_pc s i = C_Idle" and n: "length (wm_hist s) < 2 ^ 63"
    and ld: "atomic_load mo Write_Pos t (wm_mem s) (wm_view s i) = Some (w, V)" and lt: "wm_cursor s i < w"
  shows "weak_inv C wd (s\<lparr>wm_view := (wm_view s)(i := V),
      wm_cursor := (wm_cursor s)(i := fast_forward C w (wm_cursor s i)), wm_pc := (wm_pc s)(i := C_Check)\<rparr>)" (is "weak_inv C wd ?t")
proof (rule consumer_step_keeps [OF inv, where i = i])
  note d = weak_invD(1,2,6) [OF inv] and th = weak_thread_okD [OF weak_invD(5) [OF inv, of i]]
  note l = load_write_pos [OF d(2) ld n]
  have vw: "view_wf (wm_mem s) V" using atomic_load_wf [OF mem_okD(1) [OF d(2)] th(1) ld] .
  have lt': "unat (wm_cursor s i) < unat w" using lt by (simp add: word_less_nat_alt)
  note ff = fast_forward_nat [OF lt', of C]
  have "unat (fast_forward C w (wm_cursor s i)) < V Write_Pos" using ff l d(3) lt' by simp
  moreover have "weak_got_ok (unat C) wd (wm_hist s) (unat (fast_forward C w (wm_cursor s i))) (wm_got s i)"
    using weak_got_ok_forward [OF th(4)] ff by simp
  ultimately show "weak_thread_ok (unat C) wd (wm_mem s) (wm_hist s) (wm_view ?t i) (unat (wm_cursor ?t i)) (wm_out ?t i) (wm_pc ?t i) (wm_got ?t i)"
    using vw th(2) by (simp add: weak_thread_ok_def)
qed simp_all

text \<open>A \<open>pop\<close> that returns \<open>false\<close> only loses what it was doing.\<close>

lemma w_give_up_inv:
  assumes inv: "weak_inv C wd s" and pc: "wm_pc s i \<noteq> C_Idle"
    and ld: "atomic_load mo l t (wm_mem s) (wm_view s i) = Some (q, V)"
  shows "weak_inv C wd (s\<lparr>wm_view := (wm_view s)(i := V), wm_pc := (wm_pc s)(i := C_Idle)\<rparr>)" (is "weak_inv C wd ?t")
proof (rule consumer_step_keeps [OF inv, where i = i])
  note d = weak_invD(1,2) [OF inv] and th = weak_thread_okD [OF weak_invD(5) [OF inv, of i]]
  have vw: "view_wf (wm_mem s) V" using atomic_load_wf [OF mem_okD(1) [OF d(2)] th(1) ld] .
  have "unat (wm_cursor s i) \<le> wm_view s i Write_Pos" using th(3) pc by (cases "wm_pc s i") auto
  then have "unat (wm_cursor s i) \<le> V Write_Pos"
    using le_funD [OF atomic_load_Some(4) [OF ld], of Write_Pos] by simp
  then show "weak_thread_ok (unat C) wd (wm_mem s) (wm_hist s) (wm_view ?t i) (unat (wm_cursor ?t i)) (wm_out ?t i) (wm_pc ?t i) (wm_got ?t i)"
    using vw th by (simp add: weak_thread_ok_def)
qed simp_all

lemma w_ready_inv:
  assumes inv: "weak_inv C wd s" and pc: "wm_pc s i = C_Check" and n: "length (wm_hist s) < 2 ^ 63"
    and ld: "atomic_load mo (Sequence (slot_index C (wm_cursor s i))) t (wm_mem s) (wm_view s i) = Some (q, V)"
    and q: "q = wm_cursor s i * 2 + 1" and acq: "acquires mo"
  shows "weak_inv C wd (s\<lparr>wm_view := (wm_view s)(i := V), wm_pc := (wm_pc s)(i := C_Copying {..<wd})\<rparr>)" (is "weak_inv C wd ?t")
proof (rule consumer_step_keeps [OF inv, where i = i])
  note d = weak_invD [OF inv] and th = weak_thread_okD [OF weak_invD(5) [OF inv, of i]]
  note mo = mem_okD [OF d(2)] and a = atomic_load_Some [OF ld]
  let ?c = "unat (wm_cursor s i)" and ?j = "slot_index C (wm_cursor s i)"
  have vw: "view_wf (wm_mem s) V" using atomic_load_wf [OF mo(1) th(1) ld] .
  have cv: "?c < wm_view s i Write_Pos" using th(3) pc by simp
  then have "?c < length (wm_hist s)" using th(1) mo(3) by (simp add: view_wf_def) (metis Suc_leI less_Suc_eq_le less_le_trans not_less_eq)
  then have "unat (msg_val (wm_mem s (Sequence ?j) ! t)) = 2 * ?c + 1"
    using pos_seq_nat(2) [of "wm_cursor s i"] n a(3) q by simp
  from mo(6) [OF _ a(2) this] d(7,8) have m: "?c mod unat C = ?j"
    "\<And>k. k < wd \<Longrightarrow> ?c div unat C < msg_view (wm_mem s (Sequence ?j) ! t) (Data ?j k)" by simp_all
  have "?c div unat C < V (Data ?j k)" if "k < wd" for k
    using m(2) [OF that] le_funD [OF a(6) [OF acq], of "Data ?j k"] by simp
  moreover have "?c < V Write_Pos" using cv le_funD [OF a(4), of Write_Pos] by simp
  ultimately show "weak_thread_ok (unat C) wd (wm_mem s) (wm_hist s) (wm_view ?t i) (unat (wm_cursor ?t i)) (wm_out ?t i) (wm_pc ?t i) (wm_got ?t i)"
    using vw th m(1) by (simp add: weak_thread_ok_def)
qed simp_all


lemma w_copy_inv:
  assumes inv: "weak_inv C wd s" and pc: "wm_pc s i = C_Copying rem" and k: "k \<in> rem"
    and ld: "atomic_load mo (Data (slot_index C (wm_cursor s i)) k) t (wm_mem s) (wm_view s i) = Some (b, V)"
  shows "weak_inv C wd (s\<lparr>wm_view := (wm_view s)(i := V), wm_out := (wm_out s)(i := (wm_out s i)[k := b]),
      wm_pc := (wm_pc s)(i := C_Copying (rem - {k}))\<rparr>)" (is "weak_inv C wd ?t")
proof (rule consumer_step_keeps [OF inv, where i = i])
  note d = weak_invD [OF inv] and th = weak_thread_okD [OF weak_invD(5) [OF inv, of i]]
  note mo = mem_okD [OF d(2)] and a = atomic_load_Some [OF ld]
  let ?c = "unat (wm_cursor s i)" and ?N = "unat C" and ?j = "slot_index C (wm_cursor s i)"
  have vw: "view_wf (wm_mem s) V" using atomic_load_wf [OF mo(1) th(1) ld] .
  have co: "weak_cons_ok ?N wd (wm_view s i) (wm_hist s) ?c (wm_out s i) (C_Copying rem)" using th(3) pc by simp
  then have kw: "k < wd" using k by auto
  then have t: "?c div ?N < t" using co a(1) by (auto simp: d(7) intro: less_le_trans)
  then have "?j + (t - 1) * ?N < length (wm_hist s)" "b = wm_hist s ! (?j + (t - 1) * ?N) ! k"
    using mo(5) [of ?j k t] a(2,3) kw d(7,8) by auto
  moreover have "?c \<le> ?j + (t - 1) * ?N"
  proof -
    have "?c div ?N * ?N \<le> (t - 1) * ?N" using t by (intro mult_le_mono1) simp
    then show ?thesis unfolding d(7) using div_mult_mod_eq [of ?c ?N] by linarith
  qed
  moreover have "(?j + (t - 1) * ?N) mod ?N = ?c mod ?N" by (simp add: d(7))
  ultimately have cell: "cell_ok ?N (wm_hist s) (length (wm_hist s)) ?c k b" unfolding cell_ok_def by blast
  have "cell_ok ?N (wm_hist s) (length (wm_hist s)) ?c l ((wm_out s i)[k := b] ! l)" if "l < wd" "l \<notin> rem - {k}" for l
    using that co cell th(2) by (cases "l = k") simp_all
  moreover have "weak_cons_ok ?N wd V (wm_hist s) ?c (wm_out s i) (C_Copying rem)" using weak_cons_ok_view [OF co a(4)] .
  ultimately show "weak_thread_ok ?N wd (wm_mem s) (wm_hist s) (wm_view ?t i) (unat (wm_cursor ?t i)) (wm_out ?t i) (wm_pc ?t i) (wm_got ?t i)"
    using vw th by (auto simp: weak_thread_ok_def)
qed simp_all

lemma w_done_inv:
  assumes inv: "weak_inv C wd s" and pc: "wm_pc s i = C_Copying {}" and n: "length (wm_hist s) < 2 ^ 63"
    and ld: "atomic_load mo (Sequence (slot_index C (wm_cursor s i))) t (wm_mem s) (wm_view s i) = Some (q, V)"
  shows "weak_inv C wd (s\<lparr>wm_view := (wm_view s)(i := V), wm_cursor := (wm_cursor s)(i := wm_cursor s i + 1),
      wm_pc := (wm_pc s)(i := C_Idle),
      wm_got := (wm_got s)(i := wm_got s i @ [(unat (wm_cursor s i), wm_out s i, length (wm_hist s))])\<rparr>)" (is "weak_inv C wd ?t")
proof (rule consumer_step_keeps [OF inv, where i = i])
  note d = weak_invD [OF inv] and th = weak_thread_okD [OF weak_invD(5) [OF inv, of i]]
  note mo = mem_okD [OF d(2)] and a = atomic_load_Some [OF ld]
  let ?c = "unat (wm_cursor s i)" and ?N = "unat C" and ?h = "wm_hist s"
  let ?e = "(?c, wm_out s i, length ?h)"
  have vw: "view_wf (wm_mem s) V" using atomic_load_wf [OF mo(1) th(1) ld] .
  have co: "weak_cons_ok ?N wd (wm_view s i) ?h ?c (wm_out s i) (C_Copying {})" using th(3) pc by simp
  have "wm_view s i Write_Pos \<le> length ?h" using th(1) mo(3) by (simp add: view_wf_def) (metis less_Suc_eq_le)
  then have c: "?c < length ?h" using co by simp
  have "?c < V Write_Pos" using co le_funD [OF a(4), of Write_Pos] by simp
  moreover have "unat (wm_cursor s i + 1) = Suc ?c" using unat_suc_u64 [of "wm_cursor s i"] c n by simp
  moreover have "accepted_ok ?N wd ?h ?e" using c co th(2) by (simp add: accepted_ok_def)
  moreover have "weak_got_ok ?N wd ?h (Suc ?c) (wm_got s i @ [?e])"
    using th(4) \<open>accepted_ok ?N wd ?h ?e\<close> by (auto simp: weak_got_ok_def sorted_wrt_append less_SucI)
  ultimately show "weak_thread_ok ?N wd (wm_mem s) ?h (wm_view ?t i) (unat (wm_cursor ?t i)) (wm_out ?t i) (wm_pc ?t i) (wm_got ?t i)"
    using vw th by (simp add: weak_thread_ok_def)
qed simp_all

section \<open>Every reachable state\<close>

lemma weak_step_inv:
  assumes "weak_step R C wd s t" "weak_inv C wd s" "length (wm_hist t) < 2 ^ 63" "orders_publish R"
  shows "weak_inv C wd t"
proof -
  have rel: "releases (publish_order R)" and acq: "acquires (read_order R)" using assms(4) by (simp_all add: orders_publish_def)
  show ?thesis
    using assms(1)
  proof (cases rule: weak_step.cases)
    case (w_claim item pos m V)
    then show ?thesis using w_claim_inv [OF assms(2)] assms(3) by simp
  next
    case (w_begin pos item m V)
    then show ?thesis using w_begin_inv [OF assms(2), of pos item R m V] assms(3) by simp
  next
    case (w_cell pos item rem k m V)
    then show ?thesis using w_cell_inv [OF assms(2)] by simp
  next
    case (w_publish pos item m V)
    then show ?thesis using w_publish_inv [OF assms(2) _ _ _ rel] assms(3) by simp
  next
    case (w_beat now m V)
    then show ?thesis using w_beat_inv [OF assms(2)] by simp
  next
    case (w_cursor i t w V)
    then show ?thesis using w_cursor_inv(1) [OF assms(2)] assms(3) by simp
  next
    case (w_empty i t w V)
    then show ?thesis using w_cursor_inv(2) [OF assms(2)] assms(3) by simp
  next
    case (w_load i t w V)
    then show ?thesis using w_load_inv [OF assms(2)] assms(3) by simp
  next
    case (w_not_ready i t q V)
    then show ?thesis using w_give_up_inv [OF assms(2)] by simp
  next
    case (w_ready i t q V)
    then show ?thesis using w_ready_inv [OF assms(2) _ _ _ _ acq] assms(3) by simp
  next
    case (w_copy i rem k t b V)
    then show ?thesis using w_copy_inv [OF assms(2)] by simp
  next
    case (w_torn i t q V)
    then show ?thesis using w_give_up_inv [OF assms(2)] by simp
  next
    case (w_done i t q V)
    then show ?thesis using w_done_inv [OF assms(2)] assms(3) by simp
  qed
qed

lemma weak_step_hist: "weak_step R C wd s t \<Longrightarrow> length (wm_hist s) \<le> length (wm_hist t)"
  by (induction rule: weak_step.induct) simp_all

lemma weak_mem_init_wf: "memory_wf weak_mem_init"
  by (simp add: memory_wf_def weak_mem_init_def view_wf_def empty_view_def)

lemma weak_init_inv:
  assumes "weak_init C wd s"
  shows "weak_inv C wd s"
proof -
  have "mem_ok C wd weak_mem_init []"
    using weak_mem_init_wf by (simp add: mem_ok_def) (simp add: weak_mem_init_def)
  moreover have "view_wf weak_mem_init empty_view" using view_wf_empty [OF weak_mem_init_wf] .
  moreover have "length (weak_mem_init l) = 1" for l by (simp add: weak_mem_init_def)
  ultimately show ?thesis
    using assms
    by (simp add: weak_init_def weak_inv_def weak_thread_ok_def weak_got_ok_def make_cursor_from_start_def)
      (simp add: empty_view_def)
qed

interpretation weak_run: bounded_invariant_system
  "weak_init C wd" "\<lambda>s t. orders_publish R \<and> weak_step R C wd s t" "weak_inv C wd" "\<lambda>s. length (wm_hist s)" "2 ^ 63"
  for R C wd
proof (unfold_locales, goal_cases)
  case (1 s) then show ?case by (rule weak_init_inv)
next
  case (2 s t) then show ?case using weak_step_hist by blast
next
  case (3 s t) then show ?case using weak_step_inv by blast
qed

lemma reachable_weak_inv:
  assumes "orders_publish R" "reachable (weak_init C wd) (weak_step R C wd) s" "length (wm_hist s) < 2 ^ 63"
  shows "weak_inv C wd s"
proof -
  have "(\<lambda>s t. orders_publish R \<and> weak_step R C wd s t) = weak_step R C wd" using assms(1) by (simp add: fun_eq_iff)
  then show ?thesis using weak_run.reachable_below_inv [of C wd R s] assms(2,3) by simp
qed

text \<open>While the slot has not been claimed again, an accepted payload is the one pushed.\<close>

lemma accepted_exact:
  assumes "accepted_ok N wd h (p, d, m)" "m \<le> p + N" "\<And>x. x \<in> set h \<Longrightarrow> length x = wd"
  shows "d = h ! p"
proof (rule nth_equalityI)
  have p: "p < m" "m \<le> length h" "length d = wd" using assms(1) by (simp_all add: accepted_ok_def)
  then have "length (h ! p) = wd" using assms(3) by simp
  with p(3) show "length d = length (h ! p)" by simp
  fix k assume "k < length d"
  then obtain q where q: "q < m" "p \<le> q" "q mod N = p mod N" "d ! k = h ! q ! k"
    using assms(1) p(3) by (auto simp: accepted_ok_def cell_ok_def)
  have "q = p" using window_mod_inj [OF q(3,1) p(1)] q(2) assms(2) by simp
  then show "d ! k = h ! p ! k" using q(4) by simp
qed

text \<open>
  C3. On the memory model of the policies, with every load free to return an old message: under a policy whose
  stores release and whose loads acquire, the positions a consumer accepts increase, every cell
  of an accepted payload was pushed to that slot at that position or later (never before), and
  the payload is exactly the pushed one unless its slot had been claimed again meanwhile.
\<close>

theorem weak_delivery:
  assumes "orders_publish R" "reachable (weak_init C wd) (weak_step R C wd) s" "length (wm_hist s) < 2 ^ 63"
  shows "sorted_wrt (<) (map fst (wm_got s i)) \<and>
    (\<forall>(p, d, m) \<in> set (wm_got s i). p < m \<and> m \<le> length (wm_hist s) \<and> length d = wd \<and>
       (\<forall>k<wd. \<exists>q<m. p \<le> q \<and> q mod unat C = p mod unat C \<and> d ! k = wm_hist s ! q ! k) \<and>
       (m \<le> p + unat C \<longrightarrow> d = wm_hist s ! p))"
proof -
  note inv = reachable_weak_inv [OF assms]
  have g: "weak_got_ok (unat C) wd (wm_hist s) (unat (wm_cursor s i)) (wm_got s i)"
    using weak_thread_okD(4) [OF weak_invD(5) [OF inv]] .
  have "p < m \<and> m \<le> length (wm_hist s) \<and> length d = wd \<and>
       (\<forall>k<wd. \<exists>q<m. p \<le> q \<and> q mod unat C = p mod unat C \<and> d ! k = wm_hist s ! q ! k) \<and>
       (m \<le> p + unat C \<longrightarrow> d = wm_hist s ! p)" if "(p, d, m) \<in> set (wm_got s i)" for p d m
  proof -
    have a: "accepted_ok (unat C) wd (wm_hist s) (p, d, m)" using g that by (auto simp: weak_got_ok_def)
    then show ?thesis
      using accepted_exact [OF a _ mem_okD(2) [OF weak_invD(2) [OF inv]]] by (auto simp: accepted_ok_def cell_ok_def)
  qed
  then show ?thesis using g by (auto simp: weak_got_ok_def)
qed


section \<open>Running schedules\<close>

text \<open>
  A step with its choices made: which thread moves, which message a load returns. \<open>weak_exec\<close> runs
  one, \<open>weak_exec_all\<close> a schedule; they are the step relation made executable.
\<close>

datatype weak_action =
    Claim "u64 list" | Begin | Cell nat | Publish | Beat u64
  | Make_Cursor nat nat | Load nat nat | Check nat nat | Copy nat nat nat | Recheck nat nat

fun weak_exec :: "ring_orders \<Rightarrow> u64 \<Rightarrow> nat \<Rightarrow> weak_action \<Rightarrow> weak_sys \<Rightarrow> weak_sys option" where
  "weak_exec R C wd (Claim item) s =
     (if wm_prod s = P_Idle \<and> length item = wd
      then case atomic_rmw (claim_order R) Write_Pos (\<lambda>x. x + 1) (wm_mem s) (wm_pview s) of (pos, m, V) \<Rightarrow>
        Some (s\<lparr>wm_mem := m, wm_pview := V, wm_prod := P_Claimed pos item, wm_hist := wm_hist s @ [item]\<rparr>)
      else None)"
| "weak_exec R C wd Begin s =
     (case wm_prod s of
        P_Claimed pos item \<Rightarrow>
          (case atomic_store (begin_order R) (Sequence (slot_index C pos)) (pos * 2) (wm_mem s) (wm_pview s) of (m, V) \<Rightarrow>
             Some (s\<lparr>wm_mem := m, wm_pview := V, wm_prod := P_Copying pos item {..<wd}\<rparr>))
      | _ \<Rightarrow> None)"
| "weak_exec R C wd (Cell k) s =
     (case wm_prod s of
        P_Copying pos item rem \<Rightarrow>
          (if k \<in> rem
           then case atomic_store memory_order_relaxed (Data (slot_index C pos) k) (item ! k) (wm_mem s) (wm_pview s) of (m, V) \<Rightarrow>
             Some (s\<lparr>wm_mem := m, wm_pview := V, wm_prod := P_Copying pos item (rem - {k})\<rparr>)
           else None)
      | _ \<Rightarrow> None)"
| "weak_exec R C wd Publish s =
     (case wm_prod s of
        P_Copying pos item rem \<Rightarrow>
          (if rem = {}
           then case atomic_store (publish_order R) (Sequence (slot_index C pos)) (pos * 2 + 1) (wm_mem s) (wm_pview s) of (m, V) \<Rightarrow>
             Some (s\<lparr>wm_mem := m, wm_pview := V, wm_prod := after_publish R\<rparr>)
           else None)
      | _ \<Rightarrow> None)"
| "weak_exec R C wd (Beat now) s =
     (if wm_prod s = P_Beat
      then case atomic_store memory_order_relaxed Heartbeat now (wm_mem s) (wm_pview s) of (m, V) \<Rightarrow>
        Some (s\<lparr>wm_mem := m, wm_pview := V, wm_prod := P_Idle\<rparr>)
      else None)"
| "weak_exec R C wd (Make_Cursor i t) s =
     (case (wm_pc s i, atomic_load (read_order R) Write_Pos t (wm_mem s) (wm_view s i)) of
        (C_Idle, Some (w, V)) \<Rightarrow> Some (s\<lparr>wm_view := (wm_view s)(i := V), wm_cursor := (wm_cursor s)(i := w)\<rparr>)
      | _ \<Rightarrow> None)"
| "weak_exec R C wd (Load i t) s =
     (case (wm_pc s i, atomic_load (read_order R) Write_Pos t (wm_mem s) (wm_view s i)) of
        (C_Idle, Some (w, V)) \<Rightarrow>
          Some (if w \<le> wm_cursor s i then s\<lparr>wm_view := (wm_view s)(i := V)\<rparr>
                else s\<lparr>wm_view := (wm_view s)(i := V),
                  wm_cursor := (wm_cursor s)(i := fast_forward C w (wm_cursor s i)), wm_pc := (wm_pc s)(i := C_Check)\<rparr>)
      | _ \<Rightarrow> None)"
| "weak_exec R C wd (Check i t) s =
     (case (wm_pc s i, atomic_load (read_order R) (Sequence (slot_index C (wm_cursor s i))) t (wm_mem s) (wm_view s i)) of
        (C_Check, Some (q, V)) \<Rightarrow>
          Some (s\<lparr>wm_view := (wm_view s)(i := V),
            wm_pc := (wm_pc s)(i := if q = wm_cursor s i * 2 + 1 then C_Copying {..<wd} else C_Idle)\<rparr>)
      | _ \<Rightarrow> None)"
| "weak_exec R C wd (Copy i k t) s =
     (case (wm_pc s i, atomic_load memory_order_relaxed (Data (slot_index C (wm_cursor s i)) k) t (wm_mem s) (wm_view s i)) of
        (C_Copying rem, Some (b, V)) \<Rightarrow>
          (if k \<in> rem
           then Some (s\<lparr>wm_view := (wm_view s)(i := V), wm_out := (wm_out s)(i := (wm_out s i)[k := b]),
             wm_pc := (wm_pc s)(i := C_Copying (rem - {k}))\<rparr>)
           else None)
      | _ \<Rightarrow> None)"
| "weak_exec R C wd (Recheck i t) s =
     (case (wm_pc s i, atomic_load (read_order R) (Sequence (slot_index C (wm_cursor s i))) t (wm_mem s) (wm_view s i)) of
        (C_Copying rem, Some (q, V)) \<Rightarrow>
          (if rem = {}
           then Some (if q = wm_cursor s i * 2 + 1
             then s\<lparr>wm_view := (wm_view s)(i := V), wm_cursor := (wm_cursor s)(i := wm_cursor s i + 1),
               wm_pc := (wm_pc s)(i := C_Idle),
               wm_got := (wm_got s)(i := wm_got s i @ [(unat (wm_cursor s i), wm_out s i, length (wm_hist s))])\<rparr>
             else s\<lparr>wm_view := (wm_view s)(i := V), wm_pc := (wm_pc s)(i := C_Idle)\<rparr>)
           else None)
      | _ \<Rightarrow> None)"

fun weak_exec_all :: "ring_orders \<Rightarrow> u64 \<Rightarrow> nat \<Rightarrow> weak_action list \<Rightarrow> weak_sys \<Rightarrow> weak_sys option" where
  "weak_exec_all R C wd [] s = Some s"
| "weak_exec_all R C wd (a # as) s =
     (case weak_exec R C wd a s of None \<Rightarrow> None | Some t \<Rightarrow> weak_exec_all R C wd as t)"

lemma weak_exec_step: "weak_exec R C wd a s = Some t \<Longrightarrow> weak_step R C wd s t"
  by (cases a) (auto simp: not_le intro: weak_step.intros
      split: prod.splits prod_pc.splits cons_pc.splits option.splits if_splits)

lemma weak_step_exec: "weak_step R C wd s t \<Longrightarrow> \<exists>a. weak_exec R C wd a s = Some t"
proof (cases rule: weak_step.cases, assumption, goal_cases)
  case (1 item pos m V) then show ?case by (intro exI [of _ "Claim item"]) simp
next
  case (2 pos item m V) then show ?case by (intro exI [of _ Begin]) simp
next
  case (3 pos item rem k m V) then show ?case by (intro exI [of _ "Cell k"]) simp
next
  case (4 pos item m V) then show ?case by (intro exI [of _ Publish]) simp
next
  case (5 now m V) then show ?case by (intro exI [of _ "Beat now"]) simp
next
  case (6 i t w V) then show ?case by (intro exI [of _ "Make_Cursor i t"]) simp
next
  case (7 i t w V) then show ?case by (intro exI [of _ "Load i t"]) simp
next
  case (8 i t w V) then show ?case by (intro exI [of _ "Load i t"]) simp
next
  case (9 i t q V) then show ?case by (intro exI [of _ "Check i t"]) simp
next
  case (10 i t q V) then show ?case by (intro exI [of _ "Check i t"]) simp
next
  case (11 i rem k t b V) then show ?case by (intro exI [of _ "Copy i k t"]) simp
next
  case (12 i t q V) then show ?case by (intro exI [of _ "Recheck i t"]) simp
next
  case (13 i t q V) then show ?case by (intro exI [of _ "Recheck i t"]) simp
qed

lemma weak_exec_all_run: "weak_exec_all R C wd as s = Some t \<Longrightarrow> (weak_step R C wd)\<^sup>*\<^sup>* s t"
  by (induction as arbitrary: s) (auto split: option.splits intro: converse_rtranclp_into_rtranclp weak_exec_step)

text \<open>The state after construction, with one output buffer of zeros per consumer.\<close>

definition weak_start :: "nat \<Rightarrow> weak_sys" where
  "weak_start wd = \<lparr>wm_mem = weak_mem_init, wm_prod = P_Idle, wm_pview = empty_view, wm_pc = (\<lambda>_. C_Idle),
     wm_view = (\<lambda>_. empty_view), wm_cursor = (\<lambda>_. make_cursor_from_start), wm_out = (\<lambda>_. replicate wd 0),
     wm_hist = [], wm_got = (\<lambda>_. [])\<rparr>"

lemma weak_exec_reachable:
  assumes "valid_capacity C" "weak_exec_all R C wd as (weak_start wd) = Some t"
  shows "reachable (weak_init C wd) (weak_step R C wd) t"
  using reachable_run [OF weak_exec_all_run [OF assms(2)]] assms(1)
  by (simp add: reach_init weak_init_def weak_start_def)

text \<open>The accesses of a whole \<open>push\<close>.\<close>

definition push_actions :: "u64 list \<Rightarrow> weak_action list" where
  "push_actions item = Claim item # Begin # map Cell [0..<length item] @ [Publish]"

definition torn_schedule :: "weak_action list \<Rightarrow> weak_action list" where
  "torn_schedule bs = push_actions [1, 2] @ bs @ [Load 0 1, Check 0 2, Copy 0 0 1] @ push_actions [3, 4] @ bs @
     [Claim [5, 6], Begin, Cell 0, Cell 1, Copy 0 1 2, Recheck 0 2]"

text \<open>
  C20. The check of the sequence number after the copy does not keep a torn payload out when the
  accesses are only release and acquire: under the default policy of the shared-memory ring and
  with the orders of the in-process ring there is a run in which \<open>pop\<close> returns \<open>true\<close> for
  position 0 with one cell of the payload at position 0 and one of the payload at position 2,
  whose \<open>push\<close> is still copying.
\<close>

theorem torn_payload_accepted:
  "(\<exists>s. reachable (weak_init 2 2) (weak_step (shm_orders DefaultSyncPolicy) 2 2) s \<and>
      wm_hist s = [[1, 2], [3, 4], [5, 6]] \<and> wm_got s 0 = [(0, [1, 6], 3)]) \<and>
   (\<exists>s. reachable (weak_init 2 2) (weak_step intra_orders 2 2) s \<and>
      wm_hist s = [[1, 2], [3, 4], [5, 6]] \<and> wm_got s 0 = [(0, [1, 6], 3)])"
proof -
  let ?out = "\<lambda>R bs. map_option (\<lambda>s. (wm_hist s, wm_got s 0)) (weak_exec_all R 2 2 (torn_schedule bs) (weak_start 2))"
  have "?out (shm_orders DefaultSyncPolicy) [Beat 1] = Some ([[1, 2], [3, 4], [5, 6]], [(0, [1, 6], 3)])"
    "?out intra_orders [] = Some ([[1, 2], [3, 4], [5, 6]], [(0, [1, 6], 3)])"
    by code_simp+
  moreover have "valid_capacity 2" by (simp add: valid_capacity_def)
  ultimately show ?thesis using weak_exec_reachable [where C = 2 and wd = 2] by fastforce
qed

text \<open>
  Under \<open>RelaxedPolicy\<close> even a slot that is written once is not safe to read: a \<open>pop\<close> can return
  \<open>true\<close> with the initial contents of the slot in place of the payload.
\<close>

theorem relaxed_policy_stale:
  "\<exists>s. reachable (weak_init 2 1) (weak_step (shm_orders RelaxedPolicy) 2 1) s \<and>
     wm_hist s = [[7]] \<and> wm_got s 0 = [(0, [0], 1)]"
proof -
  have "map_option (\<lambda>s. (wm_hist s, wm_got s 0)) (weak_exec_all (shm_orders RelaxedPolicy) 2 1
      (push_actions [7] @ [Beat 1, Load 0 1, Check 0 2, Copy 0 0 0, Recheck 0 2]) (weak_start 1)) = Some ([[7]], [(0, [0], 1)])"
    by code_simp
  moreover have "valid_capacity 2" by (simp add: valid_capacity_def)
  ultimately show ?thesis using weak_exec_reachable [where C = 2 and wd = 1] by fastforce
qed

text \<open>The same schedule does not go through under the default policy: the old cell is out of sight.\<close>

lemma default_policy_not_stale:
  "weak_exec_all (shm_orders DefaultSyncPolicy) 2 1
     (push_actions [7] @ [Beat 1, Load 0 1, Check 0 2, Copy 0 0 0, Recheck 0 2]) (weak_start 1) = None"
proof -
  have "Option.is_none (weak_exec_all (shm_orders DefaultSyncPolicy) 2 1
     (push_actions [7] @ [Beat 1, Load 0 1, Check 0 2, Copy 0 0 0, Recheck 0 2]) (weak_start 1))"
    by code_simp
  then show ?thesis by (simp add: Option.is_none_def)
qed

theorem weak_delivery_witness:
  "\<exists>s d. reachable (weak_init 2 2) (weak_step (shm_orders DefaultSyncPolicy) 2 2) s \<and>
     wm_hist s = [[7, 8], [9, 10]] \<and> wm_got s 0 = [(0, d, 2)] \<and> d = wm_hist s ! 0"
proof -
  let ?R = "shm_orders DefaultSyncPolicy"
  have "map_option (\<lambda>s. (wm_hist s, wm_got s 0)) (weak_exec_all ?R 2 2
      (push_actions [7, 8] @ [Beat 1] @ push_actions [9, 10] @ [Load 0 1, Check 0 2, Copy 0 1 1, Copy 0 0 1, Recheck 0 2])
      (weak_start 2)) = Some ([[7, 8], [9, 10]], [(0, [7, 8], 2)])"
    by code_simp
  then obtain s where e: "weak_exec_all ?R 2 2
      (push_actions [7, 8] @ [Beat 1] @ push_actions [9, 10] @ [Load 0 1, Check 0 2, Copy 0 1 1, Copy 0 0 1, Recheck 0 2])
      (weak_start 2) = Some s" and s: "wm_hist s = [[7, 8], [9, 10]]" "wm_got s 0 = [(0, [7, 8], 2)]" by fastforce
  have r: "reachable (weak_init 2 2) (weak_step ?R 2 2) s"
    using weak_exec_reachable [OF _ e] by (simp add: valid_capacity_def)
  have "(0, [7, 8], 2) \<in> set (wm_got s 0)" "length (wm_hist s) < 2 ^ 63" by (simp_all add: s)
  then have "[7, 8] = wm_hist s ! 0"
    using weak_delivery [of ?R 2 2 s 0] r publishing_policies(3) by (auto dest!: bspec)
  with r s show ?thesis by (intro exI [of _ s] exI [of _ "[7, 8]"]) simp
qed


section \<open>The interleaved model is the part in which every load is fresh\<close>

definition weak_segment :: "u64 \<Rightarrow> nat \<Rightarrow> shm_memory \<Rightarrow> u64 list shm_segment" where
  "weak_segment C wd m =
     \<lparr>write_pos = newest m Write_Pos, last_heartbeat_ns = newest m Heartbeat,
      shm_slots = map (\<lambda>i. \<lparr>slot_seq = newest m (Sequence i), slot_data = map (\<lambda>k. newest m (Data i k)) [0..<wd]\<rparr>)
        [0..<unat C]\<rparr>"

definition weak_abs :: "u64 \<Rightarrow> nat \<Rightarrow> weak_sys \<Rightarrow> u64 shm_sys" where
  "weak_abs C wd s =
     \<lparr>sc_seg = weak_segment C wd (wm_mem s), sc_prod = wm_prod s, sc_pc = wm_pc s, sc_cursor = wm_cursor s,
      sc_out = wm_out s, sc_hist = wm_hist s, sc_got = (\<lambda>i. map (\<lambda>(p, d, m). (p, d)) (wm_got s i))\<rparr>"

lemma weak_abs_simps [simp]:
  "sc_seg (weak_abs C wd s) = weak_segment C wd (wm_mem s)" "sc_prod (weak_abs C wd s) = wm_prod s"
  "sc_pc (weak_abs C wd s) = wm_pc s" "sc_cursor (weak_abs C wd s) = wm_cursor s"
  "sc_out (weak_abs C wd s) = wm_out s" "sc_hist (weak_abs C wd s) = wm_hist s"
  "sc_got (weak_abs C wd s) = (\<lambda>i. map (\<lambda>(p, d, m). (p, d)) (wm_got s i))"
  by (simp_all add: weak_abs_def)

lemma weak_segment_simps:
  "write_pos (weak_segment C wd m) = newest m Write_Pos"
  "slot_index C c < unat C \<Longrightarrow> slot_seq (slot_at C c (weak_segment C wd m)) = newest m (Sequence (slot_index C c))"
  "slot_index C c < unat C \<Longrightarrow> k < wd \<Longrightarrow>
     slot_data (slot_at C c (weak_segment C wd m)) ! k = newest m (Data (slot_index C c) k)"
  by (simp_all add: weak_segment_def slot_at_def)

lemma weak_segment_store:
  "weak_segment C wd (m(Write_Pos := m Write_Pos @ [x])) = (weak_segment C wd m)\<lparr>write_pos := msg_val x\<rparr>"
  "weak_segment C wd (m(Heartbeat := m Heartbeat @ [x])) = beat (msg_val x) (weak_segment C wd m)"
  by (simp_all add: weak_segment_def beat_def)

lemma weak_segment_sequence:
  assumes "slot_index C pos < unat C"
  shows "weak_segment C wd (m(Sequence (slot_index C pos) := m (Sequence (slot_index C pos)) @ [x])) =
    store_sequence C pos (msg_val x) (weak_segment C wd m)"
  using assms
  by (auto simp: weak_segment_def store_sequence_def slot_at_def nth_list_update intro!: nth_equalityI)

lemma weak_segment_data:
  assumes "slot_index C pos < unat C"
  shows "weak_segment C wd (m(Data (slot_index C pos) k := m (Data (slot_index C pos) k) @ [x])) =
    write_cell C pos k (msg_val x) (weak_segment C wd m)"
  using assms
  by (auto simp: weak_segment_def write_cell_def copy_payload_def slot_at_def nth_list_update intro!: nth_equalityI)


lemma fresh_load:
  assumes "weak_inv C wd s"
  obtains t V where "atomic_load mo l t (wm_mem s) (wm_view s i) = Some (newest (wm_mem s) l, V)"
  using atomic_load_last [OF mem_okD(1) [OF weak_invD(2) [OF assms]] weak_thread_okD(1) [OF weak_invD(5) [OF assms, of i]], of mo l]
  by (auto simp: newest_def)

lemma interleaved_step_weak:
  assumes step: "shm_step C wd (weak_abs C wd s) t" and inv: "weak_inv C wd s" and hb: "has_heartbeat R"
  shows "\<exists>s'. weak_step R C wd s s' \<and> weak_abs C wd s' = t"
proof -
  note d = weak_invD [OF inv]
  have ix: "slot_index C c < unat C" for c using d(7,8) by simp
  have seq: "slot_seq (slot_at C c (weak_segment C wd m)) = newest m (Sequence (slot_index C c))" for c m
    using weak_segment_simps(2) [OF ix] .
  have sim: "\<exists>s'. weak_step R C wd s s' \<and> weak_abs C wd s' = t" if "weak_step R C wd s s'" "weak_abs C wd s' = t" for s'
    using that by blast
  show ?thesis
    using step
  proof (cases rule: shm_step.cases)
    case (p_claim item pos seg')
    obtain x V where x: "msg_val x = newest (wm_mem s) Write_Pos + 1"
      "atomic_rmw (claim_order R) Write_Pos (\<lambda>x. x + 1) (wm_mem s) (wm_pview s) =
        (newest (wm_mem s) Write_Pos, (wm_mem s)(Write_Pos := wm_mem s Write_Pos @ [x]), V)"
      using rmw_message [of "\<lambda>x. x + 1"] .
    let ?s = "s\<lparr>wm_mem := (wm_mem s)(Write_Pos := wm_mem s Write_Pos @ [x]), wm_pview := V,
        wm_prod := P_Claimed (newest (wm_mem s) Write_Pos) item, wm_hist := wm_hist s @ [item]\<rparr>"
    have "weak_step R C wd s ?s"
      using w_claim [where R = R and C = C and wd = wd, OF _ _ x(2), of item] p_claim by simp
    moreover have "weak_abs C wd ?s = t"
      using p_claim x(1) by (auto simp: weak_abs_def weak_segment_store push_claim_def weak_segment_simps)
    ultimately show ?thesis by blast
  next
    case (p_begin pos item)
    obtain x V where x: "msg_val x = pos * 2" "atomic_store (begin_order R) (Sequence (slot_index C pos)) (pos * 2) (wm_mem s) (wm_pview s) =
        ((wm_mem s)(Sequence (slot_index C pos) := wm_mem s (Sequence (slot_index C pos)) @ [x]), V)"
      using store_message .
    show ?thesis
      by (rule sim [OF w_begin [OF _ x(2)]]) (use p_begin x(1) in \<open>auto simp: weak_abs_def weak_segment_sequence [OF ix]\<close>)
  next
    case (p_cell pos item rem k)
    obtain x V where x: "msg_val x = item ! k" "atomic_store memory_order_relaxed (Data (slot_index C pos) k) (item ! k) (wm_mem s) (wm_pview s) =
        ((wm_mem s)(Data (slot_index C pos) k := wm_mem s (Data (slot_index C pos) k) @ [x]), V)"
      using store_message .
    show ?thesis
      by (rule sim [OF w_cell [OF _ _ x(2)]]) (use p_cell x(1) in \<open>auto simp: weak_abs_def weak_segment_data [OF ix]\<close>)
  next
    case (p_publish pos item)
    obtain x V where x: "msg_val x = pos * 2 + 1" "atomic_store (publish_order R) (Sequence (slot_index C pos)) (pos * 2 + 1) (wm_mem s) (wm_pview s) =
        ((wm_mem s)(Sequence (slot_index C pos) := wm_mem s (Sequence (slot_index C pos)) @ [x]), V)"
      using store_message .
    show ?thesis
      by (rule sim [OF w_publish [OF _ x(2)]]) (use p_publish hb x(1) in \<open>auto simp: weak_abs_def weak_segment_sequence [OF ix] after_publish_def\<close>)
  next
    case (p_beat now)
    obtain x V where x: "msg_val x = now" "atomic_store memory_order_relaxed Heartbeat now (wm_mem s) (wm_pview s) =
        ((wm_mem s)(Heartbeat := wm_mem s Heartbeat @ [x]), V)"
      using store_message .
    show ?thesis
      by (rule sim [OF w_beat [OF _ x(2)]]) (use p_beat x(1) in \<open>auto simp: weak_abs_def weak_segment_store\<close>)
  next
    case (c_cursor i)
    obtain t' V where l: "atomic_load (read_order R) Write_Pos t' (wm_mem s) (wm_view s i) = Some (newest (wm_mem s) Write_Pos, V)"
      using fresh_load [OF inv] .
    show ?thesis
      by (rule sim [OF w_cursor [OF _ l]]) (use c_cursor l in \<open>auto simp: weak_abs_def shm_make_cursor_def weak_segment_simps\<close>)
  next
    case (c_load i)
    obtain t' V where l: "atomic_load (read_order R) Write_Pos t' (wm_mem s) (wm_view s i) = Some (newest (wm_mem s) Write_Pos, V)"
      using fresh_load [OF inv] .
    show ?thesis
      by (rule sim [OF w_load [OF _ l]]) (use c_load l in \<open>auto simp: weak_abs_def weak_segment_simps\<close>)
  next
    case (c_not_ready i)
    obtain t' V where l: "atomic_load (read_order R) (Sequence (slot_index C (wm_cursor s i))) t' (wm_mem s) (wm_view s i) =
        Some (newest (wm_mem s) (Sequence (slot_index C (wm_cursor s i))), V)"
      using fresh_load [OF inv] .
    show ?thesis
      by (rule sim [OF w_not_ready [OF _ l]]) (use c_not_ready l in \<open>auto simp: weak_abs_def seq\<close>)
  next
    case (c_ready i)
    obtain t' V where l: "atomic_load (read_order R) (Sequence (slot_index C (wm_cursor s i))) t' (wm_mem s) (wm_view s i) =
        Some (newest (wm_mem s) (Sequence (slot_index C (wm_cursor s i))), V)"
      using fresh_load [OF inv] .
    show ?thesis
      by (rule sim [OF w_ready [OF _ l]]) (use c_ready l in \<open>auto simp: weak_abs_def seq\<close>)
  next
    case (c_cell i rem k)
    obtain t' V where l: "atomic_load memory_order_relaxed (Data (slot_index C (wm_cursor s i)) k) t' (wm_mem s) (wm_view s i) =
        Some (newest (wm_mem s) (Data (slot_index C (wm_cursor s i)) k), V)"
      using fresh_load [OF inv] .
    have kw: "k < wd" using weak_thread_okD(3) [OF d(5) [of i]] c_cell(2,3) by auto
    show ?thesis
      by (rule sim [OF w_copy [OF _ _ l]]) (use c_cell kw in \<open>auto simp: weak_abs_def weak_segment_simps(3) [OF ix]\<close>)
  next
    case (c_torn i)
    obtain t' V where l: "atomic_load (read_order R) (Sequence (slot_index C (wm_cursor s i))) t' (wm_mem s) (wm_view s i) =
        Some (newest (wm_mem s) (Sequence (slot_index C (wm_cursor s i))), V)"
      using fresh_load [OF inv] .
    show ?thesis
      by (rule sim [OF w_torn [OF _ l]]) (use c_torn l in \<open>auto simp: weak_abs_def seq\<close>)
  next
    case (c_done i)
    obtain t' V where l: "atomic_load (read_order R) (Sequence (slot_index C (wm_cursor s i))) t' (wm_mem s) (wm_view s i) =
        Some (newest (wm_mem s) (Sequence (slot_index C (wm_cursor s i))), V)"
      using fresh_load [OF inv] .
    show ?thesis
      by (rule sim [OF w_done [OF _ l]]) (use c_done l in \<open>auto simp: weak_abs_def seq\<close>)
  qed
qed





end
