(* ===== verification/Loaned_Sample.thy ===== *)
theory Loaned_Sample
  imports Object_Pool
begin

text \<open>
  \<open>LoanedSample\<close> of \<open>loaned_sample.hpp\<close>: the move-only handle to a pool slot. Programs over any number
  of handles are sequences of operations on a world of variables; the ownership discipline is
  proved once over the interface \<open>slot_pool\<close> and holds for the object pool by interpretation.
\<close>

record 'h LoanedSample =
  loan_ptr :: "'h option"
  loan_pool :: bool

definition LoanedSample_ctor :: "'h option \<Rightarrow> bool \<Rightarrow> 'h LoanedSample" where
  "LoanedSample_ctor p pool = \<lparr>loan_ptr = p, loan_pool = pool\<rparr>"

definition LoanedSample_default :: "'h LoanedSample" where
  "LoanedSample_default = \<lparr>loan_ptr = None, loan_pool = False\<rparr>"

text \<open>Result: the new object and what is left in the source.\<close>

definition move_ctor :: "'h LoanedSample \<Rightarrow> 'h LoanedSample \<times> 'h LoanedSample" where
  "move_ctor other =
     (\<lparr>loan_ptr = loan_ptr other, loan_pool = loan_pool other\<rparr>,
      other\<lparr>loan_ptr := None, loan_pool := False\<rparr>)"

definition do_release ::
  "('h \<Rightarrow> 'p \<Rightarrow> 'p) \<Rightarrow> 'h LoanedSample \<Rightarrow> 'p \<Rightarrow> 'h LoanedSample \<times> 'p" where
  "do_release rel l pool =
     (l\<lparr>loan_ptr := None, loan_pool := False\<rparr>,
      case loan_ptr l of
        Some h \<Rightarrow> if loan_pool l then rel h pool else pool
      | None \<Rightarrow> pool)"

text \<open>
  \<open>operator=(LoanedSample&&)\<close> on the objects named \<open>self\<close> and \<open>other\<close> of a store of objects:
  assigning an object to itself does nothing.
\<close>

definition move_assign ::
  "('h \<Rightarrow> 'p \<Rightarrow> 'p) \<Rightarrow> nat \<Rightarrow> nat \<Rightarrow> (nat \<Rightarrow> 'h LoanedSample) \<Rightarrow> 'p \<Rightarrow>
   (nat \<Rightarrow> 'h LoanedSample) \<times> 'p" where
  "move_assign rel self other vars pool =
     (if self = other then (vars, pool)
      else let (l, pool') = do_release rel (vars self) pool;
               l' = l\<lparr>loan_ptr := loan_ptr (vars other), loan_pool := loan_pool (vars other)\<rparr>;
               o' = (vars other)\<lparr>loan_ptr := None, loan_pool := False\<rparr>
           in (vars(self := l', other := o'), pool'))"

definition loan_reset :: "('h \<Rightarrow> 'p \<Rightarrow> 'p) \<Rightarrow> 'h LoanedSample \<Rightarrow> 'p \<Rightarrow> 'h LoanedSample \<times> 'p" where
  "loan_reset rel l pool = do_release rel l pool"

definition LoanedSample_dtor :: "('h \<Rightarrow> 'p \<Rightarrow> 'p) \<Rightarrow> 'h LoanedSample \<Rightarrow> 'p \<Rightarrow> 'p" where
  "LoanedSample_dtor rel l pool = snd (do_release rel l pool)"

definition release_raw :: "'h LoanedSample \<Rightarrow> 'h option \<times> 'h LoanedSample" where
  "release_raw l = (loan_ptr l, l\<lparr>loan_ptr := None, loan_pool := False\<rparr>)"

definition loan_get :: "'h LoanedSample \<Rightarrow> 'h option" where
  "loan_get l = loan_ptr l"

definition loan_bool :: "'h LoanedSample \<Rightarrow> bool" where
  "loan_bool l \<longleftrightarrow> loan_ptr l \<noteq> None"

datatype loan_error = Null_Dereference

definition loan_deref :: "'h LoanedSample \<Rightarrow> loan_error + 'h" where
  "loan_deref l = (case loan_ptr l of Some h \<Rightarrow> Inr h | None \<Rightarrow> Inl Null_Dereference)"

section \<open>Programs over loans\<close>

text \<open>
  A program that works with loans of one pool: a store of loan objects, the pool, and the
  handles taken out of the loans by \<open>release_raw\<close>, which the program must give back itself.
  \<open>Borrow v\<close> is \<open>v = LoanedSample(pool.acquire(), p ? &pool : nullptr)\<close>: a temporary is built,
  moved into \<open>v\<close> and destroyed.
\<close>

record ('h, 'p) loan_world =
  lw_pool :: 'p
  lw_vars :: "nat \<Rightarrow> 'h LoanedSample"
  lw_raw :: "'h set"

datatype 'h loan_op = Borrow nat | Move nat nat | Reset nat | Take_Raw nat | Give_Raw 'h

definition borrow ::
  "('p \<Rightarrow> 'h option \<times> 'p) \<Rightarrow> ('h \<Rightarrow> 'p \<Rightarrow> 'p) \<Rightarrow> nat \<Rightarrow> ('h, 'p) loan_world \<Rightarrow> ('h, 'p) loan_world" where
  "borrow acq rel v w =
     (let (p, pool1) = acq (lw_pool w);
          tmp = LoanedSample_ctor p (p \<noteq> None);
          (l, pool2) = do_release rel (lw_vars w v) pool1;
          l' = l\<lparr>loan_ptr := loan_ptr tmp, loan_pool := loan_pool tmp\<rparr>;
          pool3 = LoanedSample_dtor rel (tmp\<lparr>loan_ptr := None, loan_pool := False\<rparr>) pool2
      in w\<lparr>lw_pool := pool3, lw_vars := (lw_vars w)(v := l')\<rparr>)"

fun loan_exec ::
  "('p \<Rightarrow> 'h option \<times> 'p) \<Rightarrow> ('h \<Rightarrow> 'p \<Rightarrow> 'p) \<Rightarrow> 'h loan_op \<Rightarrow> ('h, 'p) loan_world \<Rightarrow>
   ('h, 'p) loan_world" where
  "loan_exec acq rel (Borrow v) w = borrow acq rel v w"
| "loan_exec acq rel (Move v u) w =
     (let (vars, pool) = move_assign rel v u (lw_vars w) (lw_pool w)
      in w\<lparr>lw_vars := vars, lw_pool := pool\<rparr>)"
| "loan_exec acq rel (Reset v) w =
     (let (l, pool) = loan_reset rel (lw_vars w v) (lw_pool w)
      in w\<lparr>lw_vars := (lw_vars w)(v := l), lw_pool := pool\<rparr>)"
| "loan_exec acq rel (Take_Raw v) w =
     (let (h, l) = release_raw (lw_vars w v)
      in w\<lparr>lw_vars := (lw_vars w)(v := l),
           lw_raw := (case h of Some a \<Rightarrow> insert a (lw_raw w) | None \<Rightarrow> lw_raw w)\<rparr>)"
| "loan_exec acq rel (Give_Raw h) w =
     (if h \<in> lw_raw w then w\<lparr>lw_pool := rel h (lw_pool w), lw_raw := lw_raw w - {h}\<rparr> else w)"

definition holds :: "'h LoanedSample \<Rightarrow> 'h \<Rightarrow> bool" where
  "holds l h \<longleftrightarrow> loan_ptr l = Some h"

text \<open>Every handle is in exactly one place, and a loan has its pool exactly when it has a pointer.\<close>

definition loans_ok ::
  "('p \<Rightarrow> bool) \<Rightarrow> ('p \<Rightarrow> 'h list) \<Rightarrow> 'h set \<Rightarrow> ('h, 'p) loan_world \<Rightarrow> bool" where
  "loans_ok pool_ok free slots w \<longleftrightarrow>
     pool_ok (lw_pool w) \<and>
     (\<forall>v. loan_pool (lw_vars w v) \<longleftrightarrow> loan_ptr (lw_vars w v) \<noteq> None) \<and>
     (\<forall>v h. holds (lw_vars w v) h \<longrightarrow> h \<in> slots \<and> h \<notin> set (free (lw_pool w)) \<and> h \<notin> lw_raw w) \<and>
     (\<forall>v u h. holds (lw_vars w v) h \<longrightarrow> holds (lw_vars w u) h \<longrightarrow> v = u) \<and>
     lw_raw w \<subseteq> slots - set (free (lw_pool w)) \<and>
     (\<forall>h\<in>slots. h \<in> set (free (lw_pool w)) \<or> h \<in> lw_raw w \<or> (\<exists>v. holds (lw_vars w v) h))"

lemma loans_okI:
  assumes "pool_ok (lw_pool w)"
    and "\<And>v. loan_pool (lw_vars w v) \<longleftrightarrow> loan_ptr (lw_vars w v) \<noteq> None"
    and "\<And>v h. holds (lw_vars w v) h \<Longrightarrow> h \<in> slots \<and> h \<notin> set (free (lw_pool w)) \<and> h \<notin> lw_raw w"
    and "\<And>v u h. holds (lw_vars w v) h \<Longrightarrow> holds (lw_vars w u) h \<Longrightarrow> v = u"
    and "lw_raw w \<subseteq> slots - set (free (lw_pool w))"
    and "\<And>h. h \<in> slots \<Longrightarrow> h \<in> set (free (lw_pool w)) \<or> h \<in> lw_raw w \<or> (\<exists>v. holds (lw_vars w v) h)"
  shows "loans_ok pool_ok free slots w"
  using assms by (simp add: loans_ok_def)

lemma loans_okD:
  assumes "loans_ok pool_ok free slots w"
  shows "pool_ok (lw_pool w)"
    and "loan_pool (lw_vars w v) \<longleftrightarrow> loan_ptr (lw_vars w v) \<noteq> None"
    and "holds (lw_vars w v) h \<Longrightarrow> h \<in> slots \<and> h \<notin> set (free (lw_pool w)) \<and> h \<notin> lw_raw w"
    and "holds (lw_vars w v) h \<Longrightarrow> holds (lw_vars w u) h \<Longrightarrow> v = u"
    and "lw_raw w \<subseteq> slots - set (free (lw_pool w))"
    and "h \<in> slots \<Longrightarrow> h \<in> set (free (lw_pool w)) \<or> h \<in> lw_raw w \<or> (\<exists>v. holds (lw_vars w v) h)"
  using assms by (auto simp: loans_ok_def)

text \<open>Updates of different fields of the world, in the order pool, variables, raw handles.\<close>

lemma loan_world_order [simp]:
  "w\<lparr>lw_vars := a, lw_pool := b\<rparr> = w\<lparr>lw_pool := b, lw_vars := a\<rparr>"
  "w\<lparr>lw_raw := c, lw_pool := b\<rparr> = w\<lparr>lw_pool := b, lw_raw := c\<rparr>"
  "w\<lparr>lw_raw := c, lw_vars := a\<rparr> = w\<lparr>lw_vars := a, lw_raw := c\<rparr>"
  by simp_all

abbreviation emptied :: "'h LoanedSample \<Rightarrow> 'h LoanedSample" where
  "emptied l \<equiv> l\<lparr>loan_ptr := None, loan_pool := False\<rparr>"

lemma holds_emptied [simp]: "\<not> holds (emptied l) h"
  by (simp add: holds_def)

lemma holds_filled [simp]: "holds (l\<lparr>loan_ptr := Some h, loan_pool := b\<rparr>) k \<longleftrightarrow> h = k"
  by (simp add: holds_def)

context slot_pool
begin

lemma acq_to_raw:
  assumes ok: "loans_ok inv free slots w" and got: "fst (acq (lw_pool w)) = Some h"
  shows "loans_ok inv free slots (w\<lparr>lw_pool := snd (acq (lw_pool w)), lw_raw := insert h (lw_raw w)\<rparr>)"
proof -
  note d = loans_okD [OF ok]
  note a = acq_Some [OF d(1) got]
  have f: "set (free (lw_pool w)) = insert h (set (free (snd (acq (lw_pool w)))))" using a(2) by simp
  show ?thesis
  proof (rule loans_okI, goal_cases)
    case 1 show ?case using acq_inv [OF d(1)] by simp
  next
    case (2 v) show ?case using d(2) [of v] by simp
  next
    case (3 v x) then show ?case using d(3) [of v x] f by auto
  next
    case (4 v u x) then show ?case using d(4) [of v x u] by simp
  next
    case 5 show ?case using d(5) a f by auto
  next
    case (6 x) then show ?case using d(6) [of x] f by auto
  qed
qed

lemma var_to_raw:
  assumes ok: "loans_ok inv free slots w" and h: "holds (lw_vars w v) h"
  shows "loans_ok inv free slots
    (w\<lparr>lw_vars := (lw_vars w)(v := emptied (lw_vars w v)), lw_raw := insert h (lw_raw w)\<rparr>)"
proof -
  note d = loans_okD [OF ok]
  show ?thesis
  proof (rule loans_okI, goal_cases)
    case 1 show ?case using d(1) by simp
  next
    case (2 u) show ?case using d(2) [of u] by simp
  next
    case (3 u x) then show ?case using d(3) [of u x] d(4) [OF h, of u] by (auto split: if_splits)
  next
    case (4 a b x) then show ?case using d(4) [of a x b] by (auto split: if_splits)
  next
    case 5 show ?case using d(5) d(3) [OF h] by auto
  next
    case (6 x) then show ?case using d(6) [of x] h
      by simp (metis fun_upd_other holds_def option.inject)
  qed
qed

lemma raw_to_var:
  assumes ok: "loans_ok inv free slots w" and h: "h \<in> lw_raw w" and e: "loan_ptr (lw_vars w v) = None"
  shows "loans_ok inv free slots
    (w\<lparr>lw_vars := (lw_vars w)(v := (lw_vars w v)\<lparr>loan_ptr := Some h, loan_pool := True\<rparr>),
       lw_raw := lw_raw w - {h}\<rparr>)"
proof -
  note d = loans_okD [OF ok]
  have nh: "\<not> holds (lw_vars w u) h" for u using d(3) [of u h] h by auto
  show ?thesis
  proof (rule loans_okI, goal_cases)
    case 1 show ?case using d(1) by simp
  next
    case (2 u) show ?case using d(2) [of u] by simp
  next
    case (3 u x) then show ?case using d(3) [of u x] d(5) h by (auto split: if_splits)
  next
    case (4 a b x) then show ?case using d(4) [of a x b] nh by (auto split: if_splits)
  next
    case 5 show ?case using d(5) by auto
  next
    case (6 x)
    have "\<not> holds (lw_vars w v) x" using e by (simp add: holds_def)
    with 6 d(6) [of x] show ?case by simp (metis fun_upd_other fun_upd_same holds_filled)
  qed
qed

lemma raw_release:
  assumes ok: "loans_ok inv free slots w" and h: "h \<in> lw_raw w"
  shows "loans_ok inv free slots (w\<lparr>lw_pool := rel h (lw_pool w), lw_raw := lw_raw w - {h}\<rparr>)"
proof -
  note d = loans_okD [OF ok]
  have r: "inv (rel h (lw_pool w))" "free (rel h (lw_pool w)) = h # free (lw_pool w)"
    using d(5) h rel_free [OF d(1)] by auto
  show ?thesis
  proof (rule loans_okI, goal_cases)
    case 1 show ?case using r by simp
  next
    case (2 v) show ?case using d(2) [of v] by simp
  next
    case (3 v x) then show ?case using d(3) [of v x] h r by auto
  next
    case (4 v u x) then show ?case using d(4) [of v x u] by simp
  next
    case 5 show ?case using d(5) h r by auto
  next
    case (6 x) then show ?case using d(6) [of x] r by auto
  qed
qed

lemma release_var:
  assumes ok: "loans_ok inv free slots w"
  shows "loans_ok inv free slots
    (w\<lparr>lw_vars := (lw_vars w)(v := emptied (lw_vars w v)),
       lw_pool := snd (do_release rel (lw_vars w v) (lw_pool w))\<rparr>)"
proof (cases "loan_ptr (lw_vars w v)")
  case None
  moreover have "emptied (lw_vars w v) = lw_vars w v"
    using None loans_okD(2) [OF ok, of v] by simp
  ultimately show ?thesis using ok by (simp add: do_release_def)
next
  case (Some h)
  let ?w = "w\<lparr>lw_vars := (lw_vars w)(v := emptied (lw_vars w v)), lw_raw := insert h (lw_raw w)\<rparr>"
  have hv: "holds (lw_vars w v) h" using Some by (simp add: holds_def)
  have "loans_ok inv free slots (?w\<lparr>lw_pool := rel h (lw_pool ?w), lw_raw := lw_raw ?w - {h}\<rparr>)"
    by (rule raw_release [OF var_to_raw [OF ok hv]]) simp
  moreover have "h \<notin> lw_raw w" "loan_pool (lw_vars w v)"
    using loans_okD(2,3) [OF ok, of v] hv Some by auto
  ultimately show ?thesis using Some by (simp add: do_release_def)
qed

lemma borrow_ok:
  assumes ok: "loans_ok inv free slots w"
  shows "loans_ok inv free slots (borrow acq rel v w)"
proof (cases "fst (acq (lw_pool w))")
  case None
  then have "acq (lw_pool w) = (None, lw_pool w)"
    using loans_okD(1) [OF ok] acq_None_iff acq_nil by blast
  with release_var [OF ok, of v] show ?thesis
    by (simp add: borrow_def do_release_def LoanedSample_ctor_def LoanedSample_dtor_def Let_def)
next
  case (Some h)
  obtain p1 where a: "acq (lw_pool w) = (Some h, p1)" using Some by (cases "acq (lw_pool w)") auto
  let ?w1 = "w\<lparr>lw_pool := p1, lw_raw := insert h (lw_raw w)\<rparr>"
  have ok1: "loans_ok inv free slots ?w1" using acq_to_raw [OF ok Some] a by simp
  let ?w2 = "?w1\<lparr>lw_vars := (lw_vars ?w1)(v := emptied (lw_vars ?w1 v)),
       lw_pool := snd (do_release rel (lw_vars ?w1 v) (lw_pool ?w1))\<rparr>"
  have ok2: "loans_ok inv free slots ?w2" by (rule release_var [OF ok1])
  have "h \<in> set (free (lw_pool w))" using acq_Some(2) [OF loans_okD(1) [OF ok] Some] by simp
  then have nr: "lw_raw w - {h} = lw_raw w" using loans_okD(5) [OF ok] by auto
  have "loans_ok inv free slots
      (?w2\<lparr>lw_vars := (lw_vars ?w2)(v := (lw_vars ?w2 v)\<lparr>loan_ptr := Some h, loan_pool := True\<rparr>),
         lw_raw := lw_raw ?w2 - {h}\<rparr>)"
    by (rule raw_to_var [OF ok2]) simp_all
  then show ?thesis
    by (simp add: borrow_def a do_release_def LoanedSample_ctor_def LoanedSample_dtor_def Let_def nr)
qed

lemma move_ok:
  assumes ok: "loans_ok inv free slots w"
  shows "loans_ok inv free slots (loan_exec acq rel (Move v u) w)"
proof (cases "v = u")
  case True
  then show ?thesis using ok by (simp add: move_assign_def)
next
  case False
  let ?w1 = "w\<lparr>lw_vars := (lw_vars w)(v := emptied (lw_vars w v)),
       lw_pool := snd (do_release rel (lw_vars w v) (lw_pool w))\<rparr>"
  have ok1: "loans_ok inv free slots ?w1" by (rule release_var [OF ok])
  show ?thesis
  proof (cases "loan_ptr (lw_vars w u)")
    case None
    then have "emptied (lw_vars w u) = lw_vars w u" using loans_okD(2) [OF ok, of u] by simp
    with ok1 None False loans_okD(2) [OF ok, of u] show ?thesis
      by (simp add: move_assign_def do_release_def Let_def fun_upd_idem)
  next
    case (Some h)
    let ?w2 = "?w1\<lparr>lw_vars := (lw_vars ?w1)(u := emptied (lw_vars ?w1 u)), lw_raw := insert h (lw_raw ?w1)\<rparr>"
    have hu: "holds (lw_vars ?w1 u) h" using Some False by (simp add: holds_def)
    have "loans_ok inv free slots
        (?w2\<lparr>lw_vars := (lw_vars ?w2)(v := (lw_vars ?w2 v)\<lparr>loan_ptr := Some h, loan_pool := True\<rparr>),
           lw_raw := lw_raw ?w2 - {h}\<rparr>)"
      by (rule raw_to_var [OF var_to_raw [OF ok1 hu]]) (use False in simp_all)
    moreover have "lw_raw w - {h} = lw_raw w" using loans_okD(3) [OF ok1 hu] by simp
    moreover have "loan_pool (lw_vars w u)" using loans_okD(2) [OF ok, of u] Some by simp
    ultimately show ?thesis
      using Some False by (simp add: move_assign_def do_release_def Let_def fun_upd_twist)
  qed
qed

lemma loan_exec_ok: "loans_ok inv free slots w \<Longrightarrow> loans_ok inv free slots (loan_exec acq rel op w)"
proof (cases op)
  case (Take_Raw v)
  assume ok: "loans_ok inv free slots w"
  show ?thesis
  proof (cases "loan_ptr (lw_vars w v)")
    case None
    then have "emptied (lw_vars w v) = lw_vars w v" using loans_okD(2) [OF ok, of v] by simp
    with ok None Take_Raw show ?thesis by (simp add: release_raw_def)
  next
    case (Some h)
    with var_to_raw [OF ok, of v h] Take_Raw show ?thesis by (simp add: release_raw_def holds_def)
  qed
qed (use borrow_ok move_ok release_var raw_release in
     \<open>auto simp: loan_reset_def do_release_def split: option.splits\<close>)

lemma loan_run_ok:
  "loans_ok inv free slots w \<Longrightarrow> loans_ok inv free slots (fold (loan_exec acq rel) ops w)"
  by (induction ops arbitrary: w) (simp_all add: loan_exec_ok)

end

section \<open>Loans of the object pool\<close>

definition loan_start :: "'p \<Rightarrow> ('h, 'p) loan_world" where
  "loan_start pool = \<lparr>lw_pool = pool, lw_vars = (\<lambda>_. LoanedSample_default), lw_raw = {}\<rparr>"

definition pool_program ::
  "u64 \<Rightarrow> u64 \<Rightarrow> u64 \<Rightarrow> 'a \<Rightarrow> u64 loan_op list \<Rightarrow> (u64, 'a ObjectPool) loan_world" where
  "pool_program C sz base z ops =
     fold (loan_exec (acquire_now sz) (release_now C sz)) ops (loan_start (ObjectPool_ctor C base z))"

lemma loan_start_ok:
  assumes "pool_capacity C" "layout_ok C sz"
  shows "loans_ok (pool_at C sz base) (free_ptrs C sz base) (slot_addr sz base ` {..<unat C})
    (loan_start (ObjectPool_ctor C base z))"
proof -
  note c = ObjectPool_ctor_free [OF assms(1), of base z]
  have "pool_at C sz base (ObjectPool_ctor C base z)"
    using c(1) assms(2) by (simp add: pool_at_def ObjectPool_ctor_def)
  moreover have "set (free_ptrs C sz base (ObjectPool_ctor C base z)) = slot_addr sz base ` {..<unat C}"
    by (simp add: free_ptrs_def c(2) atLeast_upt)
  ultimately show ?thesis
    by (intro loans_okI) (simp_all add: loan_start_def LoanedSample_default_def holds_def)
qed

lemma pool_program_ok:
  assumes "pool_capacity C" "layout_ok C sz"
  shows "loans_ok (pool_at C sz base) (free_ptrs C sz base) (slot_addr sz base ` {..<unat C})
    (pool_program C sz base z ops)"
  unfolding pool_program_def by (rule object_pool.loan_run_ok [OF loan_start_ok [OF assms]])

section \<open>Properties\<close>



text \<open>
  C28. Nothing leaks and nothing is returned twice: when every loan object of a program is empty
  again and no raw pointer is outstanding, the pool offers its full capacity.
\<close>

theorem loans_no_leak:
  assumes "pool_capacity C" "layout_ok C sz" and w: "w = pool_program C sz base z ops"
    and empty: "\<forall>v. \<not> loan_bool (lw_vars w v)" "lw_raw w = {}"
  shows "available C (lw_pool w) = unat C"
proof -
  note d = loans_okD [OF pool_program_ok [OF assms(1,2), of base z ops], folded w]
  let ?fl = "free_list C (lw_pool w)"
  have inv: "pool_inv C (lw_pool w)" using d(1) by (simp add: pool_at_def)
  have "x \<in> set ?fl" if "x < unat C" for x
  proof -
    have "slot_addr sz base x \<in> set (free_ptrs C sz base (lw_pool w))"
      using d(6) [of "slot_addr sz base x"] that empty by (auto simp: holds_def loan_bool_def)
    then obtain y where y: "y \<in> set ?fl" "slot_addr sz base x = slot_addr sz base y"
      by (auto simp: free_ptrs_def)
    with pool_inv_free_bound [OF inv] that slot_addr_inj [OF assms(1,2), of base] show ?thesis
      by (auto dest: inj_onD)
  qed
  then have "set ?fl = {..<unat C}" using pool_inv_free_bound [OF inv] by auto
  then have "length ?fl = unat C"
    using inv distinct_card [of ?fl] by (simp add: pool_inv_def)
  then show ?thesis by (simp add: available_length [OF inv])
qed

theorem loans_no_leak_witness:
  "available 2 (lw_pool (pool_program 2 16 4096 () [Borrow 0, Move 1 0, Borrow 0, Reset 1, Reset 0])) = 2"
proof -
  let ?ops = "[Borrow 0, Move 1 0, Borrow 0, Reset 1, Reset 0]"
  have "pool_capacity 2" "layout_ok 2 16" by (simp_all add: pool_capacity_def layout_ok_def)
  moreover have "\<forall>v. \<not> loan_bool (lw_vars (pool_program 2 16 4096 () ?ops) v)"
    "lw_raw (pool_program 2 16 4096 () ?ops) = {}"
    by (simp_all add: pool_program_def loan_start_def borrow_def move_assign_def loan_reset_def do_release_def
        LoanedSample_ctor_def LoanedSample_default_def LoanedSample_dtor_def loan_bool_def Let_def split_beta)
  ultimately show ?thesis using loans_no_leak [of 2 16 _ 4096 "()" ?ops, OF _ _ refl] by simp
qed

end
