(* ===== verification/Intra_Ring_Buffer.thy ===== *)
theory Intra_Ring_Buffer
  imports Shm_Ring_Buffer
begin

text \<open>
  \<open>IntraRingBuffer\<close> of \<open>publisher.hpp\<close>, the in-process ring. It is the protocol of the shared-memory
  ring without a heartbeat: every operation commutes with the view of an in-process ring as a
  segment, so the ring implements the contract of \<open>Spmc_Ring\<close>. The protocol is one for a single
  producer; the last section shows what two producers do to a slot.
\<close>

section \<open>The ring and its operations\<close>

record 'a intra_slot =
  is_sequence :: u64
  is_data :: 'a

record 'a IntraRingBuffer =
  ir_write_pos :: u64
  ir_slots :: "'a intra_slot list"

definition IntraRingBuffer_init :: "u64 \<Rightarrow> 'a \<Rightarrow> 'a IntraRingBuffer" where
  "IntraRingBuffer_init C zero =
     \<lparr>ir_write_pos = 0, ir_slots = replicate (unat C) \<lparr>is_sequence = 0, is_data = zero\<rparr>\<rparr>"

text \<open>The atomic actions of \<open>push\<close>, in program order.\<close>

definition intra_claim :: "'a IntraRingBuffer \<Rightarrow> u64 \<times> 'a IntraRingBuffer" where
  "intra_claim r = (ir_write_pos r, r\<lparr>ir_write_pos := ir_write_pos r + 1\<rparr>)"

definition intra_store_sequence :: "u64 \<Rightarrow> u64 \<Rightarrow> u64 \<Rightarrow> 'a IntraRingBuffer \<Rightarrow> 'a IntraRingBuffer" where
  "intra_store_sequence C pos v r =
     (let i = slot_index C pos in r\<lparr>ir_slots := (ir_slots r)[i := (ir_slots r ! i)\<lparr>is_sequence := v\<rparr>]\<rparr>)"

definition intra_copy :: "u64 \<Rightarrow> u64 \<Rightarrow> 'a \<Rightarrow> 'a IntraRingBuffer \<Rightarrow> 'a IntraRingBuffer" where
  "intra_copy C pos item r =
     (let i = slot_index C pos in r\<lparr>ir_slots := (ir_slots r)[i := (ir_slots r ! i)\<lparr>is_data := item\<rparr>]\<rparr>)"

definition intra_push :: "u64 \<Rightarrow> 'a \<Rightarrow> 'a IntraRingBuffer \<Rightarrow> u64 \<times> 'a IntraRingBuffer" where
  "intra_push C item r =
     (let (pos, r1) = intra_claim r;
          r2 = intra_store_sequence C pos (pos * 2) r1;
          r3 = intra_copy C pos item r2;
          r4 = intra_store_sequence C pos (pos * 2 + 1) r3
      in (pos, r4))"

definition intra_make_cursor :: "'a IntraRingBuffer \<Rightarrow> Cursor" where
  "intra_make_cursor r = ir_write_pos r"

definition intra_pop :: "u64 \<Rightarrow> Cursor \<Rightarrow> 'a \<Rightarrow> 'a IntraRingBuffer \<Rightarrow> bool \<times> Cursor \<times> 'a" where
  "intra_pop C pos out r =
     (let wp = ir_write_pos r
      in if pos \<ge> wp then (False, pos, out)
         else let pos' = (if wp - pos > C then wp - C else pos);
                  s = ir_slots r ! slot_index C pos';
                  expected = pos' * 2 + 1
              in if is_sequence s \<noteq> expected then (False, pos', out)
                 else let out' = is_data s
                      in if is_sequence s \<noteq> expected then (False, pos', out')
                         else (True, pos' + 1, out'))"

section \<open>The view as a segment\<close>

definition seg_slot :: "'a intra_slot \<Rightarrow> 'a shm_slot" where
  "seg_slot s = \<lparr>slot_seq = is_sequence s, slot_data = is_data s\<rparr>"

definition as_segment :: "u64 \<Rightarrow> 'a IntraRingBuffer \<Rightarrow> 'a shm_segment" where
  "as_segment hb r = \<lparr>write_pos = ir_write_pos r, last_heartbeat_ns = hb, shm_slots = map seg_slot (ir_slots r)\<rparr>"

definition intra_ok :: "u64 \<Rightarrow> 'a IntraRingBuffer \<Rightarrow> bool" where
  "intra_ok C r \<longleftrightarrow> valid_capacity C \<and> length (ir_slots r) = unat C"

lemma slot_index_bound: "valid_capacity C \<Longrightarrow> slot_index C pos < unat C"
  using valid_capacity_ge2 [of C] by (simp add: slot_index_mod)

lemma claim_as_segment:
  "push_claim (as_segment hb r) = (fst (intra_claim r), as_segment hb (snd (intra_claim r)))"
  by (simp add: push_claim_def intra_claim_def as_segment_def)

lemma store_as_segment:
  assumes "intra_ok C r"
  shows "store_sequence C pos v (as_segment hb r) = as_segment hb (intra_store_sequence C pos v r)"
  using assms slot_index_bound [of C pos]
  by (simp add: intra_ok_def store_sequence_def intra_store_sequence_def as_segment_def slot_at_def Let_def
      map_update seg_slot_def)

lemma copy_as_segment:
  assumes "intra_ok C r"
  shows "copy_payload C pos x (as_segment hb r) = as_segment hb (intra_copy C pos x r)"
  using assms slot_index_bound [of C pos]
  by (simp add: intra_ok_def copy_payload_def intra_copy_def as_segment_def slot_at_def Let_def
      map_update seg_slot_def)

lemma intra_ok_steps [simp]:
  "intra_ok C (snd (intra_claim r)) = intra_ok C r"
  "intra_ok C (intra_store_sequence C pos v r) = intra_ok C r"
  "intra_ok C (intra_copy C pos x r) = intra_ok C r"
  by (simp_all add: intra_ok_def intra_claim_def intra_store_sequence_def intra_copy_def Let_def)

lemma push_as_segment:
  assumes "intra_ok C r"
  shows "shm_push C now x (as_segment hb r) = (fst (intra_push C x r), as_segment now (snd (intra_push C x r)))"
proof -
  have "beat now (as_segment hb r') = as_segment now r'" for r' :: "'a IntraRingBuffer"
    by (simp add: beat_def as_segment_def)
  then show ?thesis
    using assms
    by (simp add: shm_push_def intra_push_def claim_as_segment store_as_segment copy_as_segment split_beta Let_def)
qed

lemma pop_as_segment:
  assumes "intra_ok C r"
  shows "shm_pop C c out (as_segment hb r) = intra_pop C c out r"
proof -
  have "slot_index C p < length (ir_slots r)" for p
    using assms slot_index_bound [of C p] by (simp add: intra_ok_def)
  then show ?thesis
    by (simp add: shm_pop_def pop_reads_def intra_pop_def as_segment_def fast_forward_def seg_slot_def Let_def)
qed

definition intra_history :: "u64 \<Rightarrow> 'a IntraRingBuffer \<Rightarrow> 'a list \<Rightarrow> bool" where
  "intra_history C r hs \<longleftrightarrow> shm_history C (as_segment 0 r) hs"

lemma history_heartbeat: "shm_history C (as_segment hb r) hs = shm_history C (as_segment hb' r) hs"
  by (simp add: shm_history_def as_segment_def)

lemma intra_history_ok: "intra_history C r hs \<Longrightarrow> intra_ok C r"
  by (simp add: intra_history_def shm_history_def intra_ok_def as_segment_def)

lemma intra_init_history:
  assumes "valid_capacity C"
  shows "intra_history C (IntraRingBuffer_init C z) []"
proof -
  have "as_segment 0 (IntraRingBuffer_init C z) = shm_init C z"
    by (simp add: as_segment_def IntraRingBuffer_init_def shm_init_def seg_slot_def)
  then show ?thesis using shm_init_history [OF assms] by (simp add: intra_history_def)
qed

interpretation intra_ring: spmc_ring "intra_history C" "unat C" "\<lambda>_ :: unit. intra_push C" intra_make_cursor "intra_pop C"
  for C
proof (unfold_locales, goal_cases)
  case (1 r hs) then show ?case using shm_ring.history_bound [of C "as_segment 0 r" hs] by (simp add: intra_history_def)
next
  case (2 r hs) then show ?case using shm_ring.cap_pos [of C "as_segment 0 r" hs] by (simp add: intra_history_def)
next
  case (3 r hs e x)
  note h = 3(1) [unfolded intra_history_def]
  have "shm_push C 0 x (as_segment 0 r) = (fst (intra_push C x r), as_segment 0 (snd (intra_push C x r)))"
    by (rule push_as_segment [OF intra_history_ok [OF 3(1)]])
  then show ?case using shm_push_history [OF h 3(2), of 0 x] by (simp add: intra_history_def)
next
  case (4 r hs)
  then show ?case using shm_ring.cursor_history [of C "as_segment 0 r" hs]
    by (simp add: intra_history_def shm_make_cursor_def intra_make_cursor_def as_segment_def)
next
  case (5 r hs c out)
  then show ?case using shm_pop_at_head [of C "as_segment 0 r" hs c out] pop_as_segment [OF intra_history_ok, of C r hs c out 0]
    by (simp add: intra_history_def)
next
  case (6 r hs c out)
  then show ?case using shm_pop_behind [of C "as_segment 0 r" hs c out] pop_as_segment [OF intra_history_ok, of C r hs c out 0]
    by (simp add: intra_history_def)
qed

section \<open>Properties\<close>

definition intra_push_all :: "u64 \<Rightarrow> 'a list \<Rightarrow> 'a IntraRingBuffer \<Rightarrow> 'a IntraRingBuffer" where
  "intra_push_all C xs r = fold (\<lambda>x r. snd (intra_push C x r)) xs r"

lemma intra_push_all_locale: "intra_push_all C xs r = intra_ring.push_all C (map (Pair ()) xs) r"
  by (simp add: intra_push_all_def intra_ring.push_all_def fold_map o_def)

lemma intra_push_all_history:
  assumes "intra_history C r hs" "length hs + length xs < 2 ^ 63"
  shows "intra_history C (intra_push_all C xs r) (hs @ xs)"
  using intra_ring.push_all_history [OF assms(1), of "map (Pair ()) xs"] assms(2)
  by (simp add: intra_push_all_locale o_def)

text \<open>
  C30. The in-process ring refines the shared-memory ring: under the view of a ring as a segment,
  \<open>push\<close> is the segment's \<open>push\<close> (which also writes the heartbeat) with the same return value, and
  \<open>pop\<close> is the segment's \<open>pop\<close>.
\<close>

theorem intra_refines_shm:
  assumes "valid_capacity C" "length (ir_slots r) = unat C"
  shows "shm_push C now x (as_segment hb r) = (fst (intra_push C x r), as_segment now (snd (intra_push C x r))) \<and>
    shm_pop C c out (as_segment hb r) = intra_pop C c out r"
proof -
  have "intra_ok C r" using assms by (simp add: intra_ok_def)
  from push_as_segment [OF this] pop_as_segment [OF this] show ?thesis by blast
qed

theorem intra_refines_shm_witness:
  "shm_pop 2 0 9 (as_segment 5 (IntraRingBuffer_init 2 (0::nat))) = intra_pop 2 0 9 (IntraRingBuffer_init 2 0)"
  using intra_refines_shm [of 2 "IntraRingBuffer_init 2 (0::nat)" 1 1 5 0 9]
  by (simp add: valid_capacity_def IntraRingBuffer_init_def)

text \<open>
  Latest-only delivery in the process: from a cursor taken after the pushes \<open>xs\<close>, a consumer that
  polls after the pushes \<open>ys\<close> receives exactly the last \<open>Capacity\<close> items of \<open>ys\<close>, in order.
\<close>

theorem intra_latest_only:
  fixes z out :: 'a
  assumes "valid_capacity C" "length xs + length ys < 2 ^ 63" "length ys \<le> n" "unat C \<le> n"
  defines "r \<equiv> intra_push_all C xs (IntraRingBuffer_init C z)"
  shows "fst (drain (\<lambda>c out. intra_pop C c out (intra_push_all C ys r)) n (intra_make_cursor r) out) =
    drop (length ys - unat C) ys"
proof -
  have h: "intra_history C r xs"
    using intra_push_all_history [OF intra_init_history [OF assms(1)], of xs z] assms(2) by (simp add: r_def)
  show ?thesis
    using intra_ring.drain_after_pushes [OF h, of "map (Pair ()) ys" n out] assms(2-4)
    by (simp add: intra_push_all_locale o_def)
qed

theorem intra_latest_only_witness:
  "fst (drain (\<lambda>c out. intra_pop 2 c out (intra_push_all 2 [20, 21, 22] (intra_push_all 2 [10] (IntraRingBuffer_init 2 (0::nat)))))
     3 (intra_make_cursor (intra_push_all 2 [10] (IntraRingBuffer_init 2 (0::nat)))) 0) = [21, 22]"
  using intra_latest_only [of 2 "[10]" "[20, 21, 22]" 3 "0::nat" 0] by (simp add: valid_capacity_def)

section \<open>Two producers\<close>

text \<open>
  Two producers whose positions are a whole lap apart share a slot. Here the first claims
  position 0 and is suspended after it has marked the slot; the second pushes positions 1 and 2
  (the latter into the same slot of a ring of two) and publishes; then the first resumes its copy.
\<close>

definition two_producers :: "'a \<Rightarrow> 'a \<Rightarrow> 'a \<Rightarrow> 'a IntraRingBuffer \<Rightarrow> 'a IntraRingBuffer" where
  "two_producers a b c r =
     (let (p0, r1) = intra_claim r;
          r2 = intra_store_sequence 2 p0 (p0 * 2) r1;
          (_, r3) = intra_push 2 b r2;
          (_, r4) = intra_push 2 c r3
      in intra_copy 2 p0 a r4)"


end
