(* ===== verification/Publisher.thy ===== *)
theory Publisher
  imports Ipc_Message Loaned_Sample Shm_Ring_Buffer Intra_Ring_Buffer
begin

text \<open>
  \<open>Publisher\<close> and \<open>IntraPublisher\<close> of \<open>publisher.hpp\<close>. A payload of type \<open>T\<close> is its object
  representation, a list of \<open>sizeof(T)\<close> bytes; the ring of a publisher holds slots of a header and a
  payload. The clock is an argument of every operation that reads it.
\<close>

section \<open>State\<close>

record pub_slot =
  slot_header :: IPCHeader
  slot_payload :: "byte list"

text \<open>\<open>Slot s{}\<close>\<close>

definition slot_zero :: "nat \<Rightarrow> pub_slot" where
  "slot_zero sz = \<lparr>slot_header = IPCHeader_init, slot_payload = replicate sz 0\<rparr>"

record 'd ChannelStats =
  cs_published :: u64
  cs_received :: u64
  cs_dropped :: u64
  cs_pool_exhaustions :: u64
  cs_avg_latency_us :: 'd

definition ChannelStats_init :: "'d \<Rightarrow> 'd ChannelStats" where
  "ChannelStats_init zero = \<lparr>cs_published = 0, cs_received = 0, cs_dropped = 0, cs_pool_exhaustions = 0,
     cs_avg_latency_us = zero\<rparr>"

record Publisher =
  pub_channel_name :: string
  pub_msg_type :: MsgType
  pub_sensor_id :: u16
  pub_sequence :: u64
  pub_pool :: "byte list ObjectPool"
  pub_exhaustions :: u64

text \<open>
  The constructor opens the ring as its owner; an exception of \<open>open_shm\<close> is an exception of the
  constructor. \<open>base\<close> is the address of the pool inside the new object.
\<close>

definition Publisher_ctor ::
  "os \<Rightarrow> u64 \<Rightarrow> nat \<Rightarrow> nat \<Rightarrow> u64 \<Rightarrow> string \<Rightarrow> MsgType \<Rightarrow> u16 \<Rightarrow> pub_slot shm_segment \<Rightarrow> calls \<Rightarrow>
   (shm_error + Publisher \<times> shm_handle \<times> pub_slot shm_segment) \<times> calls" where
  "Publisher_ctor os C al sz base name ty sid old tr =
     (case open_shm os (total_size C (max 64 al) (round_up (max 64 al) (sizeof_IPCHeader + sz))) name True tr of
        (Inl e, tr') \<Rightarrow> (Inl e, tr')
      | (Inr h, tr') \<Rightarrow>
          (Inr (\<lparr>pub_channel_name = name, pub_msg_type = ty, pub_sensor_id = sid, pub_sequence = 0,
                 pub_pool = ObjectPool_ctor C base (replicate sz 0), pub_exhaustions = 0\<rparr>,
                h, open_memory C (slot_zero sz) True old), tr'))"

section \<open>Publishing\<close>

definition make_slot :: "Publisher \<Rightarrow> u64 \<Rightarrow> u64 \<Rightarrow> byte list \<Rightarrow> pub_slot" where
  "make_slot pub ts sq item =
     \<lparr>slot_header = IPCHeader_init\<lparr>msg_type := MsgType_code (pub_msg_type pub), sensor_id := pub_sensor_id pub,
        timestamp_ns := ts, sequence := sq, data_length := of_nat (length item),
        checksum := crc32_update 0 item\<rparr>,
      slot_payload = item\<rparr>"

text \<open>\<open>publish(item, timestamp_ns)\<close>; \<open>now\<close> is the clock when the ring writes its heartbeat.\<close>

definition publish_at ::
  "u64 \<Rightarrow> u64 \<Rightarrow> u64 \<Rightarrow> byte list \<Rightarrow> Publisher \<times> pub_slot shm_segment \<Rightarrow> Publisher \<times> pub_slot shm_segment" where
  "publish_at C ts now item w =
     (let (pub, seg) = w;
          sq = pub_sequence pub + 1
      in (pub\<lparr>pub_sequence := sq\<rparr>, snd (shm_push C now (make_slot pub ts sq item) seg)))"

text \<open>\<open>publish(item)\<close> reads the clock for the header and again, later, for the heartbeat.\<close>

definition publish ::
  "u64 \<Rightarrow> u64 \<times> u64 \<Rightarrow> byte list \<Rightarrow> Publisher \<times> pub_slot shm_segment \<Rightarrow> Publisher \<times> pub_slot shm_segment" where
  "publish C clk item w = publish_at C (fst clk) (snd clk) item w"

definition pool_loan :: "u64 \<Rightarrow> 'a ObjectPool \<Rightarrow> u64 LoanedSample \<times> 'a ObjectPool" where
  "pool_loan sz pool =
     (let (p, pool') = acquire_now sz pool in (LoanedSample_ctor p (p \<noteq> None), pool'))"

definition loan :: "u64 \<Rightarrow> Publisher \<Rightarrow> u64 LoanedSample \<times> Publisher" where
  "loan sz pub =
     (let (l, pool') = pool_loan sz (pub_pool pub);
          pub' = pub\<lparr>pub_pool := pool'\<rparr>
      in (l, if loan_ptr l = None then pub'\<lparr>pub_exhaustions := pub_exhaustions pub' + 1\<rparr> else pub'))"

text \<open>The object a loan points to.\<close>

definition pool_read :: "u64 \<Rightarrow> 'a ObjectPool \<Rightarrow> u64 \<Rightarrow> 'a" where
  "pool_read sz p a = storage p ! unat (index_of_ptr sz p a)"

definition pool_write :: "u64 \<Rightarrow> u64 \<Rightarrow> 'a \<Rightarrow> 'a ObjectPool \<Rightarrow> 'a ObjectPool" where
  "pool_write sz a x p = p\<lparr>storage := (storage p)[unat (index_of_ptr sz p a) := x]\<rparr>"

definition publish_loan ::
  "u64 \<Rightarrow> u64 \<Rightarrow> u64 \<times> u64 \<Rightarrow> u64 LoanedSample \<Rightarrow> Publisher \<times> pub_slot shm_segment \<Rightarrow>
   u64 LoanedSample \<times> Publisher \<times> pub_slot shm_segment" where
  "publish_loan C sz clk l w =
     (case loan_get l of
        None \<Rightarrow> (l, w)
      | Some a \<Rightarrow>
          let (pub, seg) = publish C clk (pool_read sz (pub_pool (fst w)) a) w;
              (l', pool') = loan_reset (release_now C sz) l (pub_pool pub)
          in (l', pub\<lparr>pub_pool := pool'\<rparr>, seg))"

definition published :: "Publisher \<Rightarrow> u64" where
  "published pub = pub_sequence pub"

definition pool_available :: "u64 \<Rightarrow> Publisher \<Rightarrow> nat" where
  "pool_available C pub = available C (pub_pool pub)"

definition publisher_stats :: "'d \<Rightarrow> Publisher \<Rightarrow> 'd ChannelStats" where
  "publisher_stats zero pub =
     (ChannelStats_init zero)\<lparr>cs_published := pub_sequence pub, cs_pool_exhaustions := pub_exhaustions pub\<rparr>"

section \<open>In-process publishing\<close>

text \<open>The ring is shared with the subscribers, so it is passed beside the publisher's own state.\<close>

record IntraPublisher =
  ip_msg_type :: MsgType
  ip_sensor_id :: u16
  ip_sequence :: u64
  ip_pool :: "byte list ObjectPool"

definition IntraPublisher_ctor :: "u64 \<Rightarrow> nat \<Rightarrow> u64 \<Rightarrow> MsgType \<Rightarrow> u16 \<Rightarrow> IntraPublisher" where
  "IntraPublisher_ctor C sz base ty sid =
     \<lparr>ip_msg_type = ty, ip_sensor_id = sid, ip_sequence = 0, ip_pool = ObjectPool_ctor C base (replicate sz 0)\<rparr>"

definition intra_publish ::
  "u64 \<Rightarrow> byte list \<Rightarrow> IntraPublisher \<times> byte list IntraRingBuffer \<Rightarrow> IntraPublisher \<times> byte list IntraRingBuffer" where
  "intra_publish C item w =
     (let (pub, ring) = w; (_, ring') = intra_push C item ring
      in (pub\<lparr>ip_sequence := ip_sequence pub + 1\<rparr>, ring'))"

definition intra_published :: "IntraPublisher \<Rightarrow> u64" where
  "intra_published pub = ip_sequence pub"

definition intra_pool_available :: "u64 \<Rightarrow> IntraPublisher \<Rightarrow> nat" where
  "intra_pool_available C pub = available C (ip_pool pub)"

definition intra_loan :: "u64 \<Rightarrow> IntraPublisher \<Rightarrow> u64 LoanedSample \<times> IntraPublisher" where
  "intra_loan sz pub = (let (l, pool') = pool_loan sz (ip_pool pub) in (l, pub\<lparr>ip_pool := pool'\<rparr>))"

definition intra_publish_loan ::
  "u64 \<Rightarrow> u64 \<Rightarrow> u64 LoanedSample \<Rightarrow> IntraPublisher \<times> byte list IntraRingBuffer \<Rightarrow>
   u64 LoanedSample \<times> IntraPublisher \<times> byte list IntraRingBuffer" where
  "intra_publish_loan C sz l w =
     (case loan_get l of
        None \<Rightarrow> (l, w)
      | Some a \<Rightarrow>
          let (pub, ring) = intra_publish C (pool_read sz (ip_pool (fst w)) a) w;
              (l', pool') = loan_reset (release_now C sz) l (ip_pool pub)
          in (l', pub\<lparr>ip_pool := pool'\<rparr>, ring))"

section \<open>Lemmas\<close>

lemma publish_eq:
  "publish C clk item (pub, seg) =
     (pub\<lparr>pub_sequence := pub_sequence pub + 1\<rparr>,
      snd (shm_push C (snd clk) (make_slot pub (fst clk) (pub_sequence pub + 1) item) seg))"
  by (simp add: publish_def publish_at_def Let_def)

lemma make_slot_sequence [simp]: "make_slot (pub\<lparr>pub_sequence := n\<rparr>) ts sq item = make_slot pub ts sq item"
  by (simp add: make_slot_def)

text \<open>The slots that a run of publications puts into the ring, numbered from the publisher's counter.\<close>

fun slots_of :: "Publisher \<Rightarrow> u64 \<Rightarrow> ((u64 \<times> u64) \<times> byte list) list \<Rightarrow> pub_slot list" where
  "slots_of pub n [] = []"
| "slots_of pub n ((clk, x) # xs) = make_slot pub (fst clk) (n + 1) x # slots_of pub (n + 1) xs"

lemma length_slots_of [simp]: "length (slots_of pub n xs) = length xs"
  by (induction xs arbitrary: n) auto

lemma slots_of_nth:
  "k < length xs \<Longrightarrow> slots_of pub n xs ! k = make_slot pub (fst (fst (xs ! k))) (n + of_nat (Suc k)) (snd (xs ! k))"
proof (induction xs arbitrary: n k)
  case (Cons x xs)
  then show ?case by (cases k; cases x) (simp_all add: ac_simps)
qed simp

definition publish_all ::
  "u64 \<Rightarrow> ((u64 \<times> u64) \<times> byte list) list \<Rightarrow> Publisher \<times> pub_slot shm_segment \<Rightarrow> Publisher \<times> pub_slot shm_segment" where
  "publish_all C xs w = fold (\<lambda>(clk, x) w. publish C clk x w) xs w"

lemma slots_of_counter [simp]: "slots_of (pub\<lparr>pub_sequence := m\<rparr>) n xs = slots_of pub n xs"
  by (induction xs arbitrary: n) auto

lemma publish_all_history:
  assumes "shm_history C seg hs" "length hs + length xs < 2 ^ 63"
  shows "shm_history C (snd (publish_all C xs (pub, seg))) (hs @ slots_of pub (pub_sequence pub) xs) \<and>
    fst (publish_all C xs (pub, seg)) = pub\<lparr>pub_sequence := pub_sequence pub + of_nat (length xs)\<rparr>"
  using assms
proof (induction xs arbitrary: pub seg hs)
  case Nil
  then show ?case by (simp add: publish_all_def)
next
  case (Cons x xs)
  obtain clk item where x: "x = (clk, item)" by (cases x)
  let ?s = "make_slot pub (fst clk) (pub_sequence pub + 1) item"
  let ?pub = "pub\<lparr>pub_sequence := pub_sequence pub + 1\<rparr>" and ?seg = "snd (shm_push C (snd clk) ?s seg)"
  have step: "publish_all C (x # xs) (pub, seg) = publish_all C xs (?pub, ?seg)"
    by (simp add: publish_all_def x publish_eq)
  have "shm_history C ?seg (hs @ [?s])" by (rule shm_push_history(2)) (use Cons.prems in simp_all)
  from Cons.IH [OF this, of ?pub] Cons.prems show ?case unfolding step by (simp add: x ac_simps)
qed

section \<open>Loans\<close>

lemma pool_loan_eq:
  "pool_loan sz pool = (\<lparr>loan_ptr = fst (acquire_now sz pool), loan_pool = (fst (acquire_now sz pool) \<noteq> None)\<rparr>,
    snd (acquire_now sz pool))"
  by (simp add: pool_loan_def LoanedSample_ctor_def split_beta Let_def)

lemma pool_write_keeps:
  "pool_at C sz base (pool_write sz a x p) = pool_at C sz base p"
  "free_ptrs C sz base (pool_write sz a x p) = free_ptrs C sz base p"
  by (simp_all add: pool_write_def pool_at_def pool_inv_def free_ptrs_def free_list_def)

lemma pool_read_write:
  assumes "pool_at C sz base p" "a \<in> slot_addr sz base ` {..<unat C}"
  shows "pool_read sz (pool_write sz a x p) a = x"
proof -
  from assms(1) have p: "pool_inv C p" "layout_ok C sz" "storage_base p = base" by (simp_all add: pool_at_def)
  then have C: "pool_capacity C" "length (storage p) = unat C" by (simp_all add: pool_inv_def)
  from assms(2) obtain k where k: "k < unat C" "a = slot_addr sz base k" by auto
  have u: "unat (of_nat k :: u16) = k"
    using k(1) pool_capacity_bounds(2) [OF C(1)] by (simp add: unsigned_of_nat take_bit_nat_eq_self)
  have "index_of_ptr sz q a = of_nat k" if "storage_base q = base" for q :: "'a ObjectPool"
    using index_of_slot_ptr [OF C(1) p(2), of "of_nat k" q] u k that by (simp add: slot_addr_ptr [OF that])
  then show ?thesis using p(3) C(2) u k(1) by (simp add: pool_read_def pool_write_def)
qed

lemma pool_at_available: "pool_at C sz base p \<Longrightarrow> available C p = length (free_ptrs C sz base p)"
  by (simp add: pool_at_def available_length free_ptrs_def)

text \<open>
  The loan path. A loan taken from a publisher whose pool has a free slot is non-empty, and
  publishing it after writing \<open>item\<close> through it pushes exactly what \<open>publish(item)\<close> would push, empties
  the loan and gives the slot back: the pool has as many free slots as before the loan.
\<close>

theorem loan_publish:
  assumes p: "pool_at C sz base (pub_pool pub)" and free: "0 < pool_available C pub"
    and l: "loan sz pub = (l, pub1)"
    and pub2: "pub2 = pub1\<lparr>pub_pool := pool_write sz (the (loan_ptr l)) item (pub_pool pub1)\<rparr>"
    and final: "publish_loan C sz clk l (pub2, seg) = (l', pub', seg')"
  shows "loan_bool l \<and> \<not> loan_bool l' \<and> seg' = snd (publish C clk item (pub, seg)) \<and>
    pub_sequence pub' = pub_sequence pub + 1 \<and> pub_exhaustions pub' = pub_exhaustions pub \<and>
    pool_available C pub' = pool_available C pub"
proof -
  let ?free = "free_ptrs C sz base"
  have ne: "?free (pub_pool pub) \<noteq> []" using free pool_at_available [OF p] by (auto simp: pool_available_def)
  with object_pool.acq_None_iff [OF p] obtain a where a: "fst (acquire_now sz (pub_pool pub)) = Some a" by fastforce
  note s = object_pool.acq_Some [OF p a] and inv = object_pool.acq_inv [OF p]
  define pool1 where "pool1 = pool_write sz a item (snd (acquire_now sz (pub_pool pub)))"
  have l1: "l = \<lparr>loan_ptr = Some a, loan_pool = True\<rparr>" "pub2 = pub\<lparr>pub_pool := pool1\<rparr>"
    using l pub2 a by (auto simp: loan_def pool_loan_eq pool1_def)
  have pool1: "pool_at C sz base pool1" "?free pool1 = ?free (snd (acquire_now sz (pub_pool pub)))"
    using inv by (simp_all add: pool1_def pool_write_keeps)
  have rd: "pool_read sz pool1 a = item" unfolding pool1_def by (rule pool_read_write [OF inv s(1)])
  have rel: "pool_at C sz base (release_now C sz a pool1)" "?free (release_now C sz a pool1) = ?free (pub_pool pub)"
    using object_pool.rel_free [OF pool1(1) s(1)] s(2,3) pool1(2) by simp_all
  have "l' = \<lparr>loan_ptr = None, loan_pool = False\<rparr>" and seg': "seg' = snd (publish C clk item (pub2, seg))"
    and pub': "pub' = pub\<lparr>pub_sequence := pub_sequence pub + 1, pub_pool := release_now C sz a pool1\<rparr>"
    using final rd by (auto simp: publish_loan_def loan_get_def l1 publish_eq loan_reset_def do_release_def)
  moreover have "snd (publish C clk item (pub2, seg)) = snd (publish C clk item (pub, seg))"
    by (simp add: l1 publish_eq make_slot_def)
  ultimately show ?thesis
    using l1 pool_at_available [OF rel(1)] pool_at_available [OF p] rel(2)
    by (simp add: loan_bool_def pool_available_def)
qed

definition pub_example :: Publisher where
  "pub_example = \<lparr>pub_channel_name = ''/imu'', pub_msg_type = IMU, pub_sensor_id = 3, pub_sequence = 0,
     pub_pool = ObjectPool_ctor 2 4096 [0, 0], pub_exhaustions = 0\<rparr>"

lemma pub_example_pool:
  "pool_at 2 2 4096 (pub_pool pub_example)" "pool_available 2 pub_example = 2"
proof -
  have cap: "pool_capacity 2" "layout_ok 2 2" by (simp_all add: pool_capacity_def layout_ok_def)
  note f = ObjectPool_ctor_free [OF cap(1), of 4096 "[0, 0] :: byte list"]
  show "pool_at 2 2 4096 (pub_pool pub_example)"
    using cap(2) f(1) by (simp add: pool_at_def pub_example_def) (simp add: ObjectPool_ctor_def)
  show "pool_available 2 pub_example = 2"
    using available_length [OF f(1)] by (simp add: pool_available_def pub_example_def f(2))
qed

theorem loan_publish_witness:
  "\<exists>l pub1 l' pub' seg'. loan 2 pub_example = (l, pub1) \<and>
     publish_loan 2 2 (10, 11) l (pub1\<lparr>pub_pool := pool_write 2 (the (loan_ptr l)) [5, 6] (pub_pool pub1)\<rparr>,
       shm_init 2 (slot_zero 2)) = (l', pub', seg') \<and>
     loan_bool l \<and> \<not> loan_bool l' \<and> pool_available 2 pub' = 2"
proof -
  obtain l pub1 where l: "loan 2 pub_example = (l, pub1)" by (cases "loan 2 pub_example")
  obtain l' pub' seg' where f: "publish_loan 2 2 (10, 11) l (pub1\<lparr>pub_pool := pool_write 2 (the (loan_ptr l)) [5, 6] (pub_pool pub1)\<rparr>,
       shm_init 2 (slot_zero 2)) = (l', pub', seg')" by (metis prod_cases3)
  from loan_publish [OF pub_example_pool(1) _ l refl f] pub_example_pool(2) l f show ?thesis by fastforce
qed

text \<open>
  An exhausted pool is a normal outcome: \<open>loan\<close> returns an empty loan, counts the exhaustion and
  leaves the pool as it was, and publishing an empty loan does nothing.
\<close>

theorem loan_exhausted:
  assumes "pool_at C sz base (pub_pool pub)" "pool_available C pub = 0"
  shows "loan sz pub = (LoanedSample_default, pub\<lparr>pub_exhaustions := pub_exhaustions pub + 1\<rparr>) \<and>
    publish_loan C sz clk LoanedSample_default w = (LoanedSample_default, w)"
proof -
  have "free_ptrs C sz base (pub_pool pub) = []"
    using assms pool_at_available [OF assms(1)] by (simp add: pool_available_def)
  then have "acquire_now sz (pub_pool pub) = (None, pub_pool pub)" by (rule object_pool.acq_nil [OF assms(1)])
  then show ?thesis
    by (cases pub) (simp add: loan_def pool_loan_eq LoanedSample_default_def publish_loan_def loan_get_def)
qed

theorem loan_exhausted_witness:
  "\<exists>pub. pool_available 2 pub = 0 \<and> loan 2 pub = (LoanedSample_default, pub\<lparr>pub_exhaustions := pub_exhaustions pub + 1\<rparr>)"
proof -
  let ?free = "free_ptrs 2 2 4096"
  define p1 where "p1 = snd (acquire_now 2 (pub_pool pub_example))"
  define p2 where "p2 = snd (acquire_now 2 p1)"
  note i0 = pub_example_pool(1)
  have i1: "pool_at 2 2 4096 p1" and i2: "pool_at 2 2 4096 p2"
    using object_pool.acq_inv [OF i0] object_pool.acq_inv [of 2 2 4096 p1] by (simp_all add: p1_def p2_def)
  have n0: "length (?free (pub_pool pub_example)) = 2"
    using pool_at_available [OF i0] pub_example_pool(2) by (simp add: pool_available_def)
  have tl: "length (?free (snd (acquire_now 2 p))) = length (?free p) - 1" if "pool_at 2 2 4096 p" for p :: "byte list ObjectPool"
  proof (cases "fst (acquire_now 2 p)")
    case None
    then have "?free p = []" using object_pool.acq_None_iff [OF that] by simp
    with object_pool.acq_nil [OF that] show ?thesis by simp
  next
    case (Some a)
    show ?thesis using arg_cong [OF object_pool.acq_Some(2) [OF that Some], of length] by simp
  qed
  have "length (?free p2) = 0" using tl [OF i1] tl [OF i0] n0 by (simp add: p1_def p2_def)
  then have "pool_available 2 (pub_example\<lparr>pub_pool := p2\<rparr>) = 0"
    using pool_at_available [OF i2] by (simp add: pool_available_def)
  then show ?thesis
    using loan_exhausted [of 2 2 4096 "pub_example\<lparr>pub_pool := p2\<rparr>"] i2
    by (intro exI [of _ "pub_example\<lparr>pub_pool := p2\<rparr>"]) simp
qed

end
