(* ===== verification/Subscriber.thy ===== *)
theory Subscriber
  imports Publisher "HOL-Library.Sublist"
begin

text \<open>
  \<open>Subscriber\<close>, \<open>IntraSubscriber\<close> and \<open>make_intra_pubsub\<close> of \<open>subscriber.hpp\<close>. \<open>try_receive\<close> is a function of
  what its \<open>pop\<close> returns, so that it can be run on a segment at rest and on reads that another
  process interrupts. The latency estimate is kept in a type \<open>'d\<close> of floating-point numbers whose
  operations are an argument; nothing is assumed of them.
\<close>

section \<open>State\<close>

record 'd double_ops =
  dbl_of_u64 :: "u64 \<Rightarrow> 'd"
  dbl_lit :: "nat \<Rightarrow> 'd"
  dbl_add :: "'d \<Rightarrow> 'd \<Rightarrow> 'd"
  dbl_sub :: "'d \<Rightarrow> 'd \<Rightarrow> 'd"
  dbl_div :: "'d \<Rightarrow> 'd \<Rightarrow> 'd"

record 'd Subscriber =
  sub_channel_name :: string
  sub_stop_flag :: bool
  sub_worker :: bool   \<comment> \<open>\<open>worker_.joinable()\<close>\<close>
  sub_received :: u64
  sub_dropped :: u64
  sub_avg_latency :: 'd

definition Subscriber_ctor ::
  "'d double_ops \<Rightarrow> os \<Rightarrow> nat \<Rightarrow> string \<Rightarrow> calls \<Rightarrow> (shm_error + 'd Subscriber \<times> shm_handle) \<times> calls" where
  "Subscriber_ctor dm os bytes name tr =
     (case open_shm os bytes name False tr of
        (Inl e, tr') \<Rightarrow> (Inl e, tr')
      | (Inr h, tr') \<Rightarrow> (Inr (\<lparr>sub_channel_name = name, sub_stop_flag = False, sub_worker = False,
           sub_received = 0, sub_dropped = 0, sub_avg_latency = dbl_lit dm 0\<rparr>, h), tr'))"

section \<open>Receiving\<close>

type_synonym 'a pop_fun = "Cursor \<Rightarrow> 'a \<Rightarrow> bool \<times> Cursor \<times> 'a"

definition ema :: "'d double_ops \<Rightarrow> 'd \<Rightarrow> u64 \<Rightarrow> 'd" where
  "ema dm prev ns =
     (let lat_us = dbl_div dm (dbl_of_u64 dm ns) (dbl_lit dm 1000)
      in dbl_add dm prev (dbl_div dm (dbl_sub dm lat_us prev) (dbl_lit dm 16)))"

definition try_receive ::
  "'d double_ops \<Rightarrow> nat \<Rightarrow> u64 \<Rightarrow> pub_slot pop_fun \<Rightarrow> Cursor \<times> IPCHeader \<times> byte list \<Rightarrow> 'd Subscriber \<Rightarrow>
   bool \<times> (Cursor \<times> IPCHeader \<times> byte list) \<times> 'd Subscriber" where
  "try_receive dm sz now pop args sub =
     (let (pre_pos, header, payload) = args
      in case pop pre_pos (slot_zero sz) of
           (False, pos, _) \<Rightarrow> (False, (pos, header, payload), sub)
         | (True, pos, slot) \<Rightarrow>
             let sub1 = (if pos > pre_pos + 1
                         then sub\<lparr>sub_dropped := sub_dropped sub + (pos - pre_pos - 1)\<rparr> else sub);
                 header' = slot_header slot;
                 sub2 = sub1\<lparr>sub_received := sub_received sub1 + 1\<rparr>;
                 sub3 = (if timestamp_ns header' > 0 \<and> now \<ge> timestamp_ns header'
                         then sub2\<lparr>sub_avg_latency := ema dm (sub_avg_latency sub2) (now - timestamp_ns header')\<rparr>
                         else sub2)
             in (True, (pos, header', slot_payload slot), sub3))"

text \<open>The overload without a header: the header goes to a local.\<close>

definition try_receive_payload ::
  "'d double_ops \<Rightarrow> nat \<Rightarrow> u64 \<Rightarrow> pub_slot pop_fun \<Rightarrow> Cursor \<times> byte list \<Rightarrow> 'd Subscriber \<Rightarrow>
   bool \<times> (Cursor \<times> byte list) \<times> 'd Subscriber" where
  "try_receive_payload dm sz now pop args sub =
     (let (c, payload) = args
      in case try_receive dm sz now pop (c, IPCHeader_init, payload) sub of
           (ok, (c', _, payload'), sub') \<Rightarrow> (ok, (c', payload'), sub'))"

definition subscriber_make_cursor :: "pub_slot shm_segment \<Rightarrow> Cursor" where
  "subscriber_make_cursor seg = shm_make_cursor seg"

definition subscriber_producer_alive :: "u64 \<Rightarrow> u64 \<Rightarrow> pub_slot shm_segment \<Rightarrow> bool" where
  "subscriber_producer_alive now timeout_ns seg = producer_alive now timeout_ns seg"

text \<open>\<open>while (sub.try_receive(cur, hdr, payload)) ...\<close> for at most \<open>n\<close> rounds; \<open>clk\<close> is the clock per round.\<close>

fun receive_all ::
  "'d double_ops \<Rightarrow> nat \<Rightarrow> (nat \<Rightarrow> u64) \<Rightarrow> pub_slot pop_fun \<Rightarrow> nat \<Rightarrow> Cursor \<Rightarrow> 'd Subscriber \<Rightarrow>
   (IPCHeader \<times> byte list) list \<times> Cursor \<times> 'd Subscriber" where
  "receive_all dm sz clk pop 0 c sub = ([], c, sub)"
| "receive_all dm sz clk pop (Suc n) c sub =
     (case try_receive dm sz (clk n) pop (c, IPCHeader_init, replicate sz 0) sub of
        (True, (c', h, p), sub') \<Rightarrow>
          (case receive_all dm sz clk pop n c' sub' of (xs, c'', sub'') \<Rightarrow> ((h, p) # xs, c'', sub''))
      | (False, (c', _, _), sub') \<Rightarrow> ([], c', sub'))"

section \<open>Callbacks\<close>

text \<open>
  \<open>spin\<close>: each round reads the stop flag, and if it is not set polls once. A list gives what the
  successive rounds see; \<open>None\<close> means that the loop is still running when the list ends. The
  result is the sequence of callback invocations.
\<close>

fun spin ::
  "'d double_ops \<Rightarrow> nat \<Rightarrow> (bool \<times> u64 \<times> pub_slot pop_fun) list \<Rightarrow> Cursor \<Rightarrow> 'd Subscriber \<Rightarrow>
   ((IPCHeader \<times> byte list) list \<times> 'd Subscriber) option" where
  "spin dm sz [] c sub = None"
| "spin dm sz ((flag, now, pop) # rs) c sub =
     (if flag then Some ([], sub)
      else case try_receive dm sz now pop (c, IPCHeader_init, replicate sz 0) sub of
             (True, (c', h, p), sub') \<Rightarrow> map_option (\<lambda>(xs, s). ((h, p) # xs, s)) (spin dm sz rs c' sub')
           | (False, (c', _, _), sub') \<Rightarrow> spin dm sz rs c' sub')"

text \<open>Assigning a new thread to a joinable \<open>std::thread\<close> calls \<open>std::terminate\<close>.\<close>

datatype async_error = Std_Terminate

definition start_async :: "'d Subscriber \<Rightarrow> async_error + 'd Subscriber" where
  "start_async sub =
     (let sub' = sub\<lparr>sub_stop_flag := False\<rparr>
      in if sub_worker sub' then Inl Std_Terminate else Inr (sub'\<lparr>sub_worker := True\<rparr>))"

definition stop :: "'d Subscriber \<Rightarrow> 'd Subscriber" where
  "stop sub =
     (let sub' = sub\<lparr>sub_stop_flag := True\<rparr>
      in if sub_worker sub' then sub'\<lparr>sub_worker := False\<rparr> else sub')"

definition Subscriber_dtor :: "nat \<Rightarrow> 'd Subscriber \<Rightarrow> shm_handle \<Rightarrow> calls \<Rightarrow> 'd Subscriber \<times> calls" where
  "Subscriber_dtor bytes sub h tr = (stop sub, ShmRingBuffer_dtor bytes h tr)"

definition subscriber_stats :: "'d double_ops \<Rightarrow> 'd Subscriber \<Rightarrow> 'd ChannelStats" where
  "subscriber_stats dm sub =
     (ChannelStats_init (dbl_lit dm 0))\<lparr>cs_received := sub_received sub, cs_dropped := sub_dropped sub,
       cs_avg_latency_us := sub_avg_latency sub\<rparr>"

section \<open>Attaching with a timeout\<close>

text \<open>
  \<open>try_attach\<close>: the list gives the readings of the steady clock, one per test of the loop condition;
  \<open>None\<close> means that the loop is still running when it ends. The result \<open>Some None\<close> is \<open>nullptr\<close>.
\<close>

fun try_attach ::
  "'d double_ops \<Rightarrow> os \<Rightarrow> nat \<Rightarrow> string \<Rightarrow> int \<Rightarrow> int list \<Rightarrow> calls \<Rightarrow> (('d Subscriber \<times> shm_handle) option \<times> calls) option" where
  "try_attach dm os bytes name deadline [] tr = None"
| "try_attach dm os bytes name deadline (t # ts) tr =
     (if t < deadline then
        (case shm_exists os name tr of
           (True, tr1) \<Rightarrow>
             (case Subscriber_ctor dm os bytes name tr1 of
                (Inr r, tr2) \<Rightarrow> Some (Some r, tr2)
              | (Inl _, tr2) \<Rightarrow> try_attach dm os bytes name deadline ts tr2)
         | (False, tr1) \<Rightarrow> try_attach dm os bytes name deadline ts tr1)
      else Some (None, tr))"

section \<open>In-process subscriber\<close>

record IntraSubscriber =
  is_stop_flag :: bool
  is_worker :: bool

definition IntraSubscriber_ctor :: IntraSubscriber where
  "IntraSubscriber_ctor = \<lparr>is_stop_flag = False, is_worker = False\<rparr>"

definition intra_try_receive ::
  "u64 \<Rightarrow> Cursor \<Rightarrow> byte list \<Rightarrow> byte list IntraRingBuffer \<Rightarrow> bool \<times> Cursor \<times> byte list" where
  "intra_try_receive C c out ring = intra_pop C c out ring"

fun intra_spin :: "nat \<Rightarrow> (bool \<times> byte list pop_fun) list \<Rightarrow> Cursor \<Rightarrow> byte list list option" where
  "intra_spin sz [] c = None"
| "intra_spin sz ((flag, pop) # rs) c =
     (if flag then Some []
      else case pop c (replicate sz 0) of
             (True, c', p) \<Rightarrow> map_option (\<lambda>xs. p # xs) (intra_spin sz rs c')
           | (False, c', _) \<Rightarrow> intra_spin sz rs c')"

definition intra_start_async :: "IntraSubscriber \<Rightarrow> async_error + IntraSubscriber" where
  "intra_start_async s =
     (let s' = s\<lparr>is_stop_flag := False\<rparr> in if is_worker s' then Inl Std_Terminate else Inr (s'\<lparr>is_worker := True\<rparr>))"

definition intra_stop :: "IntraSubscriber \<Rightarrow> IntraSubscriber" where
  "intra_stop s = (let s' = s\<lparr>is_stop_flag := True\<rparr> in if is_worker s' then s'\<lparr>is_worker := False\<rparr> else s')"

definition IntraSubscriber_dtor :: "IntraSubscriber \<Rightarrow> IntraSubscriber" where
  "IntraSubscriber_dtor s = intra_stop s"

definition intra_subscriber_make_cursor :: "byte list IntraRingBuffer \<Rightarrow> Cursor" where
  "intra_subscriber_make_cursor ring = intra_make_cursor ring"

text \<open>Both ends and the ring they share.\<close>

record IntraPubSubPair =
  pair_publisher :: IntraPublisher
  pair_subscriber :: IntraSubscriber
  pair_ring :: "byte list IntraRingBuffer"

definition make_intra_pubsub :: "u64 \<Rightarrow> nat \<Rightarrow> u64 \<Rightarrow> MsgType \<Rightarrow> u16 \<Rightarrow> IntraPubSubPair" where
  "make_intra_pubsub C sz base ty sid =
     \<lparr>pair_publisher = IntraPublisher_ctor C sz base ty sid, pair_subscriber = IntraSubscriber_ctor,
      pair_ring = IntraRingBuffer_init C (replicate sz 0)\<rparr>"

section \<open>Lemmas on receiving\<close>

definition slot_message :: "pub_slot \<Rightarrow> IPCHeader \<times> byte list" where
  "slot_message s = (slot_header s, slot_payload s)"

text \<open>What one \<open>try_receive\<close> adds to the statistics.\<close>

definition count_receive :: "'d double_ops \<Rightarrow> u64 \<Rightarrow> u64 \<Rightarrow> IPCHeader \<Rightarrow> 'd Subscriber \<Rightarrow> 'd Subscriber" where
  "count_receive dm now skipped h sub = sub\<lparr>sub_dropped := sub_dropped sub + skipped, sub_received := sub_received sub + 1,
     sub_avg_latency := (if timestamp_ns h > 0 \<and> now \<ge> timestamp_ns h
        then ema dm (sub_avg_latency sub) (now - timestamp_ns h) else sub_avg_latency sub)\<rparr>"

lemma try_receive_True:
  assumes "pop c (slot_zero sz) = (True, pos, s)" "c + 1 \<le> pos"
  shows "try_receive dm sz now pop (c, h, p) sub =
    (True, (pos, slot_header s, slot_payload s), count_receive dm now (pos - c - 1) (slot_header s) sub)"
proof -
  have "pos = c + 1" if "\<not> pos > c + 1" using that assms(2) by simp
  then show ?thesis using assms(1) by (cases sub) (auto simp: try_receive_def count_receive_def Let_def)
qed

lemma try_receive_False:
  assumes "pop c (slot_zero sz) = (False, pos, s)"
  shows "try_receive dm sz now pop (c, h, p) sub = (False, (pos, h, p), sub)"
  using assms by (simp add: try_receive_def)

text \<open>A consumer whose cursor is inside the window receives the rest of the history.\<close>

lemma receive_window:
  assumes "shm_history C seg hs" "unat c \<le> length hs" "length hs \<le> unat c + unat C" "length hs - unat c \<le> n"
  shows "\<exists>sub'. receive_all dm sz clk (\<lambda>c out. shm_pop C c out seg) n c sub =
      (map slot_message (drop (unat c) hs), of_nat (length hs), sub') \<and>
    sub_received sub' = sub_received sub + of_nat (length hs - unat c) \<and> sub_dropped sub' = sub_dropped sub"
  using assms
proof (induction n arbitrary: c sub)
  case 0
  then have "length hs = unat c" by simp
  then show ?case by simp
next
  case (Suc n)
  show ?case
  proof (cases "unat c = length hs")
    case True
    have "shm_pop C c (slot_zero sz) seg = (False, c, slot_zero sz)" using shm_pop_at_head [OF Suc.prems(1)] True by simp
    from try_receive_False [of "\<lambda>c out. shm_pop C c out seg", OF this, of dm "clk n" IPCHeader_init "replicate sz 0" sub]
      True show ?thesis by (simp flip: True)
  next
    case False
    with Suc.prems have lt: "unat c < length hs" by simp
    let ?c = "of_nat (Suc (unat c)) :: u64" and ?s = "hs ! unat c" and ?pop = "\<lambda>c out. shm_pop C c out seg"
    let ?sub = "count_receive dm (clk n) 0 (slot_header ?s) sub"
    have c1: "?c = c + 1" by simp
    have c': "unat ?c = Suc (unat c)"
      using lt shm_ring.history_bound [OF Suc.prems(1)] by (intro unat_of_nat_u64) simp
    have m: "max (unat c) (length hs - unat C) = unat c" using Suc.prems(3) by simp
    have "shm_pop C c (slot_zero sz) seg = (True, c + 1, ?s)"
      using shm_pop_behind [OF Suc.prems(1) lt, of "slot_zero sz"] unfolding m c1 by (simp add: Let_def)
    then have tr: "try_receive dm sz (clk n) ?pop (c, IPCHeader_init, replicate sz 0) sub =
        (True, (c + 1, slot_header ?s, slot_payload ?s), ?sub)"
      using try_receive_True [of ?pop c sz "c + 1" ?s dm "clk n" IPCHeader_init "replicate sz 0" sub] by simp
    have cond: "unat ?c \<le> length hs" "length hs \<le> unat ?c + unat C" "length hs - unat ?c \<le> n"
      unfolding c' using Suc.prems lt by linarith+
    obtain sub' where ih: "receive_all dm sz clk ?pop n ?c ?sub = (map slot_message (drop (unat ?c) hs), of_nat (length hs), sub')"
      "sub_received sub' = sub_received ?sub + of_nat (length hs - unat ?c)" "sub_dropped sub' = sub_dropped ?sub"
      using Suc.IH [OF Suc.prems(1) cond] by blast
    have "of_nat (length hs - unat c) = (1 + of_nat (length hs - Suc (unat c)) :: u64)"
      using lt by (metis Suc_diff_Suc of_nat_Suc)
    moreover have "map slot_message (drop (unat c) hs) = (slot_header ?s, slot_payload ?s) # map slot_message (drop (Suc (unat c)) hs)"
      using lt by (simp add: slot_message_def flip: Cons_nth_drop_Suc)
    ultimately show ?thesis
      using tr ih c' unfolding c1 by (simp add: count_receive_def)
  qed
qed

lemma receive_all_history:
  assumes h: "shm_history C seg hs" and c: "unat c \<le> length hs" and n: "length hs - unat c \<le> n" "unat C \<le> n"
  defines "p \<equiv> max (unat c) (length hs - unat C)"
  shows "\<exists>sub'. receive_all dm sz clk (\<lambda>c out. shm_pop C c out seg) n c sub =
      (map slot_message (drop p hs), of_nat (length hs), sub') \<and>
    sub_received sub' = sub_received sub + of_nat (length hs - p) \<and>
    sub_dropped sub' = sub_dropped sub + of_nat (p - unat c)"
proof (cases "length hs \<le> unat c + unat C")
  case True
  then have "p = unat c" by (simp add: p_def)
  then show ?thesis using receive_window [OF h c True n(1)] by simp
next
  case False
  note C = shm_ring.cap_pos [OF h] and lim = shm_ring.history_bound [OF h]
  have p: "p = length hs - unat C" "unat c < p" "p < length hs" using False C by (auto simp: p_def)
  then have lt: "unat c < length hs" by simp
  obtain m where m: "n = Suc m" using n(2) C by (cases n) auto
  define c2 where "c2 = (of_nat (Suc p) :: u64)"
  let ?s = "hs ! p" and ?pop = "\<lambda>c out. shm_pop C c out seg"
  have c': "unat c2 = Suc p" unfolding c2_def using lim p(3) by (intro unat_of_nat_u64) simp
  have c1: "unat (c + 1) = Suc (unat c)" using unat_suc_u64 [of c] lt lim by simp
  have skip: "c2 - c - 1 = of_nat (p - unat c)"
    unfolding c2_def using p(2) by (simp add: of_nat_diff)
  let ?sub = "count_receive dm (clk m) (c2 - c - 1) (slot_header ?s) sub"
  have "shm_pop C c (slot_zero sz) seg = (True, c2, ?s)"
    using shm_pop_behind [OF h lt, of "slot_zero sz"] by (simp add: Let_def p_def c2_def)
  moreover have "c + 1 \<le> c2" unfolding word_le_nat_alt c1 c' using p(2) by simp
  ultimately have tr: "try_receive dm sz (clk m) ?pop (c, IPCHeader_init, replicate sz 0) sub =
      (True, (c2, slot_header ?s, slot_payload ?s), ?sub)"
    by (rule try_receive_True)
  have cond: "unat c2 \<le> length hs" "length hs \<le> unat c2 + unat C" "length hs - unat c2 \<le> m"
    using c' p C n(2) m by simp_all
  obtain sub' where w: "receive_all dm sz clk ?pop m c2 ?sub = (map slot_message (drop (Suc p) hs), of_nat (length hs), sub')"
    "sub_received sub' = sub_received ?sub + of_nat (length hs - Suc p)" "sub_dropped sub' = sub_dropped ?sub"
    using receive_window [OF h cond, of dm sz clk ?sub] unfolding c' by blast
  have "of_nat (length hs - p) = (1 + of_nat (length hs - Suc p) :: u64)"
    using p(3) by (metis Suc_diff_Suc of_nat_Suc)
  moreover have "map slot_message (drop p hs) = (slot_header ?s, slot_payload ?s) # map slot_message (drop (Suc p) hs)"
    using p(3) by (simp add: slot_message_def flip: Cons_nth_drop_Suc)
  moreover have "sub_dropped ?sub = sub_dropped sub + of_nat (p - unat c)" "sub_received ?sub = sub_received sub + 1"
    unfolding skip by (simp_all add: count_receive_def)
  ultimately show ?thesis using tr w unfolding m by simp
qed

text \<open>The messages a polling loop hands on, from a segment at rest.\<close>

lemma spin_history:
  assumes "shm_history C seg hs" "unat c \<le> length hs"
  shows "\<exists>sub'. spin dm sz (map (\<lambda>now. (False, now, \<lambda>c out. shm_pop C c out seg)) clk @ (True, r) # rest) c sub =
    Some (map slot_message (take (length clk) (drop (max (unat c) (length hs - unat C)) hs)), sub')"
  using assms
proof (induction clk arbitrary: c sub)
  case (Cons now clk)
  let ?pop = "\<lambda>c out. shm_pop C c out seg" and ?p = "max (unat c) (length hs - unat C)"
  note C = shm_ring.cap_pos [OF Cons.prems(1)]
  show ?case
  proof (cases "unat c < length hs")
    case True
    let ?c = "of_nat (Suc ?p) :: u64"
    have p: "?p < length hs" using True C by auto
    have c': "unat ?c = Suc ?p" using p shm_ring.history_bound [OF Cons.prems(1)] by (intro unat_of_nat_u64) simp
    have c1: "unat (c + 1) = Suc (unat c)"
      using unat_suc_u64 [of c] True shm_ring.history_bound [OF Cons.prems(1)] by simp
    have pop: "?pop c (slot_zero sz) = (True, ?c, hs ! ?p)"
      using shm_pop_behind [OF Cons.prems(1) True] by (simp only: Let_def)
    have le: "c + 1 \<le> ?c" unfolding word_le_nat_alt c' c1 by simp
    note tr = try_receive_True [of ?pop, OF pop le, of dm now IPCHeader_init "replicate sz 0" sub]
    have "max (Suc ?p) (length hs - unat C) = Suc ?p" by simp
    then have "\<exists>sub'. spin dm sz (map (\<lambda>now. (False, now, ?pop)) clk @ (True, r) # rest) ?c
        (count_receive dm now (?c - c - 1) (slot_header (hs ! ?p)) sub) =
      Some (map slot_message (take (length clk) (drop (Suc ?p) hs)), sub')"
      using Cons.IH [OF Cons.prems(1), of ?c] c' p by (simp only:)
    then show ?thesis
      using tr p by (auto simp: slot_message_def simp flip: Cons_nth_drop_Suc)
  next
    case False
    then have "?pop c (slot_zero sz) = (False, c, slot_zero sz)" using shm_pop_at_head [OF Cons.prems(1)] by simp
    from try_receive_False [of ?pop, OF this, of dm now IPCHeader_init "replicate sz 0" sub]
    show ?thesis using Cons.IH [OF Cons.prems, of sub] False Cons.prems(2) by simp
  qed
qed (cases r, simp)

text \<open>The payloads of published slots.\<close>

lemma slots_payloads: "map (snd \<circ> slot_message) (slots_of pub n xs) = map snd xs"
  by (induction xs arbitrary: n) (auto simp: slot_message_def make_slot_def)

section \<open>Properties\<close>

text \<open>
  C39. Messages lost in a race are not counted. A consumer at position 0 of a ring of two reads the
  write position after three publications; before it reads the slot, a fourth publication
  overwrites that slot. \<open>try_receive\<close> returns \<open>false\<close> and leaves the counters alone, but the cursor
  has moved on; the next call returns the third message and counts one dropped message although
  the consumer has lost two.
\<close>

theorem dropped_undercount:
  fixes a b c d :: pub_slot and sub :: "'d Subscriber" and sz :: nat
  defines "seg3 \<equiv> shm_push_all 2 [(1, a), (1, b), (1, c)] (shm_init 2 (slot_zero sz))"
  defines "seg4 \<equiv> snd (shm_push 2 1 d seg3)"
  defines "race \<equiv> (\<lambda>cur out. pop_reads 2 (write_pos seg3) (\<lambda>i. slot_seq (shm_slots seg4 ! i))
    (\<lambda>i. slot_data (shm_slots seg4 ! i)) (\<lambda>i. slot_seq (shm_slots seg4 ! i)) cur out)"
  shows "try_receive dm sz now race (0, h, p) sub = (False, (1, h, p), sub) \<and>
    (\<exists>sub'. try_receive dm sz now (\<lambda>cur out. shm_pop 2 cur out seg4) (1, h, p) sub =
        (True, (3, slot_header c, slot_payload c), sub') \<and>
      sub_dropped sub' = sub_dropped sub + 1 \<and> sub_received sub' = sub_received sub + 1)"
proof -
  have C: "valid_capacity 2" by (simp add: valid_capacity_def)
  have h3: "shm_history 2 seg3 [a, b, c]"
    using shm_push_all_init [OF C, of "[(1, a), (1, b), (1, c)]" "slot_zero sz"] by (simp add: seg3_def)
  then have h4: "shm_history 2 seg4 [a, b, c, d]"
    using shm_push_history(2) [OF h3, of 1 d] by (simp add: seg4_def)
  have w3: "write_pos seg3 = 3" using h3 by (simp add: shm_history_def word_unat_eq_iff)
  have s1: "slot_seq (shm_slots seg4 ! Suc 0) = 7"
    using shm_history_slot [OF h4, of 3] by simp
  have "race 0 (slot_zero sz) = (False, 1, slot_zero sz)"
    using s1 by (simp add: race_def pop_reads_def w3 fast_forward_def slot_index_def kMask_def)
  moreover have "shm_pop 2 1 (slot_zero sz) seg4 = (True, 3, c)"
    using shm_pop_behind [OF h4, of 1 "slot_zero sz"] by (simp add: Let_def)
  then have "try_receive dm sz now (\<lambda>cur out. shm_pop 2 cur out seg4) (1, h, p) sub =
      (True, (3, slot_header c, slot_payload c), count_receive dm now 1 (slot_header c) sub)"
    using try_receive_True [of "\<lambda>cur out. shm_pop 2 cur out seg4" 1 sz 3 c dm now h p sub] by simp
  ultimately show ?thesis
    using try_receive_False [of race 0 sz 1 "slot_zero sz" dm now h p sub] by (simp add: count_receive_def)
qed


text \<open>
  The callback is invoked once for every message, in order. On a segment at rest, a loop that
  polls \<open>n\<close> times and then sees the stop flag has called back for exactly the first \<open>n\<close> readable
  messages, whatever the later rounds would have seen.
\<close>

theorem spin_callbacks:
  assumes "shm_history C seg hs" "unat c \<le> length hs"
  shows "\<exists>sub'. spin dm sz (map (\<lambda>now. (False, now, \<lambda>c out. shm_pop C c out seg)) clk @ (True, r) # rest) c sub =
    Some (map slot_message (take (length clk) (drop (max (unat c) (length hs - unat C)) hs)), sub')"
  by (rule spin_history [OF assms])

text \<open>A client that starts and stops the worker.\<close>

datatype async_op = Start | Stop

fun async_run :: "async_op list \<Rightarrow> 'd Subscriber \<Rightarrow> async_error + 'd Subscriber" where
  "async_run [] sub = Inr sub"
| "async_run (Start # ops) sub = (case start_async sub of Inl e \<Rightarrow> Inl e | Inr sub' \<Rightarrow> async_run ops sub')"
| "async_run (Stop # ops) sub = async_run ops (stop sub)"

lemma sublist_pair_Cons:
  "sublist [a, b] (x # xs) \<longleftrightarrow> x = a \<and> xs \<noteq> [] \<and> hd xs = b \<or> sublist [a, b] xs"
  by (cases xs) (auto simp: sublist_Cons_right)

lemma async_run_error:
  "(\<exists>e. async_run ops sub = Inl e) \<longleftrightarrow>
     sub_worker sub \<and> ops \<noteq> [] \<and> hd ops = Start \<or> sublist [Start, Start] ops"
proof (induction ops sub rule: async_run.induct)
  case (2 ops sub)
  then show ?case
    by (cases "sub_worker sub") (auto simp: start_async_def sublist_pair_Cons)
next
  case (3 ops sub)
  then show ?case by (auto simp: stop_def Let_def sublist_pair_Cons)
qed simp

lemma async_run_worker:
  "async_run ops sub = Inr sub' \<Longrightarrow> sub_worker sub' \<longleftrightarrow> (if ops = [] then sub_worker sub else last ops = Start)"
proof (induction ops sub rule: async_run.induct)
  case (2 ops sub)
  then show ?case by (cases "sub_worker sub") (auto simp: start_async_def)
next
  case (3 ops sub)
  then show ?case by (auto simp: stop_def Let_def)
qed simp

text \<open>
  Starting and stopping. A sequence of \<open>start_async\<close> and \<open>stop\<close> on a subscriber without a worker
  ends in \<open>std::terminate\<close> exactly when it starts twice in a row; otherwise there is a joinable
  worker at the end exactly when the last operation was a start.
\<close>

theorem async_lifecycle:
  assumes "\<not> sub_worker sub"
  shows "case async_run ops sub of
      Inl e \<Rightarrow> sublist [Start, Start] ops
    | Inr sub' \<Rightarrow> \<not> sublist [Start, Start] ops \<and> (sub_worker sub' \<longleftrightarrow> ops \<noteq> [] \<and> last ops = Start)"
proof (cases "async_run ops sub")
  case (Inl e)
  then show ?thesis using async_run_error [of ops sub] assms by simp
next
  case (Inr sub')
  then show ?thesis
    using async_run_error [of ops sub] async_run_worker [OF Inr] assms by simp
qed

text \<open>Truncating arithmetic as an instance of the floating-point operations.\<close>

definition nat_double :: "nat double_ops" where
  "nat_double = \<lparr>dbl_of_u64 = unat, dbl_lit = (\<lambda>n. n), dbl_add = (+), dbl_sub = (-), dbl_div = (div)\<rparr>"

definition sub_example :: "nat Subscriber" where
  "sub_example = \<lparr>sub_channel_name = ''/imu'', sub_stop_flag = False, sub_worker = False, sub_received = 0,
     sub_dropped = 0, sub_avg_latency = 0\<rparr>"

theorem async_lifecycle_witness:
  "case async_run [Start, Stop, Start, Start] sub_example of Inl e \<Rightarrow> True | Inr _ \<Rightarrow> False"
  using async_lifecycle [of sub_example "[Start, Stop, Start, Start]"]
  by (cases "async_run [Start, Stop, Start, Start] sub_example")
    (simp_all add: sub_example_def sublist_pair_Cons)

theorem spin_callbacks_witness:
  "\<exists>sub'. spin nat_double 2
     (map (\<lambda>now. (False, now, \<lambda>c out. shm_pop 2 c out (shm_init 2 (slot_zero 2)))) [10, 20] @ [(True, 30, \<lambda>c out. (False, c, out))])
     0 sub_example = Some ([], sub')"
proof -
  have "shm_history 2 (shm_init 2 (slot_zero 2)) []" by (rule shm_init_history) (simp add: valid_capacity_def)
  from spin_callbacks [OF this, of 0 nat_double 2 "[10, 20]" "(30, \<lambda>c out. (False, c, out))" "[]" sub_example]
  show ?thesis by (simp del: spin.simps)
qed

section \<open>Attaching\<close>

lemma shm_exists_eq: "shm_exists os name tr =
    (if os tr (Shm_open name False False) < 0 then (False, tr @ [Shm_open name False False])
     else (True, tr @ [Shm_open name False False, Close (os tr (Shm_open name False False))]))"
  by (simp add: shm_exists_def Let_def)

text \<open>
  \<open>try_attach\<close> returns as soon as the clock has reached the deadline, and a subscriber it returns
  is one that the constructor built: it does not own the segment, has its name, and starts with
  empty statistics.
\<close>

theorem try_attach_returns:
  assumes "t \<in> set ts" "deadline \<le> t"
  shows "\<exists>r tr'. try_attach dm os bytes name deadline ts tr = Some (r, tr') \<and>
    (case r of None \<Rightarrow> True
     | Some (sub, h) \<Rightarrow> \<not> is_owner h \<and> shm_name h = name \<and> sub_received sub = 0 \<and> \<not> sub_worker sub)"
  using assms(1)
proof (induction ts arbitrary: tr)
  case (Cons u ts)
  obtain ex tr1 where ex: "shm_exists os name tr = (ex, tr1)" by (cases "shm_exists os name tr")
  obtain res tr2 where res: "Subscriber_ctor dm os bytes name tr1 = (res, tr2)"
    by (cases "Subscriber_ctor dm os bytes name tr1")
  have ok: "\<not> is_owner h \<and> shm_name h = name \<and> sub_received sub = 0 \<and> \<not> sub_worker sub" if "res = Inr (sub, h)" for sub h
    using res that
    by (auto simp: Subscriber_ctor_def open_shm_def map_shm_def Let_def split: if_splits)
  show ?case
  proof (cases "u < deadline")
    case True
    then have t: "t \<in> set ts" using Cons.prems assms(2) by auto
    consider "\<not> ex" | e where "ex" "res = Inl e" | sub h where "ex" "res = Inr (sub, h)"
      by (metis sum.exhaust surj_pair)
    then show ?thesis
    proof cases
      case 1 then show ?thesis using True ex Cons.IH [OF t, of tr1] by simp
    next
      case 2 then show ?thesis using True ex res Cons.IH [OF t, of tr2] by simp
    next
      case 3 then show ?thesis using True ex res ok [OF 3(2)] by simp
    qed
  qed simp
qed simp

text \<open>An operating system on which every call but \<open>mmap\<close> succeeds; descriptors are fresh.\<close>

definition failing_mmap :: os where
  "failing_mmap tr c = (case c of Shm_open _ _ _ \<Rightarrow> 3 + int (length tr) | Mmap _ _ \<Rightarrow> -1 | _ \<Rightarrow> 0)"

definition attach_round :: "nat \<Rightarrow> string \<Rightarrow> calls \<Rightarrow> calls" where
  "attach_round bytes name tr = tr @ [Shm_open name False False, Close (3 + int (length tr)),
     Shm_open name False True, Mmap (5 + int (length tr)) bytes]"

lemma attach_round_step:
  assumes "t < deadline"
  shows "try_attach dm failing_mmap bytes name deadline (t # ts) tr =
    try_attach dm failing_mmap bytes name deadline ts (attach_round bytes name tr)"
  using assms
  by (simp add: shm_exists_eq Subscriber_ctor_def open_shm_def map_shm_def failing_mmap_def Let_def attach_round_def)

lemma attach_round_held:
  "held failing_mmap [] (attach_round bytes name tr) ([], []) =
     (case held failing_mmap [] tr ([], []) of (fds, maps) \<Rightarrow> ((5 + int (length tr)) # fds, maps))"
  by (simp add: attach_round_def held_append failing_mmap_def split: prod.splits)

text \<open>
  Unexpected errors are not reported. When the segment exists but every \<open>mmap\<close> of it fails,
  \<open>try_attach\<close> does not throw: it retries until the deadline and returns \<open>nullptr\<close>, and every one of
  the \<open>n\<close> attempts leaves a descriptor open.
\<close>

theorem try_attach_swallows_errors:
  assumes "t < deadline" "deadline \<le> t'"
  shows "\<exists>tr'. try_attach dm failing_mmap bytes name deadline (replicate n t @ [t']) [] = Some (None, tr') \<and>
    length (fst (held failing_mmap [] tr' ([], []))) = n"
proof -
  have "\<exists>tr'. try_attach dm failing_mmap bytes name deadline (replicate n t @ [t']) tr = Some (None, tr') \<and>
      length (fst (held failing_mmap [] tr' ([], []))) = n + length (fst (held failing_mmap [] tr ([], [])))" for tr
  proof (induction n arbitrary: tr)
    case (Suc n)
    show ?case
      using Suc.IH [of "attach_round bytes name tr"] attach_round_step [OF assms(1), of dm bytes name "replicate n t @ [t']" tr]
      by (simp add: attach_round_held del: try_attach.simps split: prod.splits)
  qed (use assms(2) in simp)
  from this [of "[]"] show ?thesis by simp
qed

theorem try_attach_swallows_errors_witness:
  "\<exists>tr'. try_attach nat_double failing_mmap 192 ''/ch'' 100 (replicate 7 10 @ [100]) [] = Some (None, tr') \<and>
    length (fst (held failing_mmap [] tr' ([], []))) = 7"
  by (rule try_attach_swallows_errors) simp_all

theorem try_attach_returns_witness:
  "\<exists>r tr'. try_attach nat_double (\<lambda>tr c. -1) 192 ''/ch'' 100 [10, 50, 120] [] = Some (r, tr')"
  using try_attach_returns [of 120 "[10, 50, 120]" 100 nat_double "\<lambda>tr c. -1" 192 "''/ch''" "[]"]
  by (simp del: try_attach.simps) blast

end
