(* ===== verification/Mpmc_Ring_Buffer.thy ===== *)
theory Mpmc_Ring_Buffer
  imports Lwipc_Prelude
begin

text \<open>
  \<open>MpmcRingBuffer\<close> of \<open>mpmc_ring_buffer.hpp\<close>, the bounded queue for many producers and consumers, run by
  one thread: the operations with their compare-and-swap retries, and the proof that they
  implement a bounded first-in-first-out queue.
\<close>

section \<open>The ring and its operations\<close>

record 'a mpmc_slot =
  ms_sequence :: u64
  ms_data :: 'a

record 'a MpmcRingBuffer =
  mp_write_pos :: u64
  mp_read_pos :: u64
  mp_slots :: "'a mpmc_slot list"

definition MpmcRingBuffer_ctor :: "u64 \<Rightarrow> 'a \<Rightarrow> 'a MpmcRingBuffer" where
  "MpmcRingBuffer_ctor C zero =
     \<lparr>mp_write_pos = 0, mp_read_pos = 0,
      mp_slots = map (\<lambda>i. \<lparr>ms_sequence = of_nat i, ms_data = zero\<rparr>) [0..<unat C]\<rparr>"

text \<open>The signed distance of a sequence number from a position.\<close>

definition seq_diff :: "u64 \<Rightarrow> u64 \<Rightarrow> int" where
  "seq_diff seq pos = sint seq - sint pos"

text \<open>
  \<open>push\<close>. Each element of the list is one round of the loop and says whether the weak
  compare-and-swap of that round fails spuriously; \<open>None\<close> means that the loop is still running
  when the list ends.
\<close>

fun push_loop :: "u64 \<Rightarrow> bool list \<Rightarrow> u64 \<Rightarrow> 'a \<Rightarrow> 'a MpmcRingBuffer \<Rightarrow> (bool \<times> 'a MpmcRingBuffer) option" where
  "push_loop C [] pos item q = None"
| "push_loop C (spurious # fs) pos item q =
     (let i = slot_index C pos;
          diff = seq_diff (ms_sequence (mp_slots q ! i)) pos
      in if diff = 0 then
           (if \<not> spurious \<and> mp_write_pos q = pos
            then Some (True, q\<lparr>mp_write_pos := pos + 1,
                               mp_slots := (mp_slots q)[i := \<lparr>ms_sequence = pos + 1, ms_data = item\<rparr>]\<rparr>)
            else push_loop C fs (mp_write_pos q) item q)
         else if diff < 0 then Some (False, q)
         else push_loop C fs (mp_write_pos q) item q)"

definition mpmc_push :: "u64 \<Rightarrow> bool list \<Rightarrow> 'a \<Rightarrow> 'a MpmcRingBuffer \<Rightarrow> (bool \<times> 'a MpmcRingBuffer) option" where
  "mpmc_push C fs item q = push_loop C fs (mp_write_pos q) item q"

fun pop_loop :: "u64 \<Rightarrow> bool list \<Rightarrow> u64 \<Rightarrow> 'a \<Rightarrow> 'a MpmcRingBuffer \<Rightarrow> (bool \<times> 'a \<times> 'a MpmcRingBuffer) option" where
  "pop_loop C [] pos out q = None"
| "pop_loop C (spurious # fs) pos out q =
     (let i = slot_index C pos;
          slot = mp_slots q ! i;
          diff = seq_diff (ms_sequence slot) (pos + 1)
      in if diff = 0 then
           (if \<not> spurious \<and> mp_read_pos q = pos
            then Some (True, ms_data slot,
                       q\<lparr>mp_read_pos := pos + 1, mp_slots := (mp_slots q)[i := slot\<lparr>ms_sequence := pos + C\<rparr>]\<rparr>)
            else pop_loop C fs (mp_read_pos q) out q)
         else if diff < 0 then Some (False, out, q)
         else pop_loop C fs (mp_read_pos q) out q)"

definition mpmc_pop :: "u64 \<Rightarrow> bool list \<Rightarrow> 'a \<Rightarrow> 'a MpmcRingBuffer \<Rightarrow> (bool \<times> 'a \<times> 'a MpmcRingBuffer) option" where
  "mpmc_pop C fs out q = pop_loop C fs (mp_read_pos q) out q"

definition approx_size :: "'a MpmcRingBuffer \<Rightarrow> u64" where
  "approx_size q =
     (let w = mp_write_pos q; r = mp_read_pos q in if w \<ge> r then w - r else 0)"

text \<open>The operations when no attempt fails spuriously.\<close>

definition push_now :: "u64 \<Rightarrow> 'a \<Rightarrow> 'a MpmcRingBuffer \<Rightarrow> bool \<times> 'a MpmcRingBuffer" where
  "push_now C item q = (case mpmc_push C [False] item q of Some r \<Rightarrow> r | None \<Rightarrow> (False, q))"

definition pop_now :: "u64 \<Rightarrow> 'a \<Rightarrow> 'a MpmcRingBuffer \<Rightarrow> bool \<times> 'a \<times> 'a MpmcRingBuffer" where
  "pop_now C out q = (case mpmc_pop C [False] out q of Some r \<Rightarrow> r | None \<Rightarrow> (False, out, q))"

section \<open>Representation\<close>

text \<open>
  The queue holds \<open>xs\<close> after \<open>r\<close> items have been taken: positions \<open>r ..< r + length xs\<close> are ready to
  read, the next positions up to a whole lap are free.
\<close>

definition mpmc_rep :: "u64 \<Rightarrow> 'a MpmcRingBuffer \<Rightarrow> nat \<Rightarrow> 'a list \<Rightarrow> bool" where
  "mpmc_rep C q r xs \<longleftrightarrow>
     valid_capacity C \<and> length (mp_slots q) = unat C \<and> length xs \<le> unat C \<and>
     unat (mp_read_pos q) = r \<and> unat (mp_write_pos q) = r + length xs \<and>
     (\<forall>k<length xs. mp_slots q ! ((r + k) mod unat C) = \<lparr>ms_sequence = of_nat (r + k + 1), ms_data = xs ! k\<rparr>) \<and>
     (\<forall>k. length xs \<le> k \<and> k < unat C \<longrightarrow> ms_sequence (mp_slots q ! ((r + k) mod unat C)) = of_nat (r + k))"

lemma sint_small:
  assumes "unat (w :: u64) < 2 ^ 63"
  shows "sint w = int (unat w)"
proof -
  have u: "uint w < 2 ^ 63" using assms using of_nat_less_iff [of "unat w" "2 ^ 63", where 'a = int] by simp
  have "0 \<le> uint w" by simp
  then have "- (2 ^ 63) \<le> uint w" by (rule order_trans [rotated]) simp
  with u have "sint w = uint w" unfolding sint_uint by (intro signed_take_bit_int_eq_self) simp_all
  then show ?thesis by simp
qed

lemma seq_diff_small:
  assumes "unat seq < 2 ^ 63" "unat pos < 2 ^ 63"
  shows "seq_diff seq pos = 0 \<longleftrightarrow> unat seq = unat pos" "seq_diff seq pos < 0 \<longleftrightarrow> unat seq < unat pos"
  unfolding seq_diff_def sint_small [OF assms(1)] sint_small [OF assms(2)] by linarith+

text \<open>What the two loops find in the slot at their position.\<close>

lemma mpmc_repD:
  assumes "mpmc_rep C q r xs"
  shows "valid_capacity C" "length (mp_slots q) = unat C" "length xs \<le> unat C"
    "mp_read_pos q = of_nat r" "mp_write_pos q = of_nat (r + length xs)"
    "2 \<le> unat C"
    "k < length xs \<Longrightarrow> mp_slots q ! ((r + k) mod unat C) = \<lparr>ms_sequence = of_nat (r + k + 1), ms_data = xs ! k\<rparr>"
    "length xs \<le> k \<Longrightarrow> k < unat C \<Longrightarrow> ms_sequence (mp_slots q ! ((r + k) mod unat C)) = of_nat (r + k)"
proof -
  from assms have a: "valid_capacity C" "length (mp_slots q) = unat C" "length xs \<le> unat C"
    "unat (mp_read_pos q) = r" "unat (mp_write_pos q) = r + length xs"
    by (simp_all add: mpmc_rep_def)
  have "mp_write_pos q = of_nat (unat (mp_write_pos q))" "mp_read_pos q = of_nat (unat (mp_read_pos q))" by simp_all
  then show "mp_read_pos q = of_nat r" "mp_write_pos q = of_nat (r + length xs)"
    unfolding a(4,5) by (simp_all only:)
  show "2 \<le> unat C" by (rule valid_capacity_ge2 [OF a(1)])
  show "k < length xs \<Longrightarrow> mp_slots q ! ((r + k) mod unat C) = \<lparr>ms_sequence = of_nat (r + k + 1), ms_data = xs ! k\<rparr>"
    "length xs \<le> k \<Longrightarrow> k < unat C \<Longrightarrow> ms_sequence (mp_slots q ! ((r + k) mod unat C)) = of_nat (r + k)"
    using assms unfolding mpmc_rep_def by blast+
qed (use assms in \<open>simp_all add: mpmc_rep_def\<close>)

lemma diff_of_nat:
  assumes "a < 2 ^ 63" "b < 2 ^ 63"
  shows "seq_diff (of_nat a) (of_nat b) = 0 \<longleftrightarrow> a = b" "seq_diff (of_nat a) (of_nat b) < 0 \<longleftrightarrow> a < b"
  using seq_diff_small [of "of_nat a" "of_nat b"] assms by (simp_all add: unat_of_nat_u64)

lemma push_loop_full:
  assumes rep: "mpmc_rep C q r xs" and full: "length xs = unat C" and n: "r + length xs + unat C < 2 ^ 63"
  shows "push_loop C (f # fs) (mp_write_pos q) x q = Some (False, q)"
proof -
  note d = mpmc_repD [OF rep]
  let ?w = "r + length xs"
  have "mp_slots q ! (?w mod unat C) = mp_slots q ! ((r + 0) mod unat C)" using full by simp
  then have sq: "ms_sequence (mp_slots q ! (?w mod unat C)) = of_nat (r + 1)" using d(6) d(7) [of 0] full by simp
  have "seq_diff (of_nat (r + 1)) (of_nat ?w) < 0" "seq_diff (of_nat (r + 1)) (of_nat ?w) \<noteq> 0"
    using diff_of_nat [of "r + 1" ?w] full d(6) n by simp_all
  then show ?thesis using sq slot_index_of_nat [OF d(1), of ?w] n unfolding d(5) by (simp add: Let_def)
qed

lemma push_loop_room:
  assumes rep: "mpmc_rep C q r xs" and room: "length xs < unat C" and n: "r + length xs + unat C < 2 ^ 63"
    and fs: "False \<in> set fs"
  shows "push_loop C fs (mp_write_pos q) x q =
    Some (True, q\<lparr>mp_write_pos := of_nat (r + length xs + 1),
      mp_slots := (mp_slots q)[(r + length xs) mod unat C := \<lparr>ms_sequence = of_nat (r + length xs + 1), ms_data = x\<rparr>]\<rparr>)"
  using fs
proof (induction fs)
  case (Cons f fs)
  note d = mpmc_repD [OF rep]
  define w where "w = r + length xs"
  have wp: "mp_write_pos q = of_nat w" using d(5) by (simp only: w_def)
  have sq: "ms_sequence (mp_slots q ! (w mod unat C)) = of_nat w" using d(8) [of "length xs"] room by (simp add: w_def)
  have ix: "slot_index C (of_nat w) = w mod unat C" using slot_index_of_nat [OF d(1), of w] n by (simp add: w_def)
  show ?case
    using sq ix wp Cons unfolding w_def [symmetric] by (cases f) (simp_all add: seq_diff_def Let_def add.commute)
qed simp

lemma mod_window_inj:
  assumes "(r + j) mod n = (r + k) mod n" "j < n" "k < n"
  shows "j = (k :: nat)"
  using window_mod_inj [OF assms(1), of "r + n"] assms(2,3) by simp

lemma push_rep:
  assumes rep: "mpmc_rep C q r xs" and room: "length xs < unat C" and n: "r + length xs + unat C < 2 ^ 63"
  shows "mpmc_rep C (q\<lparr>mp_write_pos := of_nat (r + length xs + 1),
      mp_slots := (mp_slots q)[(r + length xs) mod unat C := \<lparr>ms_sequence = of_nat (r + length xs + 1), ms_data = x\<rparr>]\<rparr>)
    r (xs @ [x])" (is "mpmc_rep C ?q r _")
proof -
  note d = mpmc_repD [OF rep]
  let ?w = "r + length xs"
  have lt: "?w mod unat C < length (mp_slots q)" using d(2,6) by simp
  have other: "mp_slots ?q ! ((r + k) mod unat C) = mp_slots q ! ((r + k) mod unat C)"
    if "k < unat C" "k \<noteq> length xs" for k
  proof -
    have "(r + length xs) mod unat C \<noteq> (r + k) mod unat C"
      using mod_window_inj [of r "length xs" "unat C" k] that room by blast
    then show ?thesis by simp
  qed
  have "mp_slots ?q ! ((r + k) mod unat C) = \<lparr>ms_sequence = of_nat (r + k + 1), ms_data = (xs @ [x]) ! k\<rparr>"
    if "k < length (xs @ [x])" for k
  proof (cases "k = length xs")
    case True
    then show ?thesis using lt by simp
  next
    case False
    then show ?thesis using other [of k] d(7) [of k] that room by (simp add: nth_append)
  qed
  moreover have "ms_sequence (mp_slots ?q ! ((r + k) mod unat C)) = of_nat (r + k)"
    if "length (xs @ [x]) \<le> k" "k < unat C" for k
    using other [of k] d(8) [of k] that by simp
  moreover have "unat (of_nat (?w + 1) :: u64) = ?w + 1" using n d(6) by (intro unat_of_nat_u64) simp
  moreover have "unat (mp_read_pos q) = r" using rep by (simp add: mpmc_rep_def)
  ultimately show ?thesis
    unfolding mpmc_rep_def using d(1,2) room by simp
qed

lemma pop_loop_empty:
  assumes rep: "mpmc_rep C q r []" and n: "r + unat C < 2 ^ 63"
  shows "pop_loop C (f # fs) (mp_read_pos q) out q = Some (False, out, q)"
proof -
  note d = mpmc_repD [OF rep]
  have sq: "ms_sequence (mp_slots q ! (r mod unat C)) = of_nat r" using d(8) [of 0] d(6) by simp
  have e: "(of_nat r + 1 :: u64) = of_nat (r + 1)" by simp
  have "seq_diff (of_nat r) (of_nat r + 1) < 0" "seq_diff (of_nat r) (of_nat r + 1) \<noteq> 0"
    unfolding e by (subst diff_of_nat; use n d(6) in simp)+
  then show ?thesis using sq slot_index_of_nat [OF d(1), of r] n unfolding d(4) by (simp add: Let_def)
qed

lemma pop_loop_front:
  assumes rep: "mpmc_rep C q r (x # xs)" and n: "r + length xs + unat C < 2 ^ 63" and fs: "False \<in> set fs"
  shows "pop_loop C fs (mp_read_pos q) out q =
    Some (True, x, q\<lparr>mp_read_pos := of_nat (r + 1),
      mp_slots := (mp_slots q)[r mod unat C := \<lparr>ms_sequence = of_nat (r + unat C), ms_data = x\<rparr>]\<rparr>)"
  using fs
proof (induction fs)
  case (Cons f fs)
  note d = mpmc_repD [OF rep]
  have sl: "mp_slots q ! (r mod unat C) = \<lparr>ms_sequence = of_nat (r + 1), ms_data = x\<rparr>" using d(7) [of 0] by simp
  have ix: "slot_index C (of_nat r) = r mod unat C" using slot_index_of_nat [OF d(1), of r] n by simp
  show ?case
    using sl ix d(4) Cons by (cases f) (simp_all add: seq_diff_def Let_def add.commute)
qed simp

lemma pop_rep:
  assumes rep: "mpmc_rep C q r (x # xs)" and n: "r + length xs + unat C < 2 ^ 63"
  shows "mpmc_rep C (q\<lparr>mp_read_pos := of_nat (r + 1),
      mp_slots := (mp_slots q)[r mod unat C := \<lparr>ms_sequence = of_nat (r + unat C), ms_data = x\<rparr>]\<rparr>) (Suc r) xs"
    (is "mpmc_rep C ?q _ _")
proof -
  note d = mpmc_repD [OF rep]
  have lt: "r mod unat C < length (mp_slots q)" using d(2,6) by simp
  have other: "mp_slots ?q ! ((Suc r + k) mod unat C) = mp_slots q ! ((r + Suc k) mod unat C)"
    if "Suc k < unat C" for k
  proof -
    have "r mod unat C \<noteq> (Suc r + k) mod unat C"
      using mod_window_inj [of r 0 "unat C" "Suc k"] that by fastforce
    then show ?thesis by simp
  qed
  have "mp_slots ?q ! ((Suc r + k) mod unat C) = \<lparr>ms_sequence = of_nat (Suc r + k + 1), ms_data = xs ! k\<rparr>"
    if "k < length xs" for k
    using other [of k] d(7) [of "Suc k"] that d(3) by simp
  moreover have "ms_sequence (mp_slots ?q ! ((Suc r + k) mod unat C)) = of_nat (Suc r + k)"
    if "length xs \<le> k" "k < unat C" for k
  proof (cases "Suc k < unat C")
    case True
    then show ?thesis using other [of k] d(8) [of "Suc k"] that by simp
  next
    case False
    then have e: "Suc r + k = r + unat C" using that by simp
    show ?thesis unfolding e using lt by simp
  qed
  moreover have "unat (of_nat (r + 1) :: u64) = r + 1" using n d(6) by (intro unat_of_nat_u64) simp
  moreover have "unat (mp_write_pos q) = Suc r + length xs" using rep by (simp add: mpmc_rep_def)
  ultimately show ?thesis
    unfolding mpmc_rep_def using d(1,2,3) by simp
qed

interpretation mpmc: bounded_queue "mpmc_rep C" "unat C" "2 ^ 63 - unat C" "push_now C" "pop_now C"
  for C
proof (unfold_locales, goal_cases)
  case (1 q r xs) then show ?case by (rule mpmc_repD(3))
next
  case (2 q r xs x)
  then show ?case using push_loop_full [of C q r xs False "[]" x] by (simp add: push_now_def mpmc_push_def)
next
  case (3 q r xs x)
  then show ?case
    using push_loop_room [of C q r xs "[False]" x] push_rep [of C q r xs x] by (simp add: push_now_def mpmc_push_def)
next
  case (4 q r out)
  then show ?case using pop_loop_empty [of C q r False "[]" out] by (simp add: pop_now_def mpmc_pop_def)
next
  case (5 q r x xs out)
  then show ?case
    using pop_loop_front [of C q r x xs "[False]" out] pop_rep [of C q r x xs] by (simp add: pop_now_def mpmc_pop_def)
qed

section \<open>Properties\<close>

lemma mpmc_ctor_rep:
  assumes "valid_capacity C"
  shows "mpmc_rep C (MpmcRingBuffer_ctor C z) 0 []"
  using assms by (simp add: mpmc_rep_def MpmcRingBuffer_ctor_def)

text \<open>
  C17. \<open>push\<close> and \<open>pop\<close> of one thread implement a bounded queue, whatever attempts of the weak
  compare-and-swap fail spuriously, as long as one does not. \<open>push\<close> appends and returns \<open>true\<close> unless
  the queue is full, when it changes nothing and returns \<open>false\<close>; \<open>pop\<close> takes the oldest item, or
  leaves everything as it is and returns \<open>false\<close> on an empty queue.
\<close>

theorem mpmc_queue_behaviour:
  assumes "mpmc_rep C q r xs" "r + length xs + unat C < 2 ^ 63" "False \<in> set fs"
  shows "(if length xs = unat C then mpmc_push C fs x q = Some (False, q)
      else \<exists>q'. mpmc_push C fs x q = Some (True, q') \<and> mpmc_rep C q' r (xs @ [x])) \<and>
    (case xs of [] \<Rightarrow> mpmc_pop C fs out q = Some (False, out, q)
     | y # ys \<Rightarrow> \<exists>q'. mpmc_pop C fs out q = Some (True, y, q') \<and> mpmc_rep C q' (Suc r) ys)"
proof -
  obtain f fs' where fs: "fs = f # fs'" using assms(3) by (cases fs) auto
  have "length xs \<le> unat C" by (rule mpmc_repD(3) [OF assms(1)])
  then have "if length xs = unat C then mpmc_push C fs x q = Some (False, q)
      else \<exists>q'. mpmc_push C fs x q = Some (True, q') \<and> mpmc_rep C q' r (xs @ [x])"
    using push_loop_full [OF assms(1) _ assms(2), of f fs' x] push_loop_room [OF assms(1) _ assms(2,3), of x]
      push_rep [OF assms(1) _ assms(2), of x] fs by (auto simp: mpmc_push_def)
  moreover have "case xs of [] \<Rightarrow> mpmc_pop C fs out q = Some (False, out, q)
     | y # ys \<Rightarrow> \<exists>q'. mpmc_pop C fs out q = Some (True, y, q') \<and> mpmc_rep C q' (Suc r) ys"
  proof (cases xs)
    case Nil
    then show ?thesis using pop_loop_empty [of C q r f fs' out] assms(1,2) fs by (simp add: mpmc_pop_def)
  next
    case (Cons y ys)
    then show ?thesis
      using pop_loop_front [of C q r y ys fs out] pop_rep [of C q r y ys] assms by (simp add: mpmc_pop_def)
  qed
  ultimately show ?thesis ..
qed

theorem mpmc_queue_behaviour_witness:
  "\<exists>q'. mpmc_push 2 [True, False] (7::nat) (MpmcRingBuffer_ctor 2 0) = Some (True, q') \<and> mpmc_rep 2 q' 0 [7]"
proof -
  have "mpmc_rep 2 (MpmcRingBuffer_ctor 2 (0::nat)) 0 []" by (rule mpmc_ctor_rep) (simp add: valid_capacity_def)
  from mpmc_queue_behaviour [OF this, of "[True, False]" 7] show ?thesis by simp
qed

definition push_list :: "u64 \<Rightarrow> 'a list \<Rightarrow> 'a MpmcRingBuffer \<Rightarrow> nat \<times> 'a MpmcRingBuffer" where
  "push_list C = mpmc.enq_list C"

definition pop_list :: "u64 \<Rightarrow> nat \<Rightarrow> 'a \<Rightarrow> 'a MpmcRingBuffer \<Rightarrow> 'a list \<times> 'a MpmcRingBuffer" where
  "pop_list C = mpmc.deq_list C"

lemmas push_list_simps [simp] = mpmc.enq_list.simps [folded push_list_def]
lemmas pop_list_simps [simp] = mpmc.deq_list.simps [folded pop_list_def]

text \<open>
  First in, first out, and \<open>approx_size\<close> is exact for one thread. Of the items offered to a new
  ring the first \<open>Capacity\<close> are accepted, \<open>approx_size\<close> is their number, and popping returns them in
  the order in which they were pushed.
\<close>

theorem mpmc_fifo:
  fixes z out :: 'a
  assumes "valid_capacity C" "unat C < 2 ^ 62" "length xs \<le> n"
  defines "q \<equiv> snd (push_list C xs (MpmcRingBuffer_ctor C z))"
  shows "fst (push_list C xs (MpmcRingBuffer_ctor C z)) = min (length xs) (unat C) \<and>
    unat (approx_size q) = min (length xs) (unat C) \<and> fst (pop_list C n out q) = take (unat C) xs"
proof -
  note rep = mpmc_ctor_rep [OF assms(1), of z]
  have b: "0 + unat C < 2 ^ 63 - unat C" using assms(2) by simp
  obtain q' where q': "push_list C xs (MpmcRingBuffer_ctor C z) = (min (length xs) (unat C), q')"
    "mpmc_rep C q' 0 (take (unat C) xs)"
    using mpmc.enq_list_rep [OF rep b, of xs] by (auto simp: push_list_def)
  have "unat (mp_write_pos q') = min (length xs) (unat C)" "unat (mp_read_pos q') = 0"
    using q'(2) by (simp_all add: mpmc_rep_def min.commute)
  then have "unat (approx_size q') = min (length xs) (unat C)"
    by (simp add: approx_size_def Let_def word_le_nat_alt unat_eq_0)
  with q' show ?thesis
    using mpmc.fill_and_drain [OF rep b assms(3), of out] by (simp add: q_def push_list_def pop_list_def)
qed

theorem mpmc_fifo_witness:
  "fst (pop_list 2 3 0 (snd (push_list 2 [5, 6, 7] (MpmcRingBuffer_ctor 2 (0::nat))))) = [5, 6]"
  using mpmc_fifo [of 2 "[5, 6, 7]" 3 "0::nat" 0] by (simp add: valid_capacity_def del: push_list_simps pop_list_simps)

end
