(* ===== verification/Mpmc_Concurrent.thy ===== *)
theory Mpmc_Concurrent
  imports Mpmc_Ring_Buffer
begin

text \<open>
  The MPMC ring used by any number of threads, each of which pushes and pops at will. Every
  shared access of \<open>push\<close> and \<open>pop\<close> is one step. The two \<open>memcpy\<close> calls are single steps: the
  invariant shows that a thread that copies has its slot for itself.
\<close>

section \<open>The system\<close>

datatype 'a mpmc_pc =
    M_Idle
  | Push_Pos 'a u64          \<comment> \<open>position loaded\<close>
  | Push_Seq 'a u64 u64      \<comment> \<open>sequence loaded\<close>
  | Push_Copy 'a u64         \<comment> \<open>position claimed\<close>
  | Push_Publish u64         \<comment> \<open>payload copied\<close>
  | Pop_Pos u64
  | Pop_Seq u64 u64
  | Pop_Copy u64
  | Pop_Free u64 'a

text \<open>
  History variables: \<open>mc_hist\<close> lists the items by the position that their push claimed; \<open>mc_put\<close> and
  \<open>mc_got\<close> list, per thread, the positions and items of the calls that returned \<open>true\<close>.
\<close>

record 'a mpmc_sys =
  mc_ring :: "'a MpmcRingBuffer"
  mc_pc :: "nat \<Rightarrow> 'a mpmc_pc"
  mc_hist :: "'a list"
  mc_put :: "nat \<Rightarrow> (nat \<times> 'a) list"
  mc_got :: "nat \<Rightarrow> (nat \<times> 'a) list"

definition mpmc_sys_init :: "u64 \<Rightarrow> 'a mpmc_sys \<Rightarrow> bool" where
  "mpmc_sys_init C s \<longleftrightarrow>
     valid_capacity C \<and> (\<exists>zero. mc_ring s = MpmcRingBuffer_ctor C zero) \<and> mc_pc s = (\<lambda>_. M_Idle) \<and>
     mc_hist s = [] \<and> mc_put s = (\<lambda>_. []) \<and> mc_got s = (\<lambda>_. [])"

definition slot_sequence :: "u64 \<Rightarrow> u64 \<Rightarrow> 'a MpmcRingBuffer \<Rightarrow> u64" where
  "slot_sequence C pos q = ms_sequence (mp_slots q ! slot_index C pos)"

definition set_sequence :: "u64 \<Rightarrow> u64 \<Rightarrow> u64 \<Rightarrow> 'a MpmcRingBuffer \<Rightarrow> 'a MpmcRingBuffer" where
  "set_sequence C pos v q =
     (let i = slot_index C pos in q\<lparr>mp_slots := (mp_slots q)[i := (mp_slots q ! i)\<lparr>ms_sequence := v\<rparr>]\<rparr>)"

definition set_data :: "u64 \<Rightarrow> u64 \<Rightarrow> 'a \<Rightarrow> 'a MpmcRingBuffer \<Rightarrow> 'a MpmcRingBuffer" where
  "set_data C pos x q =
     (let i = slot_index C pos in q\<lparr>mp_slots := (mp_slots q)[i := (mp_slots q ! i)\<lparr>ms_data := x\<rparr>]\<rparr>)"

inductive mpmc_step :: "u64 \<Rightarrow> 'a mpmc_sys \<Rightarrow> 'a mpmc_sys \<Rightarrow> bool" for C :: u64 where
  push_load: "mc_pc s t = M_Idle \<Longrightarrow>
    mpmc_step C s (s\<lparr>mc_pc := (mc_pc s)(t := Push_Pos x (mp_write_pos (mc_ring s)))\<rparr>)"
| push_seq: "mc_pc s t = Push_Pos x pos \<Longrightarrow>
    mpmc_step C s (s\<lparr>mc_pc := (mc_pc s)(t := Push_Seq x pos (slot_sequence C pos (mc_ring s)))\<rparr>)"
| push_claim: "mc_pc s t = Push_Seq x pos seq \<Longrightarrow> seq_diff seq pos = 0 \<Longrightarrow> mp_write_pos (mc_ring s) = pos \<Longrightarrow>
    mpmc_step C s (s\<lparr>mc_ring := (mc_ring s)\<lparr>mp_write_pos := pos + 1\<rparr>, mc_pc := (mc_pc s)(t := Push_Copy x pos),
      mc_hist := mc_hist s @ [x]\<rparr>)"
| push_cas_fail: "mc_pc s t = Push_Seq x pos seq \<Longrightarrow> seq_diff seq pos = 0 \<Longrightarrow>
    mpmc_step C s (s\<lparr>mc_pc := (mc_pc s)(t := Push_Pos x (mp_write_pos (mc_ring s)))\<rparr>)"
| push_full: "mc_pc s t = Push_Seq x pos seq \<Longrightarrow> seq_diff seq pos < 0 \<Longrightarrow>
    mpmc_step C s (s\<lparr>mc_pc := (mc_pc s)(t := M_Idle)\<rparr>)"
| push_behind: "mc_pc s t = Push_Seq x pos seq \<Longrightarrow> seq_diff seq pos > 0 \<Longrightarrow>
    mpmc_step C s (s\<lparr>mc_pc := (mc_pc s)(t := Push_Pos x (mp_write_pos (mc_ring s)))\<rparr>)"
| push_copy: "mc_pc s t = Push_Copy x pos \<Longrightarrow>
    mpmc_step C s (s\<lparr>mc_ring := set_data C pos x (mc_ring s), mc_pc := (mc_pc s)(t := Push_Publish pos)\<rparr>)"
| push_publish: "mc_pc s t = Push_Publish pos \<Longrightarrow>
    mpmc_step C s (s\<lparr>mc_ring := set_sequence C pos (pos + 1) (mc_ring s), mc_pc := (mc_pc s)(t := M_Idle),
      mc_put := (mc_put s)(t := mc_put s t @ [(unat pos, mc_hist s ! unat pos)])\<rparr>)"
| pop_load: "mc_pc s t = M_Idle \<Longrightarrow>
    mpmc_step C s (s\<lparr>mc_pc := (mc_pc s)(t := Pop_Pos (mp_read_pos (mc_ring s)))\<rparr>)"
| pop_seq: "mc_pc s t = Pop_Pos pos \<Longrightarrow>
    mpmc_step C s (s\<lparr>mc_pc := (mc_pc s)(t := Pop_Seq pos (slot_sequence C pos (mc_ring s)))\<rparr>)"
| pop_claim: "mc_pc s t = Pop_Seq pos seq \<Longrightarrow> seq_diff seq (pos + 1) = 0 \<Longrightarrow> mp_read_pos (mc_ring s) = pos \<Longrightarrow>
    mpmc_step C s (s\<lparr>mc_ring := (mc_ring s)\<lparr>mp_read_pos := pos + 1\<rparr>, mc_pc := (mc_pc s)(t := Pop_Copy pos)\<rparr>)"
| pop_cas_fail: "mc_pc s t = Pop_Seq pos seq \<Longrightarrow> seq_diff seq (pos + 1) = 0 \<Longrightarrow>
    mpmc_step C s (s\<lparr>mc_pc := (mc_pc s)(t := Pop_Pos (mp_read_pos (mc_ring s)))\<rparr>)"
| pop_empty: "mc_pc s t = Pop_Seq pos seq \<Longrightarrow> seq_diff seq (pos + 1) < 0 \<Longrightarrow>
    mpmc_step C s (s\<lparr>mc_pc := (mc_pc s)(t := M_Idle)\<rparr>)"
| pop_behind: "mc_pc s t = Pop_Seq pos seq \<Longrightarrow> seq_diff seq (pos + 1) > 0 \<Longrightarrow>
    mpmc_step C s (s\<lparr>mc_pc := (mc_pc s)(t := Pop_Pos (mp_read_pos (mc_ring s)))\<rparr>)"
| pop_copy: "mc_pc s t = Pop_Copy pos \<Longrightarrow>
    mpmc_step C s (s\<lparr>mc_pc := (mc_pc s)(t := Pop_Free pos (ms_data (mp_slots (mc_ring s) ! slot_index C pos)))\<rparr>)"
| pop_free: "mc_pc s t = Pop_Free pos out \<Longrightarrow>
    mpmc_step C s (s\<lparr>mc_ring := set_sequence C pos (pos + C) (mc_ring s), mc_pc := (mc_pc s)(t := M_Idle),
      mc_got := (mc_got s)(t := mc_got s t @ [(unat pos, out)])\<rparr>)"

section \<open>The invariant\<close>

text \<open>The positions that threads are writing and reading.\<close>

fun writes :: "'a mpmc_pc \<Rightarrow> nat set" where
  "writes (Push_Copy x pos) = {unat pos}"
| "writes (Push_Publish pos) = {unat pos}"
| "writes _ = {}"

fun reads :: "'a mpmc_pc \<Rightarrow> nat set" where
  "reads (Pop_Copy pos) = {unat pos}"
| "reads (Pop_Free pos out) = {unat pos}"
| "reads _ = {}"

definition seq_nat :: "'a MpmcRingBuffer \<Rightarrow> nat \<Rightarrow> nat" where
  "seq_nat q i = unat (ms_sequence (mp_slots q ! i))"

definition data_nth :: "'a MpmcRingBuffer \<Rightarrow> nat \<Rightarrow> 'a" where
  "data_nth q i = ms_data (mp_slots q ! i)"

text \<open>
  The four phases of a slot at position \<open>p\<close>, with \<open>w\<close> and \<open>r\<close> the write and read positions: free for
  the push of \<open>p\<close>, being written, ready, being read.
\<close>

definition slot_phase :: "nat \<Rightarrow> nat \<Rightarrow> nat \<Rightarrow> 'a list \<Rightarrow> nat set \<Rightarrow> nat set \<Rightarrow> nat \<Rightarrow> 'a \<Rightarrow> nat \<Rightarrow> bool" where
  "slot_phase n w r h wrs rds sq d p \<longleftrightarrow>
     sq = p \<and> w \<le> p \<and> p < r + n \<or>
     sq = p \<and> r \<le> p \<and> p < w \<and> p \<in> wrs \<or>
     sq = Suc p \<and> r \<le> p \<and> p < w \<and> d = h ! p \<or>
     sq = Suc p \<and> p < r \<and> w \<le> p + n \<and> d = h ! p \<and> p \<in> rds"

definition all_writes :: "(nat \<Rightarrow> 'a mpmc_pc) \<Rightarrow> nat set" where
  "all_writes pc = (\<Union>t. writes (pc t))"

definition all_reads :: "(nat \<Rightarrow> 'a mpmc_pc) \<Rightarrow> nat set" where
  "all_reads pc = (\<Union>t. reads (pc t))"

definition ring_ok :: "u64 \<Rightarrow> 'a MpmcRingBuffer \<Rightarrow> 'a list \<Rightarrow> (nat \<Rightarrow> 'a mpmc_pc) \<Rightarrow> bool" where
  "ring_ok C q h pc \<longleftrightarrow>
     valid_capacity C \<and> length (mp_slots q) = unat C \<and>
     unat (mp_write_pos q) = length h \<and> unat (mp_read_pos q) \<le> length h \<and>
     length h \<le> unat (mp_read_pos q) + unat C \<and>
     (\<forall>i<unat C. \<exists>p. p mod unat C = i \<and>
        slot_phase (unat C) (length h) (unat (mp_read_pos q)) h (all_writes pc) (all_reads pc)
          (seq_nat q i) (data_nth q i) p)"

fun pc_fits :: "nat \<Rightarrow> 'a MpmcRingBuffer \<Rightarrow> 'a list \<Rightarrow> 'a mpmc_pc \<Rightarrow> bool" where
  "pc_fits n q h M_Idle \<longleftrightarrow> True"
| "pc_fits n q h (Push_Pos x pos) \<longleftrightarrow> unat pos \<le> length h"
| "pc_fits n q h (Push_Seq x pos seq) \<longleftrightarrow> unat pos \<le> length h \<and> unat seq \<le> seq_nat q (unat pos mod n)"
| "pc_fits n q h (Push_Copy x pos) \<longleftrightarrow>
     unat pos < length h \<and> seq_nat q (unat pos mod n) = unat pos \<and> h ! unat pos = x"
| "pc_fits n q h (Push_Publish pos) \<longleftrightarrow>
     unat pos < length h \<and> seq_nat q (unat pos mod n) = unat pos \<and> data_nth q (unat pos mod n) = h ! unat pos"
| "pc_fits n q h (Pop_Pos pos) \<longleftrightarrow> unat pos \<le> unat (mp_read_pos q)"
| "pc_fits n q h (Pop_Seq pos seq) \<longleftrightarrow> unat pos \<le> unat (mp_read_pos q) \<and> unat seq \<le> seq_nat q (unat pos mod n)"
| "pc_fits n q h (Pop_Copy pos) \<longleftrightarrow>
     unat pos < unat (mp_read_pos q) \<and> seq_nat q (unat pos mod n) = Suc (unat pos)"
| "pc_fits n q h (Pop_Free pos out) \<longleftrightarrow>
     unat pos < unat (mp_read_pos q) \<and> seq_nat q (unat pos mod n) = Suc (unat pos) \<and> out = h ! unat pos"

text \<open>
  A ledger of the positions below \<open>n\<close>: each of them belongs to exactly one thread, which either is
  busy with it or has it in its log, and the log of a thread is in ascending order.
\<close>

definition owned_by :: "(nat \<Rightarrow> (nat \<times> 'a) list) \<Rightarrow> (nat \<Rightarrow> nat set) \<Rightarrow> nat \<Rightarrow> nat set" where
  "owned_by lg busy t = fst ` set (lg t) \<union> busy t"

definition ledger :: "nat \<Rightarrow> 'a list \<Rightarrow> (nat \<Rightarrow> (nat \<times> 'a) list) \<Rightarrow> (nat \<Rightarrow> nat set) \<Rightarrow> bool" where
  "ledger n h lg busy \<longleftrightarrow>
     (\<forall>t. \<exists>ps. sorted_wrt (<) ps \<and> lg t = map (\<lambda>p. (p, h ! p)) ps \<and> (\<forall>p\<in>set ps. \<forall>k\<in>busy t. p < k)) \<and>
     (\<forall>t u. t \<noteq> u \<longrightarrow> owned_by lg busy t \<inter> owned_by lg busy u = {}) \<and>
     (\<Union>t. owned_by lg busy t) = {..<n}"

definition mpmc_sys_inv :: "u64 \<Rightarrow> 'a mpmc_sys \<Rightarrow> bool" where
  "mpmc_sys_inv C s \<longleftrightarrow>
     ring_ok C (mc_ring s) (mc_hist s) (mc_pc s) \<and>
     (\<forall>t. pc_fits (unat C) (mc_ring s) (mc_hist s) (mc_pc s t)) \<and>
     ledger (length (mc_hist s)) (mc_hist s) (mc_put s) (\<lambda>t. writes (mc_pc s t)) \<and>
     ledger (unat (mp_read_pos (mc_ring s))) (mc_hist s) (mc_got s) (\<lambda>t. reads (mc_pc s t))"

section \<open>Ledgers\<close>

lemma ledger_empty: "ledger 0 h (\<lambda>_. []) (\<lambda>_. {})"
  by (simp add: ledger_def owned_by_def)

lemma ledger_below:
  assumes "ledger n h lg busy"
  shows "owned_by lg busy t \<subseteq> {..<n}"
  using assms by (auto simp: ledger_def)

lemma ledger_append:
  assumes "ledger n h lg busy" "n \<le> length h"
  shows "ledger n (h @ hs) lg busy"
proof -
  have "\<exists>ps. sorted_wrt (<) ps \<and> lg t = map (\<lambda>p. (p, (h @ hs) ! p)) ps \<and> (\<forall>p\<in>set ps. \<forall>k\<in>busy t. p < k)" for t
  proof -
    from assms(1) obtain ps where ps: "sorted_wrt (<) ps" "lg t = map (\<lambda>p. (p, h ! p)) ps" "\<forall>p\<in>set ps. \<forall>k\<in>busy t. p < k"
      unfolding ledger_def by blast
    have "set ps \<subseteq> {..<n}" using ledger_below [OF assms(1), of t] ps(2) by (force simp: owned_by_def)
    then have "lg t = map (\<lambda>p. (p, (h @ hs) ! p)) ps" using ps(2) assms(2) by (auto simp: nth_append)
    with ps show ?thesis by blast
  qed
  then show ?thesis using assms(1) unfolding ledger_def by blast
qed

lemma ledgerD:
  assumes "ledger n h lg busy"
  shows "\<exists>ps. sorted_wrt (<) ps \<and> lg t = map (\<lambda>p. (p, h ! p)) ps \<and> (\<forall>p\<in>set ps. \<forall>k\<in>busy t. p < k)"
    "t \<noteq> u \<Longrightarrow> owned_by lg busy t \<inter> owned_by lg busy u = {}"
    "(\<Union>t. owned_by lg busy t) = {..<n}"
  using assms unfolding ledger_def by blast+

lemma ledger_claim:
  assumes L: "ledger n h lg busy" and b: "busy t = {}"
  shows "ledger (Suc n) h lg (busy(t := {n}))"
  unfolding ledger_def
proof (intro conjI allI impI)
  have o: "owned_by lg (busy(t := {n})) u = (if u = t then insert n (owned_by lg busy t) else owned_by lg busy u)" for u
    using b by (auto simp: owned_by_def)
  have new: "n \<notin> owned_by lg busy u" for u using ledger_below [OF L, of u] by auto
  show "owned_by lg (busy(t := {n})) u \<inter> owned_by lg (busy(t := {n})) v = {}" if "u \<noteq> v" for u v
    using ledgerD(2) [OF L that] new [of u] new [of v] that by (auto simp: o)
  have "(\<Union>u. owned_by lg (busy(t := {n})) u) = insert n (\<Union>u. owned_by lg busy u)"
    by (auto simp: o split: if_splits)
  then show "(\<Union>u. owned_by lg (busy(t := {n})) u) = {..<Suc n}" using ledgerD(3) [OF L] by (simp add: lessThan_Suc)
  fix u
  obtain ps where ps: "sorted_wrt (<) ps" "lg u = map (\<lambda>p. (p, h ! p)) ps" "\<forall>q\<in>set ps. \<forall>k\<in>busy u. q < k"
    using ledgerD(1) [OF L] by blast
  have "set ps \<subseteq> owned_by lg busy u" using ps(2) by (force simp: owned_by_def)
  then have "\<forall>p\<in>set ps. p < n" using ledger_below [OF L, of u] by auto
  then show "\<exists>ps. sorted_wrt (<) ps \<and> lg u = map (\<lambda>p. (p, h ! p)) ps \<and> (\<forall>p\<in>set ps. \<forall>k\<in>(busy(t := {n})) u. p < k)"
    using ps by (intro exI [of _ ps]) auto
qed

lemma ledger_finish:
  assumes L: "ledger n h lg busy" and b: "busy t = {p}"
  shows "ledger n h (lg(t := lg t @ [(p, h ! p)])) (busy(t := {}))"
proof -
  have o: "owned_by (lg(t := lg t @ [(p, h ! p)])) (busy(t := {})) u = owned_by lg busy u" for u
    using b by (auto simp: owned_by_def)
  have "\<exists>ps. sorted_wrt (<) ps \<and> (lg(t := lg t @ [(p, h ! p)])) u = map (\<lambda>p. (p, h ! p)) ps \<and>
      (\<forall>q\<in>set ps. \<forall>k\<in>(busy(t := {})) u. q < k)" for u
  proof -
    from L obtain ps where ps: "sorted_wrt (<) ps" "lg u = map (\<lambda>p. (p, h ! p)) ps" "\<forall>q\<in>set ps. \<forall>k\<in>busy u. q < k"
      unfolding ledger_def by blast
    show ?thesis
    proof (cases "u = t")
      case True
      then have "sorted_wrt (<) (ps @ [p])" using ps b by (simp add: sorted_wrt_append)
      then show ?thesis using True ps(2) by (intro exI [of _ "ps @ [p]"]) simp
    next
      case False then show ?thesis using ps by auto
    qed
  qed
  then show ?thesis using L unfolding ledger_def o by blast
qed

lemma ledger_busy_cong: "(\<And>t. busy' t = busy t) \<Longrightarrow> ledger n h lg busy' = ledger n h lg busy"
  by (simp add: ext [of busy' busy])

lemma ledger_busy_unique:
  assumes "ledger n h lg busy" "p \<in> busy t" "p \<in> busy u"
  shows "t = u"
  using ledgerD(2) [OF assms(1), of t u] assms(2,3) by (auto simp: owned_by_def)

section \<open>Slots\<close>

lemma ring_okD:
  assumes "ring_ok C q h pc"
  shows "valid_capacity C" "2 \<le> unat C" "length (mp_slots q) = unat C" "unat (mp_write_pos q) = length h"
    "unat (mp_read_pos q) \<le> length h" "length h \<le> unat (mp_read_pos q) + unat C"
    "\<exists>p. p mod unat C = k mod unat C \<and> slot_phase (unat C) (length h) (unat (mp_read_pos q)) h (all_writes pc) (all_reads pc)
      (seq_nat q (k mod unat C)) (data_nth q (k mod unat C)) p"
proof -
  from assms have C: "valid_capacity C" and sl: "\<forall>i<unat C. \<exists>p. p mod unat C = i \<and>
      slot_phase (unat C) (length h) (unat (mp_read_pos q)) h (all_writes pc) (all_reads pc) (seq_nat q i) (data_nth q i) p"
    by (simp_all add: ring_ok_def)
  show "2 \<le> unat C" by (rule valid_capacity_ge2 [OF C])
  then have "k mod unat C < unat C" by simp
  with sl show "\<exists>p. p mod unat C = k mod unat C \<and> slot_phase (unat C) (length h) (unat (mp_read_pos q)) h (all_writes pc)
      (all_reads pc) (seq_nat q (k mod unat C)) (data_nth q (k mod unat C)) p" by blast
qed (use assms in \<open>simp_all add: ring_ok_def\<close>)

lemma Suc_mod_neq: "2 \<le> n \<Longrightarrow> Suc p mod n \<noteq> p mod (n :: nat)"
  by (metis Suc_leI lessI mod_Suc n_not_Suc_n not_less_eq_eq numeral_2_eq_2 zero_neq_one One_nat_def zero_less_Suc)

text \<open>The slot that a producer claims is free, the one that a consumer claims is ready.\<close>

lemma claim_write_slot:
  assumes ok: "ring_ok C q h pc" and sq: "length h \<le> seq_nat q (length h mod unat C)"
  shows "seq_nat q (length h mod unat C) = length h" "length h < unat (mp_read_pos q) + unat C"
proof -
  note d = ring_okD [OF ok]
  let ?w = "length h" and ?r = "unat (mp_read_pos q)" and ?s = "seq_nat q (length h mod unat C)"
  obtain p where p: "p mod unat C = ?w mod unat C"
    "slot_phase (unat C) ?w ?r h (all_writes pc) (all_reads pc) ?s (data_nth q (?w mod unat C)) p"
    using d(7) by blast
  have "Suc p \<noteq> ?w" using p(1) Suc_mod_neq [OF d(2), of p] by metis
  then have ph: "?s = p" "?w \<le> p" "p < ?r + unat C" using p(2) sq d(5) by (auto simp: slot_phase_def)
  have "p = ?w" by (rule window_mod_inj [OF p(1), of "?w + unat C"]) (use ph d(2,5) in auto)
  with ph show "?s = ?w" "?w < ?r + unat C" by auto
qed

lemma claim_read_slot:
  assumes ok: "ring_ok C q h pc" and sq: "Suc r \<le> seq_nat q (r mod unat C)" and r: "r = unat (mp_read_pos q)"
  shows "seq_nat q (r mod unat C) = Suc r" "data_nth q (r mod unat C) = h ! r" "r < length h"
proof -
  note d = ring_okD [OF ok, folded r]
  let ?w = "length h" and ?s = "seq_nat q (r mod unat C)"
  obtain p where p: "p mod unat C = r mod unat C"
    "slot_phase (unat C) ?w r h (all_writes pc) (all_reads pc) ?s (data_nth q (r mod unat C)) p"
    using d(7) by blast
  have "p = r" if "r \<le> p" "p < r + unat C"
    by (rule window_mod_inj [OF p(1), of "r + unat C"]) (use that d(2) in auto)
  then show "?s = Suc r" "data_nth q (r mod unat C) = h ! r" "r < ?w"
    using p(2) sq d(5,6) by (auto simp: slot_phase_def)
qed

text \<open>The phase of a slot that a thread owns.\<close>

lemma write_phase:
  assumes ok: "ring_ok C q h pc" and sq: "seq_nat q (k mod unat C) = k" and k: "k < length h"
  shows "unat (mp_read_pos q) \<le> k" "k \<in> all_writes pc"
proof -
  note d = ring_okD [OF ok]
  obtain p where p: "p mod unat C = k mod unat C" "slot_phase (unat C) (length h) (unat (mp_read_pos q)) h
      (all_writes pc) (all_reads pc) k (data_nth q (k mod unat C)) p"
    using d(7) [of k] sq by auto
  have "Suc p \<noteq> k" using p(1) Suc_mod_neq [OF d(2), of p] by metis
  with p(2) k show "unat (mp_read_pos q) \<le> k" "k \<in> all_writes pc" by (auto simp: slot_phase_def)
qed

lemma read_phase:
  assumes ok: "ring_ok C q h pc" and sq: "seq_nat q (k mod unat C) = Suc k" and k: "k < unat (mp_read_pos q)"
  shows "length h \<le> k + unat C" "data_nth q (k mod unat C) = h ! k"
proof -
  note d = ring_okD [OF ok]
  obtain p where p: "p mod unat C = k mod unat C" "slot_phase (unat C) (length h) (unat (mp_read_pos q)) h
      (all_writes pc) (all_reads pc) (Suc k) (data_nth q (k mod unat C)) p"
    using d(7) [of k] sq by auto
  have "Suc k \<noteq> p" using p(1) Suc_mod_neq [OF d(2), of k] by metis
  with p(2) k show "length h \<le> k + unat C" "data_nth q (k mod unat C) = h ! k" by (auto simp: slot_phase_def)
qed

section \<open>Effects of the steps on the ring\<close>

lemma set_sequence_at:
  assumes "valid_capacity C" "length (mp_slots q) = unat C" "i < unat C"
  shows "seq_nat (set_sequence C pos v q) i = (if i = unat pos mod unat C then unat v else seq_nat q i)"
    "data_nth (set_sequence C pos v q) i = data_nth q i"
  using assms by (simp_all add: seq_nat_def data_nth_def set_sequence_def slot_index_mod nth_list_update Let_def)

lemma set_data_at:
  assumes "valid_capacity C" "length (mp_slots q) = unat C" "i < unat C"
  shows "seq_nat (set_data C pos x q) i = seq_nat q i"
    "data_nth (set_data C pos x q) i = (if i = unat pos mod unat C then x else data_nth q i)"
  using assms by (simp_all add: seq_nat_def data_nth_def set_data_def slot_index_mod nth_list_update Let_def)

lemma set_keeps [simp]:
  "mp_write_pos (set_sequence C pos v q) = mp_write_pos q" "mp_read_pos (set_sequence C pos v q) = mp_read_pos q"
  "length (mp_slots (set_sequence C pos v q)) = length (mp_slots q)"
  "mp_write_pos (set_data C pos x q) = mp_write_pos q" "mp_read_pos (set_data C pos x q) = mp_read_pos q"
  "length (mp_slots (set_data C pos x q)) = length (mp_slots q)"
  by (simp_all add: set_sequence_def set_data_def Let_def)

lemma pos_keeps [simp]:
  "seq_nat (q\<lparr>mp_write_pos := v\<rparr>) i = seq_nat q i" "data_nth (q\<lparr>mp_write_pos := v\<rparr>) i = data_nth q i"
  "seq_nat (q\<lparr>mp_read_pos := v\<rparr>) i = seq_nat q i" "data_nth (q\<lparr>mp_read_pos := v\<rparr>) i = data_nth q i"
  by (simp_all add: seq_nat_def data_nth_def)

text \<open>A ring stays well formed when every slot does.\<close>

lemma ring_okI:
  assumes "ring_ok C q h pc" "length (mp_slots q') = unat C" "unat (mp_write_pos q') = length h'"
    "unat (mp_read_pos q') \<le> length h'" "length h' \<le> unat (mp_read_pos q') + unat C"
    and "\<And>i p. i < unat C \<Longrightarrow> p mod unat C = i \<Longrightarrow>
      slot_phase (unat C) (length h) (unat (mp_read_pos q)) h (all_writes pc) (all_reads pc) (seq_nat q i) (data_nth q i) p \<Longrightarrow>
      \<exists>p'. p' mod unat C = i \<and> slot_phase (unat C) (length h') (unat (mp_read_pos q')) h' (all_writes pc') (all_reads pc')
        (seq_nat q' i) (data_nth q' i) p'"
  shows "ring_ok C q' h' pc'"
  using assms unfolding ring_ok_def by meson

lemma all_upd:
  "all_writes (pc(t := x)) = writes x \<union> (\<Union>u\<in>- {t}. writes (pc u))"
  "all_reads (pc(t := x)) = reads x \<union> (\<Union>u\<in>- {t}. reads (pc u))"
  by (auto simp: all_writes_def all_reads_def split: if_splits)

lemma all_upd_same:
  "writes x = writes (pc t) \<Longrightarrow> all_writes (pc(t := x)) = all_writes pc"
  "reads x = reads (pc t) \<Longrightarrow> all_reads (pc(t := x)) = all_reads pc"
  by (auto simp: all_writes_def all_reads_def split: if_splits)

lemma all_split:
  "all_writes pc = writes (pc t) \<union> (\<Union>u\<in>- {t}. writes (pc u))"
  "all_reads pc = reads (pc t) \<union> (\<Union>u\<in>- {t}. reads (pc u))"
  by (auto simp: all_writes_def all_reads_def)

lemma all_upd_fresh:
  "writes (pc t) = {} \<Longrightarrow> all_writes (pc(t := x)) = writes x \<union> all_writes pc"
  "reads (pc t) = {} \<Longrightarrow> all_reads (pc(t := x)) = reads x \<union> all_reads pc"
  by (simp_all add: all_upd all_split [of pc t])

lemma all_upd_other:
  "p \<in> all_writes pc \<Longrightarrow> p \<notin> writes (pc t) \<Longrightarrow> p \<in> all_writes (pc(t := x))"
  "p \<in> all_reads pc \<Longrightarrow> p \<notin> reads (pc t) \<Longrightarrow> p \<in> all_reads (pc(t := x))"
  by (simp_all add: all_upd all_split [of pc t])

text \<open>How the two claims move the phase of a slot.\<close>

lemma phase_claim_write:
  assumes ph: "slot_phase n (length h) r h wrs rds sq d p" and n: "2 \<le> n" "r \<le> length h"
    and at: "p mod n = length h mod n \<Longrightarrow> sq = length h"
  shows "slot_phase n (Suc (length h)) r (h @ [x]) (insert (length h) wrs) rds sq d p"
proof (cases "p mod n = length h mod n")
  case True
  have "Suc p \<noteq> length h" using True Suc_mod_neq [OF n(1), of p] by metis
  then show ?thesis using ph at [OF True] n(2) by (auto simp: slot_phase_def)
next
  case False
  then have "p \<noteq> length h" "p + n \<noteq> length h" by (auto, metis mod_add_self2)
  then show ?thesis using ph n(2) by (auto simp: slot_phase_def nth_append)
qed

lemma phase_claim_read:
  assumes ph: "slot_phase n w r h wrs rds sq d p" and n: "2 \<le> n" "w \<le> r + n"
    and at: "p mod n = r mod n \<Longrightarrow> sq = Suc r"
  shows "slot_phase n w (Suc r) h wrs (insert r rds) sq d p"
proof (cases "p mod n = r mod n")
  case True
  have "p \<noteq> Suc r" using True Suc_mod_neq [OF n(1), of r] by metis
  then show ?thesis using ph at [OF True] n(2) by (auto simp: slot_phase_def)
next
  case False
  then have "p \<noteq> r" by auto
  then show ?thesis using ph by (auto simp: slot_phase_def)
qed

lemma phase_sets:
  assumes "slot_phase n w r h wrs rds sq d p" "p \<in> wrs \<Longrightarrow> p \<in> wrs'" "p \<in> rds \<Longrightarrow> p \<in> rds'"
  shows "slot_phase n w r h wrs' rds' sq d p"
  using assms by (auto simp: slot_phase_def)

section \<open>Preservation\<close>

lemma mpmc_sys_invD:
  assumes "mpmc_sys_inv C s"
  shows "ring_ok C (mc_ring s) (mc_hist s) (mc_pc s)"
    "pc_fits (unat C) (mc_ring s) (mc_hist s) (mc_pc s t)"
    "ledger (length (mc_hist s)) (mc_hist s) (mc_put s) (\<lambda>t. writes (mc_pc s t))"
    "ledger (unat (mp_read_pos (mc_ring s))) (mc_hist s) (mc_got s) (\<lambda>t. reads (mc_pc s t))"
  using assms by (simp_all add: mpmc_sys_inv_def)

text \<open>A thread keeps fitting while the others only move sequence numbers of slots it does not own.\<close>

lemma pc_fits_mono:
  assumes "pc_fits n q h pc" "\<And>i. i < n \<Longrightarrow> seq_nat q i \<le> seq_nat q' i"
    "unat (mp_read_pos q) \<le> unat (mp_read_pos q')" "0 < n"
    "\<And>p. p \<in> writes pc \<union> reads pc \<Longrightarrow> seq_nat q' (p mod n) = seq_nat q (p mod n) \<and> data_nth q' (p mod n) = data_nth q (p mod n)"
    "unat (mp_read_pos q) \<le> length h"
  shows "pc_fits n q' (h @ hs) pc"
proof -
  have "seq_nat q (k mod n) \<le> seq_nat q' (k mod n)" for k using assms(2) [of "k mod n"] assms(4) by simp
  then show ?thesis
    using assms(1,3,5,6) by (cases pc) (auto simp: nth_append intro: order_trans)
qed

text \<open>Two threads never own the same slot.\<close>

lemma owners_apart:
  assumes inv: "mpmc_sys_inv C s" and "t \<noteq> u"
    and t: "k \<in> writes (mc_pc s t) \<union> reads (mc_pc s t)" and u: "p \<in> writes (mc_pc s u) \<union> reads (mc_pc s u)"
  shows "p mod unat C \<noteq> k mod unat C"
proof
  assume eq: "p mod unat C = k mod unat C"
  note d = mpmc_sys_invD [OF inv] and C = ring_okD(2) [OF mpmc_sys_invD(1) [OF inv]]
  have fit: "(k \<in> writes (mc_pc s v) \<longrightarrow> seq_nat (mc_ring s) (k mod unat C) = k) \<and>
      (k \<in> reads (mc_pc s v) \<longrightarrow> seq_nat (mc_ring s) (k mod unat C) = Suc k)" for k v
    using d(2) [of v] by (cases "mc_pc s v") auto
  have "\<not> (k \<in> writes (mc_pc s t) \<and> p \<in> writes (mc_pc s u))" "\<not> (k \<in> reads (mc_pc s t) \<and> p \<in> reads (mc_pc s u))"
    using fit [of k t] fit [of p u] eq ledger_busy_unique [OF d(3), of k t u] ledger_busy_unique [OF d(4), of k t u] assms(2)
    by auto
  moreover have "Suc k \<noteq> p" "Suc p \<noteq> k" using Suc_mod_neq [OF C] eq by metis+
  ultimately show False using t u fit [of k t] fit [of p u] eq by auto
qed

text \<open>Steps that move only the program counter.\<close>

lemma pc_step_inv:
  assumes inv: "mpmc_sys_inv C s" and "writes x = writes (mc_pc s t)" "reads x = reads (mc_pc s t)"
    and "pc_fits (unat C) (mc_ring s) (mc_hist s) x"
  shows "mpmc_sys_inv C (s\<lparr>mc_pc := (mc_pc s)(t := x)\<rparr>)"
proof -
  have "writes (((mc_pc s)(t := x)) u) = writes (mc_pc s u)" "reads (((mc_pc s)(t := x)) u) = reads (mc_pc s u)" for u
    using assms(2,3) by simp_all
  then show ?thesis
    using inv assms(4) all_upd_same [of x "mc_pc s" t] assms(2,3)
    by (simp add: mpmc_sys_inv_def ring_ok_def)
qed

lemma busy_upd:
  "(\<lambda>u. writes (((pc :: nat \<Rightarrow> 'a mpmc_pc)(t := x)) u)) = (\<lambda>u. writes (pc u))(t := writes x)"
  "(\<lambda>u. reads ((pc(t := x)) u)) = (\<lambda>u. reads (pc u))(t := reads x)"
  by (intro ext; simp)+

lemma push_claim_inv:
  assumes inv: "mpmc_sys_inv C s" and pc: "mc_pc s t = Push_Seq x pos seq" and df: "seq_diff seq pos = 0"
    and w: "mp_write_pos (mc_ring s) = pos" and n: "Suc (length (mc_hist s)) + unat C < 2 ^ 63"
  shows "mpmc_sys_inv C (s\<lparr>mc_ring := (mc_ring s)\<lparr>mp_write_pos := pos + 1\<rparr>, mc_pc := (mc_pc s)(t := Push_Copy x pos),
      mc_hist := mc_hist s @ [x]\<rparr>)"
proof -
  note d = mpmc_sys_invD(1,3,4) [OF inv] and f = mpmc_sys_invD(2) [OF inv]
  note o = ring_okD [OF d(1)]
  let ?q = "mc_ring s" and ?h = "mc_hist s"
  have pos: "unat pos = length ?h" using o(4) w by simp
  have "sint seq = sint pos" using df by (simp add: seq_diff_def)
  then have sq: "seq = pos" by (rule signed_word_eqI)
  note cs = claim_write_slot [OF d(1)]
  have free: "seq_nat ?q (length ?h mod unat C) = length ?h" "length ?h < unat (mp_read_pos ?q) + unat C"
    using cs f [of t] pc pos sq by auto
  have p1: "unat (pos + 1) = Suc (length ?h)" using unat_suc_u64 [of pos] pos n by simp
  have aw: "all_writes ((mc_pc s)(t := Push_Copy x pos)) = insert (length ?h) (all_writes (mc_pc s))"
    using pc pos by (simp add: all_upd_fresh)
  have ar: "all_reads ((mc_pc s)(t := Push_Copy x pos)) = all_reads (mc_pc s)" using pc by (intro all_upd_same) simp
  have "ring_ok C (?q\<lparr>mp_write_pos := pos + 1\<rparr>) (?h @ [x]) ((mc_pc s)(t := Push_Copy x pos))"
  proof (rule ring_okI [OF d(1)])
    fix i p assume i: "i < unat C" "p mod unat C = i"
      and ph: "slot_phase (unat C) (length ?h) (unat (mp_read_pos ?q)) ?h (all_writes (mc_pc s)) (all_reads (mc_pc s)) (seq_nat ?q i) (data_nth ?q i) p"
    have "slot_phase (unat C) (Suc (length ?h)) (unat (mp_read_pos ?q)) (?h @ [x]) (insert (length ?h) (all_writes (mc_pc s)))
        (all_reads (mc_pc s)) (seq_nat ?q i) (data_nth ?q i) p"
      by (rule phase_claim_write [OF ph o(2,5)]) (use free i in simp)
    with i show "\<exists>p'. p' mod unat C = i \<and> slot_phase (unat C) (length (?h @ [x])) (unat (mp_read_pos (?q\<lparr>mp_write_pos := pos + 1\<rparr>))) (?h @ [x])
        (all_writes ((mc_pc s)(t := Push_Copy x pos))) (all_reads ((mc_pc s)(t := Push_Copy x pos)))
        (seq_nat (?q\<lparr>mp_write_pos := pos + 1\<rparr>) i) (data_nth (?q\<lparr>mp_write_pos := pos + 1\<rparr>) i) p'"
      by (auto simp: aw ar)
  qed (use o free p1 in simp_all)
  moreover have "pc_fits (unat C) (?q\<lparr>mp_write_pos := pos + 1\<rparr>) (?h @ [x]) (((mc_pc s)(t := Push_Copy x pos)) u)" for u
  proof (cases "u = t")
    case True then show ?thesis using free pos by simp
  next
    case False
    then show ?thesis using pc_fits_mono [OF f [of u], of "?q\<lparr>mp_write_pos := pos + 1\<rparr>" "[x]"] o(2,5) by simp
  qed
  moreover have "ledger (length (?h @ [x])) (?h @ [x]) (mc_put s) (\<lambda>u. writes (((mc_pc s)(t := Push_Copy x pos)) u))"
    unfolding busy_upd using ledger_claim [OF ledger_append [OF d(2), of "[x]"], of t] pc pos by simp
  moreover have "ledger (unat (mp_read_pos ?q)) (?h @ [x]) (mc_got s) (\<lambda>u. reads (((mc_pc s)(t := Push_Copy x pos)) u))"
    unfolding busy_upd using ledger_append [OF d(3), of "[x]"] o(5) pc by (simp add: fun_upd_idem)
  ultimately show ?thesis by (simp add: mpmc_sys_inv_def)
qed

lemma push_copy_inv:
  assumes inv: "mpmc_sys_inv C s" and pc: "mc_pc s t = Push_Copy x pos"
  shows "mpmc_sys_inv C (s\<lparr>mc_ring := set_data C pos x (mc_ring s), mc_pc := (mc_pc s)(t := Push_Publish pos)\<rparr>)"
proof -
  note d = mpmc_sys_invD(1,3,4) [OF inv] and f = mpmc_sys_invD(2) [OF inv]
  note o = ring_okD [OF d(1)]
  let ?q = "mc_ring s" and ?h = "mc_hist s" and ?pc = "(mc_pc s)(t := Push_Publish pos)"
  let ?q' = "set_data C pos x ?q" and ?i = "unat pos mod unat C"
  note at = set_data_at [OF o(1,3)]
  have fit: "unat pos < length ?h" "seq_nat ?q ?i = unat pos" "?h ! unat pos = x" using f [of t] pc by simp_all
  have lt: "?i < unat C" using o(2) by simp
  have same: "all_writes ?pc = all_writes (mc_pc s)" "all_reads ?pc = all_reads (mc_pc s)"
    using pc by (simp_all add: all_upd_same)
  have "ring_ok C ?q' ?h ?pc"
  proof (rule ring_okI [OF d(1)])
    fix i p assume i: "i < unat C" "p mod unat C = i"
      and ph: "slot_phase (unat C) (length ?h) (unat (mp_read_pos ?q)) ?h (all_writes (mc_pc s)) (all_reads (mc_pc s)) (seq_nat ?q i) (data_nth ?q i) p"
    have "Suc p \<noteq> unat pos" if "i = ?i" using i that Suc_mod_neq [OF o(2), of p] by metis
    then have "slot_phase (unat C) (length ?h) (unat (mp_read_pos ?q)) ?h (all_writes (mc_pc s)) (all_reads (mc_pc s))
        (seq_nat ?q' i) (data_nth ?q' i) p"
      using ph fit(2) at [OF i(1), of pos x] by (cases "i = ?i") (auto simp: slot_phase_def)
    with i show "\<exists>p'. p' mod unat C = i \<and> slot_phase (unat C) (length ?h) (unat (mp_read_pos ?q')) ?h (all_writes ?pc) (all_reads ?pc)
        (seq_nat ?q' i) (data_nth ?q' i) p'"
      by (auto simp: same)
  qed (use o in simp_all)
  moreover have "pc_fits (unat C) ?q' ?h (?pc u)" for u
  proof (cases "u = t")
    case True then show ?thesis using fit at [OF lt] by simp
  next
    case False
    have "seq_nat ?q' (p mod unat C) = seq_nat ?q (p mod unat C) \<and> data_nth ?q' (p mod unat C) = data_nth ?q (p mod unat C)"
      if "p \<in> writes (mc_pc s u) \<union> reads (mc_pc s u)" for p
      using owners_apart [OF inv False [symmetric], of "unat pos" p] that pc at [of "p mod unat C"] o(2) by simp
    then show ?thesis
      using pc_fits_mono [OF f [of u], of ?q' "[]"] False at o(2,5) by simp
  qed
  moreover have "ledger (length ?h) ?h (mc_put s) (\<lambda>u. writes (?pc u))" "ledger (unat (mp_read_pos ?q')) ?h (mc_got s) (\<lambda>u. reads (?pc u))"
    unfolding busy_upd using d(2,3) pc by (simp_all add: fun_upd_idem)
  ultimately show ?thesis by (simp add: mpmc_sys_inv_def)
qed

lemma push_publish_inv:
  assumes inv: "mpmc_sys_inv C s" and pc: "mc_pc s t = Push_Publish pos" and n: "length (mc_hist s) + unat C < 2 ^ 63"
  shows "mpmc_sys_inv C (s\<lparr>mc_ring := set_sequence C pos (pos + 1) (mc_ring s), mc_pc := (mc_pc s)(t := M_Idle),
      mc_put := (mc_put s)(t := mc_put s t @ [(unat pos, mc_hist s ! unat pos)])\<rparr>)"
proof -
  note d = mpmc_sys_invD(1,3,4) [OF inv] and f = mpmc_sys_invD(2) [OF inv]
  note o = ring_okD [OF d(1)]
  let ?q = "mc_ring s" and ?h = "mc_hist s" and ?pc = "(mc_pc s)(t := M_Idle)"
  let ?q' = "set_sequence C pos (pos + 1) ?q" and ?i = "unat pos mod unat C"
  note at = set_sequence_at [OF o(1,3)]
  have fit: "unat pos < length ?h" "seq_nat ?q ?i = unat pos" "data_nth ?q ?i = ?h ! unat pos" using f [of t] pc by simp_all
  have p1: "unat (pos + 1) = Suc (unat pos)" using unat_suc_u64 [of pos] fit(1) n by simp
  note own = write_phase [OF d(1) fit(2,1)]
  have "ring_ok C ?q' ?h ?pc"
  proof (rule ring_okI [OF d(1)])
    fix i p assume i: "i < unat C" "p mod unat C = i"
      and ph: "slot_phase (unat C) (length ?h) (unat (mp_read_pos ?q)) ?h (all_writes (mc_pc s)) (all_reads (mc_pc s)) (seq_nat ?q i) (data_nth ?q i) p"
    have rd: "all_reads ?pc = all_reads (mc_pc s)" using pc by (simp add: all_upd_same)
    show "\<exists>p'. p' mod unat C = i \<and> slot_phase (unat C) (length ?h) (unat (mp_read_pos ?q')) ?h (all_writes ?pc) (all_reads ?pc)
        (seq_nat ?q' i) (data_nth ?q' i) p'"
    proof (cases "i = ?i")
      case True
      then show ?thesis
        using fit own p1 at [OF i(1), of pos "pos + 1"] by (intro exI [of _ "unat pos"]) (simp add: slot_phase_def)
    next
      case False
      then have "p \<noteq> unat pos" using i by auto
      then have "p \<in> all_writes (mc_pc s) \<Longrightarrow> p \<in> all_writes ?pc" using pc by (intro all_upd_other) auto
      from phase_sets [OF ph this, of "all_reads ?pc"] rd False i at [OF i(1), of pos "pos + 1"] show ?thesis by auto
    qed
  qed (use o in simp_all)
  moreover have "pc_fits (unat C) ?q' ?h (?pc u)" for u
  proof (cases "u = t")
    case False
    have "seq_nat ?q' (p mod unat C) = seq_nat ?q (p mod unat C) \<and> data_nth ?q' (p mod unat C) = data_nth ?q (p mod unat C)"
      if "p \<in> writes (mc_pc s u) \<union> reads (mc_pc s u)" for p
      using owners_apart [OF inv False [symmetric], of "unat pos" p] that pc at [of "p mod unat C"] o(2) by simp
    then show ?thesis
      using pc_fits_mono [OF f [of u], of ?q' "[]"] False at fit(2) p1 o(2,5) by simp
  qed simp
  moreover have "ledger (length ?h) ?h ((mc_put s)(t := mc_put s t @ [(unat pos, ?h ! unat pos)])) (\<lambda>u. writes (?pc u))"
    unfolding busy_upd using ledger_finish [OF d(2), of t "unat pos"] pc by simp
  moreover have "ledger (unat (mp_read_pos ?q')) ?h (mc_got s) (\<lambda>u. reads (?pc u))"
    unfolding busy_upd using d(3) pc by (simp add: fun_upd_idem)
  ultimately show ?thesis by (simp add: mpmc_sys_inv_def)
qed

lemma pop_claim_inv:
  assumes inv: "mpmc_sys_inv C s" and pc: "mc_pc s t = Pop_Seq pos seq" and df: "seq_diff seq (pos + 1) = 0"
    and r: "mp_read_pos (mc_ring s) = pos" and n: "length (mc_hist s) + unat C < 2 ^ 63"
  shows "mpmc_sys_inv C (s\<lparr>mc_ring := (mc_ring s)\<lparr>mp_read_pos := pos + 1\<rparr>, mc_pc := (mc_pc s)(t := Pop_Copy pos)\<rparr>)"
proof -
  note d = mpmc_sys_invD(1,3,4) [OF inv] and f = mpmc_sys_invD(2) [OF inv]
  note o = ring_okD [OF d(1)]
  let ?q = "mc_ring s" and ?h = "mc_hist s" and ?pc = "(mc_pc s)(t := Pop_Copy pos)"
  let ?q' = "?q\<lparr>mp_read_pos := pos + 1\<rparr>"
  have p1: "unat (pos + 1) = Suc (unat pos)" using unat_suc_u64 [of pos] o(5) r n by simp
  have "sint seq = sint (pos + 1)" using df by (simp add: seq_diff_def)
  then have sq: "seq = pos + 1" by (rule signed_word_eqI)
  have "Suc (unat pos) \<le> seq_nat ?q (unat pos mod unat C)" using f [of t] pc sq p1 by simp
  note ready = claim_read_slot [OF d(1) this, unfolded r, OF refl]
  have ar: "all_reads ?pc = insert (unat pos) (all_reads (mc_pc s))" "all_writes ?pc = all_writes (mc_pc s)"
    using pc by (simp_all add: all_upd_fresh)
  have "ring_ok C ?q' ?h ?pc"
  proof (rule ring_okI [OF d(1)])
    fix i p assume i: "i < unat C" "p mod unat C = i"
      and ph: "slot_phase (unat C) (length ?h) (unat (mp_read_pos ?q)) ?h (all_writes (mc_pc s)) (all_reads (mc_pc s)) (seq_nat ?q i) (data_nth ?q i) p"
    have "slot_phase (unat C) (length ?h) (Suc (unat pos)) ?h (all_writes (mc_pc s)) (insert (unat pos) (all_reads (mc_pc s)))
        (seq_nat ?q i) (data_nth ?q i) p"
      by (rule phase_claim_read [OF ph [unfolded r] o(2,6) [unfolded r]]) (use ready i in simp)
    with i show "\<exists>p'. p' mod unat C = i \<and> slot_phase (unat C) (length ?h) (unat (mp_read_pos ?q')) ?h (all_writes ?pc) (all_reads ?pc)
        (seq_nat ?q' i) (data_nth ?q' i) p'"
      by (auto simp: ar p1)
  qed (use o r ready p1 in simp_all)
  moreover have "pc_fits (unat C) ?q' ?h (?pc u)" for u
  proof (cases "u = t")
    case True then show ?thesis using ready p1 by simp
  next
    case False
    then show ?thesis using pc_fits_mono [OF f [of u], of ?q' "[]"] o(2,5) r p1 by simp
  qed
  moreover have "ledger (length ?h) ?h (mc_put s) (\<lambda>u. writes (?pc u))"
    unfolding busy_upd using d(2) pc by (simp add: fun_upd_idem)
  moreover have "ledger (unat (pos + 1)) ?h (mc_got s) (\<lambda>u. reads (?pc u))"
    unfolding busy_upd using ledger_claim [OF d(3), of t] pc r p1 by simp
  ultimately show ?thesis by (simp add: mpmc_sys_inv_def)
qed

lemma pop_free_inv:
  assumes inv: "mpmc_sys_inv C s" and pc: "mc_pc s t = Pop_Free pos out" and n: "length (mc_hist s) + unat C < 2 ^ 63"
  shows "mpmc_sys_inv C (s\<lparr>mc_ring := set_sequence C pos (pos + C) (mc_ring s), mc_pc := (mc_pc s)(t := M_Idle),
      mc_got := (mc_got s)(t := mc_got s t @ [(unat pos, out)])\<rparr>)"
proof -
  note d = mpmc_sys_invD(1,3,4) [OF inv] and f = mpmc_sys_invD(2) [OF inv]
  note o = ring_okD [OF d(1)]
  let ?q = "mc_ring s" and ?h = "mc_hist s" and ?pc = "(mc_pc s)(t := M_Idle)"
  let ?q' = "set_sequence C pos (pos + C) ?q" and ?i = "unat pos mod unat C"
  note at = set_sequence_at [OF o(1,3)]
  have fit: "unat pos < unat (mp_read_pos ?q)" "seq_nat ?q ?i = Suc (unat pos)" "out = ?h ! unat pos" using f [of t] pc by simp_all
  have pC: "unat (pos + C) = unat pos + unat C" using fit(1) o(5) n by (intro unat_add_lt) simp
  note own = read_phase [OF d(1) fit(2,1)]
  have "ring_ok C ?q' ?h ?pc"
  proof (rule ring_okI [OF d(1)])
    fix i p assume i: "i < unat C" "p mod unat C = i"
      and ph: "slot_phase (unat C) (length ?h) (unat (mp_read_pos ?q)) ?h (all_writes (mc_pc s)) (all_reads (mc_pc s)) (seq_nat ?q i) (data_nth ?q i) p"
    have wr: "all_writes ?pc = all_writes (mc_pc s)" using pc by (simp add: all_upd_same)
    show "\<exists>p'. p' mod unat C = i \<and> slot_phase (unat C) (length ?h) (unat (mp_read_pos ?q')) ?h (all_writes ?pc) (all_reads ?pc)
        (seq_nat ?q' i) (data_nth ?q' i) p'"
    proof (cases "i = ?i")
      case True
      then show ?thesis
        using fit(1) own pC at [OF i(1), of pos "pos + C"] by (intro exI [of _ "unat pos + unat C"]) (simp add: slot_phase_def)
    next
      case False
      then have "p \<noteq> unat pos" using i by auto
      then have "p \<in> all_reads (mc_pc s) \<Longrightarrow> p \<in> all_reads ?pc" using pc by (intro all_upd_other) auto
      from phase_sets [OF ph _ this, of "all_writes ?pc"] wr False i at [OF i(1), of pos "pos + C"] show ?thesis by auto
    qed
  qed (use o in simp_all)
  moreover have "pc_fits (unat C) ?q' ?h (?pc u)" for u
  proof (cases "u = t")
    case False
    have "seq_nat ?q' (p mod unat C) = seq_nat ?q (p mod unat C) \<and> data_nth ?q' (p mod unat C) = data_nth ?q (p mod unat C)"
      if "p \<in> writes (mc_pc s u) \<union> reads (mc_pc s u)" for p
      using owners_apart [OF inv False [symmetric], of "unat pos" p] that pc at [of "p mod unat C"] o(2) by simp
    then show ?thesis
      using pc_fits_mono [OF f [of u], of ?q' "[]"] False at fit(2) pC o(2,5) by simp
  qed simp
  moreover have "ledger (length ?h) ?h (mc_put s) (\<lambda>u. writes (?pc u))"
    unfolding busy_upd using d(2) pc by (simp add: fun_upd_idem)
  moreover have "ledger (unat (mp_read_pos ?q')) ?h ((mc_got s)(t := mc_got s t @ [(unat pos, out)])) (\<lambda>u. reads (?pc u))"
    unfolding busy_upd using ledger_finish [OF d(3), of t "unat pos"] pc fit(3) by simp
  ultimately show ?thesis by (simp add: mpmc_sys_inv_def)
qed

lemma slot_sequence_nat:
  "valid_capacity C \<Longrightarrow> unat (slot_sequence C pos q) = seq_nat q (unat pos mod unat C)"
  by (simp add: slot_sequence_def seq_nat_def slot_index_mod)

lemma mpmc_step_inv:
  assumes step: "mpmc_step C s s'" and inv: "mpmc_sys_inv C s" and n: "length (mc_hist s') + unat C < 2 ^ 63"
  shows "mpmc_sys_inv C s'"
  using step
proof (cases rule: mpmc_step.cases)
  case (pop_copy t pos)
  note f = mpmc_sys_invD(2) [OF inv, of t] and o = ring_okD(1) [OF mpmc_sys_invD(1) [OF inv]]
  have "data_nth (mc_ring s) (unat pos mod unat C) = mc_hist s ! unat pos"
    using read_phase(2) [OF mpmc_sys_invD(1) [OF inv], of "unat pos"] f pop_copy by simp
  then show ?thesis
    unfolding pop_copy(1) using f pop_copy(2) o
    by (intro pc_step_inv [OF inv]) (simp_all add: data_nth_def slot_index_mod)
next
  case (push_seq t x pos)
  show ?thesis
    unfolding push_seq(1) using mpmc_sys_invD(2) [OF inv, of t] push_seq(2) ring_okD(1) [OF mpmc_sys_invD(1) [OF inv]]
    by (intro pc_step_inv [OF inv]) (simp_all add: slot_sequence_nat)
next
  case (pop_seq t pos)
  show ?thesis
    unfolding pop_seq(1) using mpmc_sys_invD(2) [OF inv, of t] pop_seq(2) ring_okD(1) [OF mpmc_sys_invD(1) [OF inv]]
    by (intro pc_step_inv [OF inv]) (simp_all add: slot_sequence_nat)
qed (use inv n ring_okD(1,4,5) [OF mpmc_sys_invD(1) [OF inv]] mpmc_sys_invD(2) [OF inv] in
  \<open>simp_all add: push_claim_inv push_copy_inv push_publish_inv pop_claim_inv pop_free_inv pc_step_inv slot_sequence_nat\<close>)

lemma mpmc_init_inv:
  assumes "mpmc_sys_init C s"
  shows "mpmc_sys_inv C s"
proof -
  from assms obtain z where z: "mc_ring s = MpmcRingBuffer_ctor C z" "valid_capacity C"
    by (auto simp: mpmc_sys_init_def)
  have seq: "seq_nat (MpmcRingBuffer_ctor C z) i = i" if "i < unat C" for i
    using that unat_u64_less [of C] by (simp add: seq_nat_def MpmcRingBuffer_ctor_def unat_of_nat_u64)
  have pos: "mp_read_pos (MpmcRingBuffer_ctor C z) = 0" "mp_write_pos (MpmcRingBuffer_ctor C z) = 0"
    "length (mp_slots (MpmcRingBuffer_ctor C z)) = unat C"
    by (simp_all add: MpmcRingBuffer_ctor_def)
  have "\<exists>p. p mod unat C = i \<and> slot_phase (unat C) 0 0 [] (all_writes (mc_pc s)) (all_reads (mc_pc s))
      (seq_nat (MpmcRingBuffer_ctor C z) i) (data_nth (MpmcRingBuffer_ctor C z) i) p" if "i < unat C" for i
    using that seq [OF that] by (intro exI [of _ i]) (simp add: slot_phase_def)
  then have "ring_ok C (MpmcRingBuffer_ctor C z) [] (mc_pc s)"
    using z(2) pos by (simp add: ring_ok_def)
  with pos show ?thesis
    using assms z by (simp add: mpmc_sys_inv_def mpmc_sys_init_def ledger_empty)
qed

lemma mpmc_step_hist: "mpmc_step C s s' \<Longrightarrow> length (mc_hist s) \<le> length (mc_hist s')"
  by (induction rule: mpmc_step.induct) simp_all

interpretation mpmc_run: bounded_invariant_system
  "mpmc_sys_init C" "mpmc_step C" "mpmc_sys_inv C" "\<lambda>s. length (mc_hist s) + unat C" "2 ^ 63"
  for C
proof (unfold_locales, goal_cases)
  case (1 s) then show ?case by (rule mpmc_init_inv)
next
  case (2 s t) then show ?case using mpmc_step_hist by auto
next
  case (3 s t) then show ?case by (rule mpmc_step_inv)
qed

section \<open>Properties\<close>

text \<open>
  C2. Nothing is lost, duplicated or reordered. In every reachable state, whatever the
  interleaving: every completed \<open>pop\<close> returned the item that the push of its position stored;
  each thread's pops are at ascending positions; no position is popped twice, by the same or by
  different threads; and every position below the read position has been popped or is being
  popped by some thread. The bound keeps the counters away from the sign bit.
\<close>

theorem mpmc_concurrent_fifo:
  assumes "reachable (mpmc_sys_init C) (mpmc_step C) s" "length (mc_hist s) + unat C < 2 ^ 63"
  shows "(\<forall>t. \<exists>ps. sorted_wrt (<) ps \<and> set ps \<subseteq> {..<length (mc_hist s)} \<and>
      mc_got s t = map (\<lambda>p. (p, mc_hist s ! p)) ps) \<and>
    (\<forall>t u. t \<noteq> u \<longrightarrow> fst ` set (mc_got s t) \<inter> fst ` set (mc_got s u) = {}) \<and>
    (\<Union>t. fst ` set (mc_got s t) \<union> reads (mc_pc s t)) = {..<unat (mp_read_pos (mc_ring s))}"
proof (intro conjI allI impI)
  have inv: "mpmc_sys_inv C s" by (rule mpmc_run.reachable_below_inv [OF assms])
  note L = mpmc_sys_invD(4) [OF inv] and o = ring_okD(5) [OF mpmc_sys_invD(1) [OF inv]]
  show "(\<Union>t. fst ` set (mc_got s t) \<union> reads (mc_pc s t)) = {..<unat (mp_read_pos (mc_ring s))}"
    using ledgerD(3) [OF L] by (simp add: owned_by_def)
  show "fst ` set (mc_got s t) \<inter> fst ` set (mc_got s u) = {}" if "t \<noteq> u" for t u
    using ledgerD(2) [OF L that] by (auto simp: owned_by_def)
  fix t
  obtain ps where ps: "sorted_wrt (<) ps" "mc_got s t = map (\<lambda>p. (p, mc_hist s ! p)) ps" using ledgerD(1) [OF L] by blast
  have "set ps \<subseteq> owned_by (mc_got s) (\<lambda>t. reads (mc_pc s t)) t" using ps(2) by (force simp: owned_by_def)
  then have "set ps \<subseteq> {..<length (mc_hist s)}" using ledger_below [OF L, of t] o by force
  with ps show "\<exists>ps. sorted_wrt (<) ps \<and> set ps \<subseteq> {..<length (mc_hist s)} \<and> mc_got s t = map (\<lambda>p. (p, mc_hist s ! p)) ps"
    by blast
qed

text \<open>
  A thread that copies into or out of a slot has the slot for itself: two threads are never
  inside the critical part (from the claim of a position to the store of the sequence number) of
  the same slot.
\<close>

theorem mpmc_slot_exclusive:
  assumes "reachable (mpmc_sys_init C) (mpmc_step C) s" "length (mc_hist s) + unat C < 2 ^ 63" "t \<noteq> u"
    "p \<in> writes (mc_pc s t) \<union> reads (mc_pc s t)" "k \<in> writes (mc_pc s u) \<union> reads (mc_pc s u)"
  shows "p mod unat C \<noteq> k mod unat C"
  using owners_apart [OF mpmc_run.reachable_below_inv [OF assms(1,2)], of t u p k] assms(3-5) by metis

text \<open>
  C25. What \<open>false\<close> means. When a thread is about to load a sequence number that will make its \<open>push\<close>
  return \<open>false\<close>, then at that moment the ring holds \<open>Capacity\<close> items, or the oldest slot is still
  being read by a \<open>pop\<close> that has claimed it. When it will make its \<open>pop\<close> return \<open>false\<close>, the ring is
  empty, or the next item is still being written by a \<open>push\<close> that has claimed its position.
\<close>

theorem mpmc_false_results:
  assumes "reachable (mpmc_sys_init C) (mpmc_step C) s" "length (mc_hist s) + unat C < 2 ^ 63"
  shows "(mc_pc s t = Push_Pos x pos \<and> seq_diff (slot_sequence C pos (mc_ring s)) pos < 0 \<longrightarrow>
      length (mc_hist s) = unat (mp_read_pos (mc_ring s)) + unat C \<or>
      (\<exists>u. length (mc_hist s) - unat C \<in> reads (mc_pc s u))) \<and>
    (mc_pc s t = Pop_Pos pos \<and> seq_diff (slot_sequence C pos (mc_ring s)) (pos + 1) < 0 \<longrightarrow>
      unat (mp_read_pos (mc_ring s)) = length (mc_hist s) \<or>
      (\<exists>u. unat (mp_read_pos (mc_ring s)) \<in> writes (mc_pc s u)))"
proof (intro conjI impI)
  have inv: "mpmc_sys_inv C s" by (rule mpmc_run.reachable_below_inv [OF assms])
  note o = ring_okD [OF mpmc_sys_invD(1) [OF inv]] and f = mpmc_sys_invD(2) [OF inv, of t]
  let ?q = "mc_ring s" and ?w = "length (mc_hist s)"
  let ?r = "unat (mp_read_pos ?q)" and ?i = "unat pos mod unat C"
  obtain p where p: "p mod unat C = ?i" "slot_phase (unat C) ?w ?r (mc_hist s) (all_writes (mc_pc s)) (all_reads (mc_pc s))
      (seq_nat ?q ?i) (data_nth ?q ?i) p"
    using o(7) by blast
  have sb: "unat (slot_sequence C pos ?q) = seq_nat ?q ?i" by (rule slot_sequence_nat [OF o(1)])
  have small: "seq_nat ?q ?i < 2 ^ 63" using p(2) o(5) assms(2) by (auto simp: slot_phase_def)
  have lap: "p + unat C \<le> unat pos" if "p < unat pos"
  proof (rule ccontr)
    assume "\<not> p + unat C \<le> unat pos"
    then have "p = unat pos" using that by (intro window_mod_inj [OF p(1), of "p + unat C"]) auto
    with that show False by simp
  qed
  {
    assume a: "mc_pc s t = Push_Pos x pos \<and> seq_diff (slot_sequence C pos ?q) pos < 0"
    then have le: "unat pos \<le> ?w" using f by simp
    have "seq_nat ?q ?i < unat pos" using seq_diff_small(2) [of "slot_sequence C pos ?q" pos] a sb small le assms(2) by simp
    then have lt: "p < unat pos" using p(2) by (auto simp: slot_phase_def)
    then have "\<not> ?w \<le> p" "p + unat C \<le> ?w" using le lap by simp_all
    then have "?w = ?r + unat C \<or> ?w - unat C \<in> all_reads (mc_pc s)"
      using p(2) o(6) by (auto simp: slot_phase_def dest: le_antisym)
    then show "?w = ?r + unat C \<or> (\<exists>u. ?w - unat C \<in> reads (mc_pc s u))" by (auto simp: all_reads_def)
  next
    assume a: "mc_pc s t = Pop_Pos pos \<and> seq_diff (slot_sequence C pos ?q) (pos + 1) < 0"
    then have le: "unat pos \<le> ?r" using f by simp
    have p1: "unat (pos + 1) = Suc (unat pos)" using unat_suc_u64 [of pos] le o(5) assms(2) by simp
    have "seq_nat ?q ?i \<le> unat pos"
      using seq_diff_small(2) [of "slot_sequence C pos ?q" "pos + 1"] a sb small p1 le o(2,5) assms(2) by simp
    note sl = this
    have "?r = ?w \<or> ?r \<in> all_writes (mc_pc s)"
      using p(2) unfolding slot_phase_def
    proof (elim disjE conjE, goal_cases)
      case 1 then show ?case using sl le o(5) by simp
    next
      case 2
      then have "p = ?r" using sl le by simp
      with 2 show ?case by simp
    next
      case 3 then show ?case using sl le by simp
    next
      case 4 then show ?case using sl le lap o(5) by simp
    qed
    then show "?r = ?w \<or> (\<exists>u. ?r \<in> writes (mc_pc s u))" by (auto simp: all_writes_def)
  }
qed

section \<open>Witnesses\<close>

definition mpmc_start :: "u64 \<Rightarrow> 'a \<Rightarrow> 'a mpmc_sys" where
  "mpmc_start C z = \<lparr>mc_ring = MpmcRingBuffer_ctor C z, mc_pc = (\<lambda>_. M_Idle), mc_hist = [],
     mc_put = (\<lambda>_. []), mc_got = (\<lambda>_. [])\<rparr>"

text \<open>Thread \<open>t\<close> runs a \<open>push\<close> up to and including its claim.\<close>

definition after_claim :: "nat \<Rightarrow> 'a \<Rightarrow> 'a mpmc_sys \<Rightarrow> 'a mpmc_sys" where
  "after_claim t x s = (let pos = mp_write_pos (mc_ring s) in
     s\<lparr>mc_ring := (mc_ring s)\<lparr>mp_write_pos := pos + 1\<rparr>, mc_pc := (mc_pc s)(t := Push_Copy x pos),
       mc_hist := mc_hist s @ [x]\<rparr>)"

lemma after_claim_reachable:
  assumes r: "reachable (mpmc_sys_init C) (mpmc_step C) s" and idle: "mc_pc s t = M_Idle"
    and sq: "slot_sequence C (mp_write_pos (mc_ring s)) (mc_ring s) = mp_write_pos (mc_ring s)"
  shows "reachable (mpmc_sys_init C) (mpmc_step C) (after_claim t x s)"
proof -
  let ?pos = "mp_write_pos (mc_ring s)"
  let ?s1 = "s\<lparr>mc_pc := (mc_pc s)(t := Push_Pos x ?pos)\<rparr>"
  let ?s2 = "s\<lparr>mc_pc := (mc_pc s)(t := Push_Seq x ?pos ?pos)\<rparr>"
  have "mpmc_step C s ?s1" by (rule push_load [OF idle])
  moreover have "mpmc_step C ?s1 ?s2" using push_seq [of ?s1 t x ?pos C] sq by simp
  moreover have "mpmc_step C ?s2 (after_claim t x s)"
    using push_claim [of ?s2 t x ?pos ?pos C] by (simp add: seq_diff_def after_claim_def Let_def)
  ultimately show ?thesis using r by (blast intro: reach_step)
qed

lemma two_claims_reachable:
  "reachable (mpmc_sys_init 2) (mpmc_step 2) (after_claim 5 8 (after_claim 4 7 (mpmc_start 2 (0::nat))))"
proof -
  have r: "reachable (mpmc_sys_init 2) (mpmc_step 2) (mpmc_start 2 (0::nat))"
    by (rule reach_init) (auto simp: mpmc_sys_init_def mpmc_start_def valid_capacity_def)
  have u2: "[0..<unat (2 :: u64)] = [0, 1]" by (simp add: upt_rec)
  have r1: "reachable (mpmc_sys_init 2) (mpmc_step 2) (after_claim 4 7 (mpmc_start 2 (0::nat)))"
    by (rule after_claim_reachable [OF r])
      (simp_all add: mpmc_start_def slot_sequence_def MpmcRingBuffer_ctor_def slot_index_def kMask_def u2)
  show ?thesis
    by (rule after_claim_reachable [OF r1])
      (simp_all add: after_claim_def mpmc_start_def slot_sequence_def MpmcRingBuffer_ctor_def slot_index_def kMask_def u2 Let_def)
qed

lemma two_claims:
  "mc_pc (after_claim 5 8 (after_claim 4 7 (mpmc_start 2 (0::nat)))) 4 = Push_Copy 7 0"
  "mc_pc (after_claim 5 8 (after_claim 4 7 (mpmc_start 2 (0::nat)))) 5 = Push_Copy 8 1"
  "length (mc_hist (after_claim 5 8 (after_claim 4 7 (mpmc_start 2 (0::nat))))) + unat (2 :: u64) < 2 ^ 63"
  by (simp_all add: after_claim_def mpmc_start_def MpmcRingBuffer_ctor_def Let_def)

theorem mpmc_slot_exclusive_witness: "(0::nat) mod unat (2 :: u64) \<noteq> 1 mod unat (2 :: u64)"
  by (rule mpmc_slot_exclusive [OF two_claims_reachable two_claims(3), of 4 5]) (simp_all add: two_claims)

theorem mpmc_concurrent_fifo_witness:
  "(\<Union>t. fst ` set (mc_got (after_claim 5 8 (after_claim 4 7 (mpmc_start 2 (0::nat)))) t) \<union>
      reads (mc_pc (after_claim 5 8 (after_claim 4 7 (mpmc_start 2 (0::nat)))) t)) =
    {..<unat (mp_read_pos (mc_ring (after_claim 5 8 (after_claim 4 7 (mpmc_start 2 (0::nat))))))}"
  by (rule conjunct2 [OF conjunct2 [OF mpmc_concurrent_fifo [OF two_claims_reachable two_claims(3)]]])

theorem mpmc_false_results_witness:
  "\<exists>s :: nat mpmc_sys. mc_pc s 6 = Pop_Pos 0 \<and> seq_diff (slot_sequence 2 0 (mc_ring s)) (0 + 1) < 0 \<and>
     (unat (mp_read_pos (mc_ring s)) = length (mc_hist s) \<or> (\<exists>u. unat (mp_read_pos (mc_ring s)) \<in> writes (mc_pc s u)))"
proof -
  let ?s = "after_claim 5 8 (after_claim 4 7 (mpmc_start 2 (0::nat)))"
  let ?t = "?s\<lparr>mc_pc := (mc_pc ?s)(6 := Pop_Pos (mp_read_pos (mc_ring ?s)))\<rparr>"
  have i: "mc_pc ?s 6 = M_Idle" and p: "mp_read_pos (mc_ring ?s) = 0"
    by (simp_all add: after_claim_def mpmc_start_def MpmcRingBuffer_ctor_def Let_def)
  have "slot_sequence 2 0 (mc_ring ?s) = 0"
    by (simp add: after_claim_def mpmc_start_def MpmcRingBuffer_ctor_def Let_def slot_sequence_def slot_index_def kMask_def upt_rec)
  then have sd: "seq_diff (slot_sequence 2 0 (mc_ring ?t)) (0 + 1) < 0" by (simp add: seq_diff_def)
  have r: "reachable (mpmc_sys_init 2) (mpmc_step 2) ?t"
    by (rule reach_step [OF two_claims_reachable]) (rule pop_load [OF i])
  have "length (mc_hist ?t) + unat (2 :: u64) < 2 ^ 63" using two_claims(3) by simp
  from mpmc_false_results [OF r this, of 6 0 0] sd p show ?thesis by (intro exI [of _ ?t]) simp
qed

end
