(* ===== verification/Mpmc_Weak.thy ===== *)
theory Mpmc_Weak
  imports Sync_Policy Mpmc_Concurrent
begin

text \<open>
  The MPMC ring on the memory model of the policies, with the orders of \<open>mpmc_ring_buffer.hpp\<close>:
  relaxed accesses to the two positions, acquire loads and release stores of the sequence numbers,
  a payload that is accessed without any order. The loads may return old messages; the proof shows
  that this makes no difference, and that the accesses to the payload do not race. A payload is
  one cell here, since its cells are all accessed under the same conditions.
\<close>

section \<open>The system\<close>

datatype mpmc_loc = W_Pos | R_Pos | Seq_No nat | Payload nat

record mpmc_weak =
  mw_mem :: "(mpmc_loc, u64) memory"
  mw_view :: "nat \<Rightarrow> mpmc_loc view"
  mw_pc :: "nat \<Rightarrow> u64 mpmc_pc"
  mw_hist :: "u64 list"
  mw_put :: "nat \<Rightarrow> (nat \<times> u64) list"
  mw_got :: "nat \<Rightarrow> (nat \<times> u64) list"

fun mw_first :: "mpmc_loc \<Rightarrow> u64" where
  "mw_first (Seq_No i) = of_nat i"
| "mw_first W_Pos = 0"
| "mw_first R_Pos = 0"
| "mw_first (Payload i) = 0"

definition mw_mem_init :: "(mpmc_loc, u64) memory" where
  "mw_mem_init = (\<lambda>l. [\<lparr>msg_val = mw_first l, msg_view = empty_view\<rparr>])"

definition mw_init :: "u64 \<Rightarrow> mpmc_weak \<Rightarrow> bool" where
  "mw_init C s \<longleftrightarrow>
     valid_capacity C \<and> mw_mem s = mw_mem_init \<and> mw_view s = (\<lambda>_. empty_view) \<and> mw_pc s = (\<lambda>_. M_Idle) \<and>
     mw_hist s = [] \<and> mw_put s = (\<lambda>_. []) \<and> mw_got s = (\<lambda>_. [])"

abbreviation relaxed_cas :: "mpmc_loc \<Rightarrow> nat \<Rightarrow> bool \<Rightarrow> u64 \<Rightarrow> mpmc_weak \<Rightarrow> nat \<Rightarrow>
    (bool \<times> u64 \<times> (mpmc_loc, u64) memory \<times> mpmc_loc view) option" where
  "relaxed_cas l k sp pos s t \<equiv>
     atomic_compare_exchange_weak memory_order_relaxed memory_order_relaxed l k sp pos (pos + 1) (mw_mem s) (mw_view s t)"

inductive mw_step :: "u64 \<Rightarrow> mpmc_weak \<Rightarrow> mpmc_weak \<Rightarrow> bool" for C :: u64 where
  mw_push_load: "mw_pc s t = M_Idle \<Longrightarrow>
    atomic_load memory_order_relaxed W_Pos k (mw_mem s) (mw_view s t) = Some (pos, V) \<Longrightarrow>
    mw_step C s (s\<lparr>mw_view := (mw_view s)(t := V), mw_pc := (mw_pc s)(t := Push_Pos x pos)\<rparr>)"
| mw_push_seq: "mw_pc s t = Push_Pos x pos \<Longrightarrow>
    atomic_load memory_order_acquire (Seq_No (slot_index C pos)) k (mw_mem s) (mw_view s t) = Some (seq, V) \<Longrightarrow>
    mw_step C s (s\<lparr>mw_view := (mw_view s)(t := V), mw_pc := (mw_pc s)(t := Push_Seq x pos seq)\<rparr>)"
| mw_push_claim: "mw_pc s t = Push_Seq x pos seq \<Longrightarrow> seq_diff seq pos = 0 \<Longrightarrow>
    relaxed_cas W_Pos k sp pos s t = Some (True, e, m, V) \<Longrightarrow>
    mw_step C s (s\<lparr>mw_mem := m, mw_view := (mw_view s)(t := V), mw_pc := (mw_pc s)(t := Push_Copy x pos),
      mw_hist := mw_hist s @ [x]\<rparr>)"
| mw_push_cas_fail: "mw_pc s t = Push_Seq x pos seq \<Longrightarrow> seq_diff seq pos = 0 \<Longrightarrow>
    relaxed_cas W_Pos k sp pos s t = Some (False, e, m, V) \<Longrightarrow>
    mw_step C s (s\<lparr>mw_mem := m, mw_view := (mw_view s)(t := V), mw_pc := (mw_pc s)(t := Push_Pos x e)\<rparr>)"
| mw_push_full: "mw_pc s t = Push_Seq x pos seq \<Longrightarrow> seq_diff seq pos < 0 \<Longrightarrow>
    mw_step C s (s\<lparr>mw_pc := (mw_pc s)(t := M_Idle)\<rparr>)"
| mw_push_behind: "mw_pc s t = Push_Seq x pos seq \<Longrightarrow> seq_diff seq pos > 0 \<Longrightarrow>
    atomic_load memory_order_relaxed W_Pos k (mw_mem s) (mw_view s t) = Some (pos', V) \<Longrightarrow>
    mw_step C s (s\<lparr>mw_view := (mw_view s)(t := V), mw_pc := (mw_pc s)(t := Push_Pos x pos')\<rparr>)"
| mw_push_copy: "mw_pc s t = Push_Copy x pos \<Longrightarrow>
    atomic_store memory_order_relaxed (Payload (slot_index C pos)) x (mw_mem s) (mw_view s t) = (m, V) \<Longrightarrow>
    mw_step C s (s\<lparr>mw_mem := m, mw_view := (mw_view s)(t := V), mw_pc := (mw_pc s)(t := Push_Publish pos)\<rparr>)"
| mw_push_publish: "mw_pc s t = Push_Publish pos \<Longrightarrow>
    atomic_store memory_order_release (Seq_No (slot_index C pos)) (pos + 1) (mw_mem s) (mw_view s t) = (m, V) \<Longrightarrow>
    mw_step C s (s\<lparr>mw_mem := m, mw_view := (mw_view s)(t := V), mw_pc := (mw_pc s)(t := M_Idle),
      mw_put := (mw_put s)(t := mw_put s t @ [(unat pos, mw_hist s ! unat pos)])\<rparr>)"
| mw_pop_load: "mw_pc s t = M_Idle \<Longrightarrow>
    atomic_load memory_order_relaxed R_Pos k (mw_mem s) (mw_view s t) = Some (pos, V) \<Longrightarrow>
    mw_step C s (s\<lparr>mw_view := (mw_view s)(t := V), mw_pc := (mw_pc s)(t := Pop_Pos pos)\<rparr>)"
| mw_pop_seq: "mw_pc s t = Pop_Pos pos \<Longrightarrow>
    atomic_load memory_order_acquire (Seq_No (slot_index C pos)) k (mw_mem s) (mw_view s t) = Some (seq, V) \<Longrightarrow>
    mw_step C s (s\<lparr>mw_view := (mw_view s)(t := V), mw_pc := (mw_pc s)(t := Pop_Seq pos seq)\<rparr>)"
| mw_pop_claim: "mw_pc s t = Pop_Seq pos seq \<Longrightarrow> seq_diff seq (pos + 1) = 0 \<Longrightarrow>
    relaxed_cas R_Pos k sp pos s t = Some (True, e, m, V) \<Longrightarrow>
    mw_step C s (s\<lparr>mw_mem := m, mw_view := (mw_view s)(t := V), mw_pc := (mw_pc s)(t := Pop_Copy pos)\<rparr>)"
| mw_pop_cas_fail: "mw_pc s t = Pop_Seq pos seq \<Longrightarrow> seq_diff seq (pos + 1) = 0 \<Longrightarrow>
    relaxed_cas R_Pos k sp pos s t = Some (False, e, m, V) \<Longrightarrow>
    mw_step C s (s\<lparr>mw_mem := m, mw_view := (mw_view s)(t := V), mw_pc := (mw_pc s)(t := Pop_Pos e)\<rparr>)"
| mw_pop_empty: "mw_pc s t = Pop_Seq pos seq \<Longrightarrow> seq_diff seq (pos + 1) < 0 \<Longrightarrow>
    mw_step C s (s\<lparr>mw_pc := (mw_pc s)(t := M_Idle)\<rparr>)"
| mw_pop_behind: "mw_pc s t = Pop_Seq pos seq \<Longrightarrow> seq_diff seq (pos + 1) > 0 \<Longrightarrow>
    atomic_load memory_order_relaxed R_Pos k (mw_mem s) (mw_view s t) = Some (pos', V) \<Longrightarrow>
    mw_step C s (s\<lparr>mw_view := (mw_view s)(t := V), mw_pc := (mw_pc s)(t := Pop_Pos pos')\<rparr>)"
| mw_pop_copy: "mw_pc s t = Pop_Copy pos \<Longrightarrow>
    atomic_load memory_order_relaxed (Payload (slot_index C pos)) k (mw_mem s) (mw_view s t) = Some (d, V) \<Longrightarrow>
    mw_step C s (s\<lparr>mw_view := (mw_view s)(t := V), mw_pc := (mw_pc s)(t := Pop_Free pos d)\<rparr>)"
| mw_pop_free: "mw_pc s t = Pop_Free pos out \<Longrightarrow>
    atomic_store memory_order_release (Seq_No (slot_index C pos)) (pos + C) (mw_mem s) (mw_view s t) = (m, V) \<Longrightarrow>
    mw_step C s (s\<lparr>mw_mem := m, mw_view := (mw_view s)(t := V), mw_pc := (mw_pc s)(t := M_Idle),
      mw_got := (mw_got s)(t := mw_got s t @ [(unat pos, out)])\<rparr>)"

section \<open>The newest values form an interleaved state\<close>

definition mw_ring :: "u64 \<Rightarrow> (mpmc_loc, u64) memory \<Rightarrow> u64 MpmcRingBuffer" where
  "mw_ring C m = \<lparr>mp_write_pos = newest m W_Pos, mp_read_pos = newest m R_Pos,
     mp_slots = map (\<lambda>i. \<lparr>ms_sequence = newest m (Seq_No i), ms_data = newest m (Payload i)\<rparr>) [0..<unat C]\<rparr>"

definition mw_abs :: "u64 \<Rightarrow> mpmc_weak \<Rightarrow> u64 mpmc_sys" where
  "mw_abs C s = \<lparr>mc_ring = mw_ring C (mw_mem s), mc_pc = mw_pc s, mc_hist = mw_hist s, mc_put = mw_put s, mc_got = mw_got s\<rparr>"

lemma mw_abs_simps [simp]:
  "mc_ring (mw_abs C s) = mw_ring C (mw_mem s)" "mc_pc (mw_abs C s) = mw_pc s" "mc_hist (mw_abs C s) = mw_hist s"
  "mc_put (mw_abs C s) = mw_put s" "mc_got (mw_abs C s) = mw_got s"
  by (simp_all add: mw_abs_def)

lemma mw_ring_simps:
  "mp_write_pos (mw_ring C m) = newest m W_Pos" "mp_read_pos (mw_ring C m) = newest m R_Pos"
  "i < unat C \<Longrightarrow> seq_nat (mw_ring C m) i = unat (newest m (Seq_No i))"
  "i < unat C \<Longrightarrow> data_nth (mw_ring C m) i = newest m (Payload i)"
  by (simp_all add: mw_ring_def seq_nat_def data_nth_def)

lemma mw_ring_store:
  "mw_ring C (m(W_Pos := m W_Pos @ [x])) = (mw_ring C m)\<lparr>mp_write_pos := msg_val x\<rparr>"
  "mw_ring C (m(R_Pos := m R_Pos @ [x])) = (mw_ring C m)\<lparr>mp_read_pos := msg_val x\<rparr>"
  by (simp_all add: mw_ring_def)

lemma mw_ring_slot:
  assumes "slot_index C pos < unat C"
  shows "mw_ring C (m(Seq_No (slot_index C pos) := m (Seq_No (slot_index C pos)) @ [x])) =
      set_sequence C pos (msg_val x) (mw_ring C m)"
    "mw_ring C (m(Payload (slot_index C pos) := m (Payload (slot_index C pos)) @ [x])) =
      set_data C pos (msg_val x) (mw_ring C m)"
  using assms by (auto simp: mw_ring_def set_sequence_def set_data_def Let_def nth_list_update intro!: nth_equalityI)

section \<open>The invariant\<close>

text \<open>
  What a sequence number vouches for, as the number of a message of the payload: at the value \<open>p\<close>
  the slot has seen all payloads before position \<open>p\<close>, at \<open>p + 1\<close> also that of \<open>p\<close>.
\<close>

definition vouched :: "nat \<Rightarrow> nat \<Rightarrow> nat \<Rightarrow> nat \<Rightarrow> bool" where
  "vouched N i v k \<longleftrightarrow> (v mod N = i \<longrightarrow> v div N \<le> k) \<and> (\<forall>p. v = Suc p \<longrightarrow> p mod N = i \<longrightarrow> p div N < k)"

definition mw_mem_ok :: "nat \<Rightarrow> (mpmc_loc, u64) memory \<Rightarrow> bool" where
  "mw_mem_ok N m \<longleftrightarrow>
     memory_wf m \<and> (\<forall>x\<in>set (m W_Pos). unat (msg_val x) \<le> unat (newest m W_Pos)) \<and>
     (\<forall>x\<in>set (m R_Pos). unat (msg_val x) \<le> unat (newest m R_Pos)) \<and>
     (\<forall>i<N. \<forall>x\<in>set (m (Seq_No i)). unat (msg_val x) \<le> unat (newest m (Seq_No i)) \<and>
        vouched N i (unat (msg_val x)) (msg_view x (Payload i)))"

text \<open>How many payloads a slot has seen, by its sequence number and the thread that is writing.\<close>

definition publishing_pos :: "(nat \<Rightarrow> u64 mpmc_pc) \<Rightarrow> nat \<Rightarrow> bool" where
  "publishing_pos pc p \<longleftrightarrow> (\<exists>t pos. pc t = Push_Publish pos \<and> unat pos = p)"

definition mw_counts :: "nat \<Rightarrow> (mpmc_loc, u64) memory \<Rightarrow> (nat \<Rightarrow> u64 mpmc_pc) \<Rightarrow> bool" where
  "mw_counts N m pc \<longleftrightarrow> (\<forall>p.
     (unat (newest m (Seq_No (p mod N))) = p \<longrightarrow>
        length (m (Payload (p mod N))) = Suc (p div N) + (if publishing_pos pc p then 1 else 0)) \<and>
     (unat (newest m (Seq_No (p mod N))) = Suc p \<longrightarrow> length (m (Payload (p mod N))) = Suc (Suc (p div N))))"

fun view_fits :: "nat \<Rightarrow> mpmc_loc view \<Rightarrow> u64 mpmc_pc \<Rightarrow> bool" where
  "view_fits N V (Push_Seq x pos seq) \<longleftrightarrow> (seq = pos \<longrightarrow> unat pos div N \<le> V (Payload (unat pos mod N)))"
| "view_fits N V (Push_Copy x pos) \<longleftrightarrow> unat pos div N \<le> V (Payload (unat pos mod N))"
| "view_fits N V (Push_Publish pos) \<longleftrightarrow> unat pos div N < V (Payload (unat pos mod N))"
| "view_fits N V (Pop_Seq pos seq) \<longleftrightarrow> (unat seq = Suc (unat pos) \<longrightarrow> unat pos div N < V (Payload (unat pos mod N)))"
| "view_fits N V (Pop_Copy pos) \<longleftrightarrow> unat pos div N < V (Payload (unat pos mod N))"
| "view_fits N V (Pop_Free pos out) \<longleftrightarrow> unat pos div N < V (Payload (unat pos mod N))"
| "view_fits N V _ \<longleftrightarrow> True"

definition mw_inv :: "u64 \<Rightarrow> mpmc_weak \<Rightarrow> bool" where
  "mw_inv C s \<longleftrightarrow>
     mpmc_sys_inv C (mw_abs C s) \<and> mw_mem_ok (unat C) (mw_mem s) \<and> mw_counts (unat C) (mw_mem s) (mw_pc s) \<and>
     (\<forall>t. view_wf (mw_mem s) (mw_view s t) \<and> view_fits (unat C) (mw_view s t) (mw_pc s t))"

lemma mw_invD:
  assumes "mw_inv C s"
  shows "mpmc_sys_inv C (mw_abs C s)" "mw_mem_ok (unat C) (mw_mem s)" "mw_counts (unat C) (mw_mem s) (mw_pc s)"
    "view_wf (mw_mem s) (mw_view s t)" "view_fits (unat C) (mw_view s t) (mw_pc s t)" "memory_wf (mw_mem s)"
    "slot_index C pos = unat pos mod unat C" "unat pos mod unat C < unat C" "valid_capacity C" "2 \<le> unat C"
  using assms ring_okD(1,2) [OF mpmc_sys_invD(1), of C "mw_abs C s"]
  by (auto simp: mw_inv_def mw_mem_ok_def slot_index_mod)

text \<open>The newest message is where the counts say.\<close>

lemma view_newest:
  assumes "view_wf m V" "length (m l) = Suc n" "n \<le> V l"
  shows "V l = n"
  using assms by (auto simp: view_wf_def dest: spec [of _ l])

lemma race_free:
  assumes "mw_inv C s"
  shows "mw_pc s t = Push_Copy x pos \<Longrightarrow> Suc (mw_view s t (Payload (slot_index C pos))) = length (mw_mem s (Payload (slot_index C pos)))"
    "mw_pc s t = Pop_Copy pos \<Longrightarrow> Suc (mw_view s t (Payload (slot_index C pos))) = length (mw_mem s (Payload (slot_index C pos)))"
proof -
  note d = mw_invD [OF assms]
  let ?i = "unat pos mod unat C" and ?m = "mw_mem s"
  have f: "pc_fits (unat C) (mw_ring C ?m) (mw_hist s) (mw_pc s u)" for u using mpmc_sys_invD(2) [OF d(1), of u] by simp
  {
    assume pc: "mw_pc s t = Push_Copy x pos"
    then have "unat (newest ?m (Seq_No ?i)) = unat pos" using f [of t] d(8) by (simp add: mw_ring_simps)
    moreover have "\<not> publishing_pos (mw_pc s) (unat pos)"
    proof
      assume "publishing_pos (mw_pc s) (unat pos)"
      then obtain u where u: "mw_pc s u = Push_Publish pos" by (metis publishing_pos_def word_unat_eq_iff)
      then have "t = u" using ledger_busy_unique [OF mpmc_sys_invD(3) [OF d(1)], of "unat pos" t u] pc by simp
      with u pc show False by simp
    qed
    ultimately have "length (?m (Payload ?i)) = Suc (unat pos div unat C)" using d(3) by (simp add: mw_counts_def)
    then show "Suc (mw_view s t (Payload (slot_index C pos))) = length (?m (Payload (slot_index C pos)))"
      using view_newest [OF d(4)] d(5) [of t] pc by (simp add: d(7))
  next
    assume pc: "mw_pc s t = Pop_Copy pos"
    then have "unat (newest ?m (Seq_No ?i)) = Suc (unat pos)" using f [of t] d(8) by (simp add: mw_ring_simps)
    then have "length (?m (Payload ?i)) = Suc (Suc (unat pos div unat C))" using d(3) by (simp add: mw_counts_def)
    then show "Suc (mw_view s t (Payload (slot_index C pos))) = length (?m (Payload (slot_index C pos)))"
      using view_newest [OF d(4)] d(5) [of t] pc by (simp add: d(7))
  }
qed


section \<open>Preservation\<close>

lemma publishing_pos_upd:
  assumes "\<And>p. pc t = Push_Publish p \<Longrightarrow> unat p \<noteq> k" "\<And>p. x = Push_Publish p \<Longrightarrow> unat p \<noteq> k"
  shows "publishing_pos (pc(t := x)) k = publishing_pos pc k"
  using assms unfolding publishing_pos_def by (metis fun_upd_apply)

text \<open>A step of thread \<open>t\<close> leaves the views of the others valid.\<close>

lemma mw_invI:
  assumes "mw_inv C s" "later (mw_mem s) (mw_mem s')" "mpmc_sys_inv C (mw_abs C s')"
    "mw_mem_ok (unat C) (mw_mem s')" "mw_counts (unat C) (mw_mem s') (mw_pc s')"
    "view_wf (mw_mem s') (mw_view s' t)" "view_fits (unat C) (mw_view s' t) (mw_pc s' t)"
    "\<And>u. u \<noteq> t \<Longrightarrow> mw_view s' u = mw_view s u \<and> mw_pc s' u = mw_pc s u"
  shows "mw_inv C s'"
proof -
  have "view_wf (mw_mem s') (mw_view s' u) \<and> view_fits (unat C) (mw_view s' u) (mw_pc s' u)" for u
    using assms(6-8) mw_invD(4,5) [OF assms(1), of u] view_wf_later [OF assms(2)] by (cases "u = t") simp_all
  with assms(3-5) show ?thesis by (simp add: mw_inv_def)
qed

text \<open>Steps that only load.\<close>

lemma mw_pc_inv:
  assumes inv: "mw_inv C s" and V: "view_wf (mw_mem s) V"
    and x: "writes x = writes (mw_pc s t)" "reads x = reads (mw_pc s t)"
      "pc_fits (unat C) (mw_ring C (mw_mem s)) (mw_hist s) x" "view_fits (unat C) V x"
    and np: "\<And>p. mw_pc s t \<noteq> Push_Publish p" "\<And>p. x \<noteq> Push_Publish p"
  shows "mw_inv C (s\<lparr>mw_view := (mw_view s)(t := V), mw_pc := (mw_pc s)(t := x)\<rparr>)"
proof (rule mw_invI [OF inv, where t = t])
  note d = mw_invD [OF inv]
  have eq: "mw_abs C (s\<lparr>mw_view := (mw_view s)(t := V), mw_pc := (mw_pc s)(t := x)\<rparr>) = (mw_abs C s)\<lparr>mc_pc := (mc_pc (mw_abs C s))(t := x)\<rparr>"
    by (simp add: mw_abs_def)
  show "mpmc_sys_inv C (mw_abs C (s\<lparr>mw_view := (mw_view s)(t := V), mw_pc := (mw_pc s)(t := x)\<rparr>))"
    unfolding eq by (rule pc_step_inv [OF d(1)]) (use x in simp_all)
  show "mw_counts (unat C) (mw_mem (s\<lparr>mw_view := (mw_view s)(t := V), mw_pc := (mw_pc s)(t := x)\<rparr>))
      (mw_pc (s\<lparr>mw_view := (mw_view s)(t := V), mw_pc := (mw_pc s)(t := x)\<rparr>))"
    using d(3) publishing_pos_upd [of "mw_pc s" t _ x] np by (simp add: mw_counts_def)
qed (use mw_invD [OF inv] V x in simp_all)

lemma load_position:
  assumes "mw_mem_ok N m" "atomic_load mo l k m V = Some (v, V')"
  shows "l = W_Pos \<Longrightarrow> unat v \<le> unat (newest m W_Pos)" "l = R_Pos \<Longrightarrow> unat v \<le> unat (newest m R_Pos)"
    "l = Seq_No i \<Longrightarrow> i < N \<Longrightarrow> unat v \<le> unat (newest m (Seq_No i))"
    "l = Seq_No i \<Longrightarrow> i < N \<Longrightarrow> acquires mo \<Longrightarrow> vouched N i (unat v) (V' (Payload i))"
proof -
  note a = atomic_load_Some [OF assms(2)]
  have x: "m l ! k \<in> set (m l)" using a(2) by simp
  show "l = W_Pos \<Longrightarrow> unat v \<le> unat (newest m W_Pos)" "l = R_Pos \<Longrightarrow> unat v \<le> unat (newest m R_Pos)"
    "l = Seq_No i \<Longrightarrow> i < N \<Longrightarrow> unat v \<le> unat (newest m (Seq_No i))"
    using assms(1) x a(3) by (auto simp: mw_mem_ok_def)
  assume "l = Seq_No i" "i < N" "acquires mo"
  then have "vouched N i (unat v) (msg_view (m l ! k) (Payload i))" "msg_view (m l ! k) (Payload i) \<le> V' (Payload i)"
    using assms(1) x a(3) le_funD [OF a(6), of "Payload i"] by (auto simp: mw_mem_ok_def)
  then show "vouched N i (unat v) (V' (Payload i))" by (auto simp: vouched_def intro: order_trans less_le_trans)
qed

lemma view_fits_view: "view_fits N V pc \<Longrightarrow> V \<le> V' \<Longrightarrow> view_fits N V' pc"
  by (cases pc) (auto simp: le_fun_def intro: le_trans less_le_trans)

lemma mw_push_load_inv:
  assumes inv: "mw_inv C s" and pc: "mw_pc s t = M_Idle \<or> (\<exists>x p q. mw_pc s t = Push_Seq x p q)"
    and ld: "atomic_load mo W_Pos k (mw_mem s) (mw_view s t) = Some (pos, V)"
  shows "mw_inv C (s\<lparr>mw_view := (mw_view s)(t := V), mw_pc := (mw_pc s)(t := Push_Pos x pos)\<rparr>)"
proof -
  note d = mw_invD [OF inv]
  have "unat pos \<le> length (mw_hist s)"
    using load_position(1) [OF d(2) ld] ring_okD(4) [OF mpmc_sys_invD(1) [OF d(1)]] by (simp add: mw_ring_simps)
  then show ?thesis
    using pc atomic_load_wf [OF d(6,4) ld] by (intro mw_pc_inv [OF inv]) auto
qed

lemma mw_pop_load_inv:
  assumes inv: "mw_inv C s" and pc: "mw_pc s t = M_Idle \<or> (\<exists>p q. mw_pc s t = Pop_Seq p q)"
    and ld: "atomic_load mo R_Pos k (mw_mem s) (mw_view s t) = Some (pos, V)"
  shows "mw_inv C (s\<lparr>mw_view := (mw_view s)(t := V), mw_pc := (mw_pc s)(t := Pop_Pos pos)\<rparr>)"
proof -
  note d = mw_invD [OF inv]
  have "unat pos \<le> unat (newest (mw_mem s) R_Pos)" using load_position(2) [OF d(2) ld] by simp
  then show ?thesis
    using pc atomic_load_wf [OF d(6,4) ld] by (intro mw_pc_inv [OF inv]) (auto simp: mw_ring_simps)
qed

lemma mw_seq_inv:
  assumes inv: "mw_inv C s"
    and ld: "atomic_load memory_order_acquire (Seq_No (slot_index C pos)) k (mw_mem s) (mw_view s t) = Some (seq, V)"
  shows "mw_pc s t = Push_Pos x pos \<Longrightarrow> mw_inv C (s\<lparr>mw_view := (mw_view s)(t := V), mw_pc := (mw_pc s)(t := Push_Seq x pos seq)\<rparr>)"
    "mw_pc s t = Pop_Pos pos \<Longrightarrow> mw_inv C (s\<lparr>mw_view := (mw_view s)(t := V), mw_pc := (mw_pc s)(t := Pop_Seq pos seq)\<rparr>)"
proof -
  note d = mw_invD [OF inv]
  let ?i = "unat pos mod unat C"
  have f: "pc_fits (unat C) (mw_ring C (mw_mem s)) (mw_hist s) (mw_pc s t)" using mpmc_sys_invD(2) [OF d(1), of t] by simp
  have le: "unat seq \<le> seq_nat (mw_ring C (mw_mem s)) ?i"
    using load_position(3) [OF d(2) ld] d(7,8) by (simp add: mw_ring_simps)
  have v: "vouched (unat C) ?i (unat seq) (V (Payload ?i))"
    using load_position(4) [OF d(2) ld, of ?i] d(7,8) by simp
  note w = atomic_load_wf [OF d(6,4) ld]
  show "mw_pc s t = Push_Pos x pos \<Longrightarrow> mw_inv C (s\<lparr>mw_view := (mw_view s)(t := V), mw_pc := (mw_pc s)(t := Push_Seq x pos seq)\<rparr>)"
    "mw_pc s t = Pop_Pos pos \<Longrightarrow> mw_inv C (s\<lparr>mw_view := (mw_view s)(t := V), mw_pc := (mw_pc s)(t := Pop_Seq pos seq)\<rparr>)"
    using f le v w by (auto intro!: mw_pc_inv [OF inv] simp: vouched_def)
qed

lemma mw_pop_copy_inv:
  assumes inv: "mw_inv C s" and pc: "mw_pc s t = Pop_Copy pos"
    and ld: "atomic_load mo (Payload (slot_index C pos)) k (mw_mem s) (mw_view s t) = Some (d, V)"
  shows "mw_inv C (s\<lparr>mw_view := (mw_view s)(t := V), mw_pc := (mw_pc s)(t := Pop_Free pos d)\<rparr>)"
proof -
  note i = mw_invD [OF inv] and a = atomic_load_Some [OF ld]
  let ?m = "mw_mem s" and ?l = "Payload (slot_index C pos)"
  have f: "pc_fits (unat C) (mw_ring C ?m) (mw_hist s) (Pop_Copy pos)" using mpmc_sys_invD(2) [OF i(1), of t] pc by simp
  have "k = length (?m ?l) - 1" using race_free(2) [OF inv pc] a(1,2) by simp
  then have "d = newest ?m ?l" using a(3) memory_wf_msg(1) [OF i(6)] by (simp add: newest_def last_conv_nth)
  moreover have "data_nth (mw_ring C ?m) (unat pos mod unat C) = mw_hist s ! unat pos"
    using read_phase(2) [OF mpmc_sys_invD(1) [OF i(1)], of "unat pos"] f by simp
  ultimately have "d = mw_hist s ! unat pos" using i(7,8) by (simp add: mw_ring_simps)
  moreover have "view_fits (unat C) V (Pop_Copy pos)" using view_fits_view [OF i(5) a(4)] pc by simp
  ultimately show ?thesis using f pc atomic_load_wf [OF i(6,4) ld] by (intro mw_pc_inv [OF inv]) simp_all
qed


text \<open>The claims: a compare-and-swap that succeeds has seen the newest position.\<close>

lemma mw_mem_ok_position:
  assumes "mw_mem_ok N m" "memory_wf m'" "l = W_Pos \<or> l = R_Pos" "m' = m(l := m l @ [x])" "unat (newest m l) \<le> unat (msg_val x)"
  shows "mw_mem_ok N m'"
  using assms(1-3,5) unfolding mw_mem_ok_def assms(4) by (elim disjE) (auto intro: order_trans)

lemma mw_counts_position:
  assumes "mw_counts N m pc" "l = W_Pos \<or> l = R_Pos" "m' = m(l := m l @ [x])" "\<And>p. publishing_pos pc' p = publishing_pos pc p"
  shows "mw_counts N m' pc'"
  using assms(1,2,4) unfolding mw_counts_def assms(3) by (elim disjE) simp_all

lemma seq_diff_zero: "seq_diff a b = 0 \<longleftrightarrow> a = b"
  by (simp add: seq_diff_def) (metis signed_word_eqI)

lemma mw_push_claim_inv:
  assumes inv: "mw_inv C s" and pc: "mw_pc s t = Push_Seq x pos seq" and df: "seq_diff seq pos = 0"
    and cas: "relaxed_cas W_Pos k sp pos s t = Some (True, e, m, V)"
    and n: "Suc (length (mw_hist s)) + unat C < 2 ^ 63"
  shows "mw_inv C (s\<lparr>mw_mem := m, mw_view := (mw_view s)(t := V), mw_pc := (mw_pc s)(t := Push_Copy x pos),
      mw_hist := mw_hist s @ [x]\<rparr>)" (is "mw_inv C ?s")
proof (rule mw_invI [OF inv, where t = t])
  note d = mw_invD [OF inv] and c = compare_exchange_True [OF mw_invD(6,4) [OF inv] cas]
  from c(3) obtain z where z: "m = (mw_mem s)(W_Pos := mw_mem s W_Pos @ [z])" "msg_val z = pos + 1" by blast
  have w: "unat pos = length (mw_hist s)" using ring_okD(4) [OF mpmc_sys_invD(1) [OF d(1)]] c(1) by (simp add: mw_ring_simps)
  have "mpmc_step C (mw_abs C s) (mw_abs C ?s)"
    using push_claim [of "mw_abs C s" t x pos seq C] pc df c(1) z by (simp add: mw_ring_simps) (simp add: mw_abs_def mw_ring_store)
  then show "mpmc_sys_inv C (mw_abs C ?s)" using mpmc_step_inv [OF _ d(1)] n by simp
  have "unat (pos + 1) = Suc (unat pos)" using unat_suc_u64 [of pos] w n by simp
  then show "mw_mem_ok (unat C) (mw_mem ?s)" using mw_mem_ok_position [OF d(2) c(4) _ z(1)] z(2) c(1) by simp
  show "mw_counts (unat C) (mw_mem ?s) (mw_pc ?s)"
    using mw_counts_position [OF d(3) _ z(1)] publishing_pos_upd [of "mw_pc s" t _ "Push_Copy x pos"] pc by simp
  show "view_fits (unat C) (mw_view ?s t) (mw_pc ?s t)"
    using view_fits_view [OF d(5) c(7)] pc df by (simp add: seq_diff_zero)
qed (use compare_exchange_True [OF mw_invD(6,4) [OF inv] cas] in simp_all)

lemma mw_pop_claim_inv:
  assumes inv: "mw_inv C s" and pc: "mw_pc s t = Pop_Seq pos seq" and df: "seq_diff seq (pos + 1) = 0"
    and cas: "relaxed_cas R_Pos k sp pos s t = Some (True, e, m, V)"
    and n: "length (mw_hist s) + unat C < 2 ^ 63"
  shows "mw_inv C (s\<lparr>mw_mem := m, mw_view := (mw_view s)(t := V), mw_pc := (mw_pc s)(t := Pop_Copy pos)\<rparr>)" (is "mw_inv C ?s")
proof (rule mw_invI [OF inv, where t = t])
  note d = mw_invD [OF inv] and c = compare_exchange_True [OF mw_invD(6,4) [OF inv] cas]
  from c(3) obtain z where z: "m = (mw_mem s)(R_Pos := mw_mem s R_Pos @ [z])" "msg_val z = pos + 1" by blast
  have "unat pos \<le> length (mw_hist s)" using ring_okD(5) [OF mpmc_sys_invD(1) [OF d(1)]] c(1) by (simp add: mw_ring_simps)
  then have p1: "unat (pos + 1) = Suc (unat pos)" using unat_suc_u64 [of pos] n by simp
  have "mpmc_step C (mw_abs C s) (mw_abs C ?s)"
    using pop_claim [of "mw_abs C s" t pos seq C] pc df c(1) z by (simp add: mw_ring_simps) (simp add: mw_abs_def mw_ring_store)
  then show "mpmc_sys_inv C (mw_abs C ?s)" using mpmc_step_inv [OF _ d(1)] n by simp
  show "mw_mem_ok (unat C) (mw_mem ?s)" using mw_mem_ok_position [OF d(2) c(4) _ z(1)] z(2) c(1) p1 by simp
  show "mw_counts (unat C) (mw_mem ?s) (mw_pc ?s)"
    using mw_counts_position [OF d(3) _ z(1)] publishing_pos_upd [of "mw_pc s" t _ "Pop_Copy pos"] pc by simp
  show "view_fits (unat C) (mw_view ?s t) (mw_pc ?s t)"
    using view_fits_view [OF d(5) c(7)] pc df p1 by (simp add: seq_diff_zero)
qed (use compare_exchange_True [OF mw_invD(6,4) [OF inv] cas] in simp_all)


text \<open>The stores of the sequence number and of the payload, by the thread that owns the slot.\<close>

lemma mw_sequence_inv:
  assumes inv: "mw_inv C s" and st: "atomic_store memory_order_release (Seq_No (slot_index C pos)) v (mw_mem s) (mw_view s t) = (m, V)"
    and abs: "mpmc_sys_inv C (mw_abs C s')" and s': "mw_mem s' = m" "mw_view s' = (mw_view s)(t := V)" "mw_pc s' = (mw_pc s)(t := M_Idle)"
    and own: "\<And>p. mw_pc s t = Push_Publish p \<Longrightarrow> p = pos"
    and up: "unat (newest (mw_mem s) (Seq_No (unat pos mod unat C))) \<le> unat v"
    and vo: "vouched (unat C) (unat pos mod unat C) (unat v) (mw_view s t (Payload (unat pos mod unat C)))"
    and cnt: "\<And>p. p mod unat C = unat pos mod unat C \<Longrightarrow> unat v = p \<Longrightarrow>
        length (mw_mem s (Payload (p mod unat C))) = Suc (p div unat C) \<and> \<not> publishing_pos (mw_pc s) p"
      "\<And>p. p mod unat C = unat pos mod unat C \<Longrightarrow> unat v = Suc p \<Longrightarrow>
        length (mw_mem s (Payload (p mod unat C))) = Suc (Suc (p div unat C))"
    and old: "unat (newest (mw_mem s) (Seq_No (unat pos mod unat C))) = unat pos \<or> (\<forall>p. mw_pc s t \<noteq> Push_Publish p)"
  shows "mw_inv C s'"
proof (rule mw_invI [OF inv _ abs, where t = t])
  note d = mw_invD [OF inv] and w = atomic_store_wf [OF mw_invD(6,4) [OF inv] st]
  let ?N = "unat C" and ?i = "unat pos mod unat C" and ?l = "Seq_No (unat pos mod unat C)"
  obtain z where z: "m = (mw_mem s)(?l := mw_mem s ?l @ [z])" "msg_val z = v" "msg_view z = V"
    using st by (auto simp: atomic_store_def Let_def released_def d(7))
  have V: "V (Payload i) = mw_view s t (Payload i)" for i using st by (auto simp: atomic_store_def Let_def)
  show "later (mw_mem s) (mw_mem s')" using w(3) by (simp add: s')
  show "view_wf (mw_mem s') (mw_view s' t)" using w(2) by (simp add: s')
  have below: "\<forall>x\<in>set (mw_mem s ?l). unat (msg_val x) \<le> unat v"
    using d(2) d(8) [of pos] unfolding mw_mem_ok_def by (meson order_trans up)
  show "mw_mem_ok ?N (mw_mem s')"
    using d(2) w(1) vo below unfolding mw_mem_ok_def s' by (auto simp: z V)
  have np: "publishing_pos ((mw_pc s)(t := M_Idle)) p = publishing_pos (mw_pc s) p" if "p \<noteq> unat pos" for p
    using publishing_pos_upd [of "mw_pc s" t p M_Idle] own that by auto
  show "mw_counts ?N (mw_mem s') (mw_pc s')"
    unfolding mw_counts_def s'
  proof (intro allI conjI impI)
    fix p
    have pay: "m (Payload (p mod ?N)) = mw_mem s (Payload (p mod ?N))" by (simp add: z)
    show "length (m (Payload (p mod ?N))) = Suc (p div ?N) + (if publishing_pos ((mw_pc s)(t := M_Idle)) p then 1 else 0)"
      if "unat (newest m (Seq_No (p mod ?N))) = p"
    proof (cases "p mod ?N = ?i")
      case True
      then have "unat v = p" using that z by simp
      then have "length (mw_mem s (Payload (p mod ?N))) = Suc (p div ?N)" "\<not> publishing_pos (mw_pc s) p"
        using cnt(1) [OF True] by simp_all
      moreover have "\<not> publishing_pos ((mw_pc s)(t := M_Idle)) p"
        using calculation(2) by (auto simp: publishing_pos_def split: if_splits)
      ultimately show ?thesis by (simp add: pay)
    next
      case False
      then have "p \<noteq> unat pos" by auto
      then show ?thesis using that False d(3) np by (simp add: pay z mw_counts_def)
    qed
    show "length (m (Payload (p mod ?N))) = Suc (Suc (p div ?N))" if "unat (newest m (Seq_No (p mod ?N))) = Suc p"
      using that cnt(2) [of p] d(3) by (cases "p mod ?N = ?i") (simp_all add: pay z mw_counts_def)
  qed
  show "view_fits ?N (mw_view s' t) (mw_pc s' t)" by (simp add: s')
qed (simp_all add: assms)

lemma mw_push_publish_inv:
  assumes inv: "mw_inv C s" and pc: "mw_pc s t = Push_Publish pos"
    and st: "atomic_store memory_order_release (Seq_No (slot_index C pos)) (pos + 1) (mw_mem s) (mw_view s t) = (m, V)"
    and n: "length (mw_hist s) + unat C < 2 ^ 63"
  shows "mw_inv C (s\<lparr>mw_mem := m, mw_view := (mw_view s)(t := V), mw_pc := (mw_pc s)(t := M_Idle),
      mw_put := (mw_put s)(t := mw_put s t @ [(unat pos, mw_hist s ! unat pos)])\<rparr>)" (is "mw_inv C ?s")
proof (rule mw_sequence_inv [OF inv st])
  note d = mw_invD [OF inv]
  let ?N = "unat C" and ?i = "unat pos mod unat C"
  have f: "pc_fits ?N (mw_ring C (mw_mem s)) (mw_hist s) (Push_Publish pos)" using mpmc_sys_invD(2) [OF d(1), of t] pc by simp
  have sq: "unat (newest (mw_mem s) (Seq_No ?i)) = unat pos" using f d(8) by (simp add: mw_ring_simps)
  have p1: "unat (pos + 1) = Suc (unat pos)" using unat_suc_u64 [of pos] f n by simp
  have ne: "Suc (unat pos) mod ?N \<noteq> ?i" using Suc_mod_neq [OF d(10)] .
  obtain z V' where z: "msg_val z = pos + 1" "atomic_store memory_order_release (Seq_No (slot_index C pos)) (pos + 1) (mw_mem s) (mw_view s t) =
      ((mw_mem s)(Seq_No (slot_index C pos) := mw_mem s (Seq_No (slot_index C pos)) @ [z]), V')"
    using store_message .
  have m: "m = (mw_mem s)(Seq_No (slot_index C pos) := mw_mem s (Seq_No (slot_index C pos)) @ [z])" using st z(2) by simp
  have ix: "slot_index C pos < unat C" using d(7,8) by simp
  have "mpmc_step C (mw_abs C s) (mw_abs C ?s)"
    using push_publish [of "mw_abs C s" t pos C] pc by (simp add: mw_abs_def m mw_ring_slot(1) [OF ix] z(1))
  then show "mpmc_sys_inv C (mw_abs C ?s)" using mpmc_step_inv [OF _ d(1)] n by simp
  show "vouched ?N ?i (unat (pos + 1)) (mw_view s t (Payload ?i))"
    using d(5) [of t] pc p1 ne by (simp add: vouched_def)
  have "publishing_pos (mw_pc s) (unat pos)" using pc by (auto simp: publishing_pos_def)
  then have len: "length (mw_mem s (Payload ?i)) = Suc (Suc (unat pos div ?N))" using d(3) sq by (simp add: mw_counts_def)
  show "length (mw_mem s (Payload (p mod ?N))) = Suc (p div ?N) \<and> \<not> publishing_pos (mw_pc s) p"
    if "p mod ?N = ?i" "unat (pos + 1) = p" for p using that ne p1 by auto
  show "length (mw_mem s (Payload (p mod ?N))) = Suc (Suc (p div ?N))" if "unat (pos + 1) = Suc p" for p
    using that p1 len by simp
  show "unat (newest (mw_mem s) (Seq_No ?i)) \<le> unat (pos + 1)" using sq p1 by simp
  show "unat (newest (mw_mem s) (Seq_No ?i)) = unat pos \<or> (\<forall>p. mw_pc s t \<noteq> Push_Publish p)" using sq by simp
qed (use pc in simp_all)

lemma mw_pop_free_inv:
  assumes inv: "mw_inv C s" and pc: "mw_pc s t = Pop_Free pos out"
    and st: "atomic_store memory_order_release (Seq_No (slot_index C pos)) (pos + C) (mw_mem s) (mw_view s t) = (m, V)"
    and n: "length (mw_hist s) + unat C < 2 ^ 63"
  shows "mw_inv C (s\<lparr>mw_mem := m, mw_view := (mw_view s)(t := V), mw_pc := (mw_pc s)(t := M_Idle),
      mw_got := (mw_got s)(t := mw_got s t @ [(unat pos, out)])\<rparr>)" (is "mw_inv C ?s")
proof (rule mw_sequence_inv [OF inv st])
  note d = mw_invD [OF inv]
  let ?N = "unat C" and ?i = "unat pos mod unat C"
  have f: "pc_fits ?N (mw_ring C (mw_mem s)) (mw_hist s) (mw_pc s u)" for u using mpmc_sys_invD(2) [OF d(1), of u] by simp
  have sq: "unat (newest (mw_mem s) (Seq_No ?i)) = Suc (unat pos)" using f [of t] pc d(8) by (simp add: mw_ring_simps)
  have "unat pos < length (mw_hist s)" using f [of t] pc ring_okD(5) [OF mpmc_sys_invD(1) [OF d(1)]] by simp
  then have pC: "unat (pos + C) = unat pos + ?N" using unat_add_lt [of pos C] n by simp
  have ne: "unat pos + ?N \<noteq> Suc (unat pos)" using d(10) by simp
  obtain z V' where z: "msg_val z = pos + C" "atomic_store memory_order_release (Seq_No (slot_index C pos)) (pos + C) (mw_mem s) (mw_view s t) =
      ((mw_mem s)(Seq_No (slot_index C pos) := mw_mem s (Seq_No (slot_index C pos)) @ [z]), V')"
    using store_message .
  have m: "m = (mw_mem s)(Seq_No (slot_index C pos) := mw_mem s (Seq_No (slot_index C pos)) @ [z])" using st z(2) by simp
  have ix: "slot_index C pos < unat C" using d(7,8) by simp
  have "mpmc_step C (mw_abs C s) (mw_abs C ?s)"
    using pop_free [of "mw_abs C s" t pos out C] pc by (simp add: mw_abs_def m mw_ring_slot(1) [OF ix] z(1))
  then show "mpmc_sys_inv C (mw_abs C ?s)" using mpmc_step_inv [OF _ d(1)] n by simp
  have q: "p mod ?N \<noteq> ?i" if "unat (pos + C) = Suc p" for p
    using that pC Suc_mod_neq [OF d(10), of p] by (metis mod_add_self2)
  have dv: "(unat pos + ?N) div ?N = Suc (unat pos div ?N)" using d(10) by (subst div_add_self2) simp_all
  then show "vouched ?N ?i (unat (pos + C)) (mw_view s t (Payload ?i))"
    using d(5) [of t] pc q by (auto simp: vouched_def pC)
  have len: "length (mw_mem s (Payload ?i)) = Suc (Suc (unat pos div ?N))" using d(3) sq by (simp add: mw_counts_def)
  show "length (mw_mem s (Payload (p mod ?N))) = Suc (p div ?N) \<and> \<not> publishing_pos (mw_pc s) p"
    if "p mod ?N = ?i" "unat (pos + C) = p" for p
  proof
    show "length (mw_mem s (Payload (p mod ?N))) = Suc (p div ?N)" using that len dv by (simp add: pC flip: that(2))
    show "\<not> publishing_pos (mw_pc s) p"
    proof
      assume "publishing_pos (mw_pc s) p"
      then obtain u p' where "mw_pc s u = Push_Publish p'" "unat p' = p" by (auto simp: publishing_pos_def)
      then have "unat (newest (mw_mem s) (Seq_No (p mod ?N))) = p" using f [of u] d(8) [of p'] by (simp add: mw_ring_simps)
      then show False using sq that pC ne by simp
    qed
  qed
  show "length (mw_mem s (Payload (p mod ?N))) = Suc (Suc (p div ?N))" if "p mod ?N = ?i" "unat (pos + C) = Suc p" for p
    using q [OF that(2)] that(1) by simp
  show "unat (newest (mw_mem s) (Seq_No ?i)) \<le> unat (pos + C)" using sq pC d(10) by simp
qed (use pc in simp_all)

lemma mw_push_copy_inv:
  assumes inv: "mw_inv C s" and pc: "mw_pc s t = Push_Copy x pos"
    and st: "atomic_store memory_order_relaxed (Payload (slot_index C pos)) x (mw_mem s) (mw_view s t) = (m, V)"
    and n: "length (mw_hist s) + unat C < 2 ^ 63"
  shows "mw_inv C (s\<lparr>mw_mem := m, mw_view := (mw_view s)(t := V), mw_pc := (mw_pc s)(t := Push_Publish pos)\<rparr>)" (is "mw_inv C ?s")
proof (rule mw_invI [OF inv, where t = t])
  note d = mw_invD [OF inv] and w = atomic_store_wf [OF mw_invD(6,4) [OF inv] st] and rf = race_free(1) [OF inv pc]
  let ?N = "unat C" and ?i = "unat pos mod unat C" and ?l = "Payload (unat pos mod unat C)"
  have f: "pc_fits ?N (mw_ring C (mw_mem s)) (mw_hist s) (mw_pc s u)" for u using mpmc_sys_invD(2) [OF d(1), of u] by simp
  have sq: "unat (newest (mw_mem s) (Seq_No ?i)) = unat pos" using f [of t] pc d(8) by (simp add: mw_ring_simps)
  obtain z where z: "m = (mw_mem s)(?l := mw_mem s ?l @ [z])" "msg_val z = x"
    using st by (auto simp: atomic_store_def Let_def d(7))
  have V: "V = (mw_view s t)(?l := length (mw_mem s ?l))" using st by (auto simp: atomic_store_def Let_def d(7))
  have ix: "slot_index C pos < unat C" using d(7,8) by simp
  have "mpmc_step C (mw_abs C s) (mw_abs C ?s)"
    using push_copy [of "mw_abs C s" t x pos C] pc mw_ring_slot(2) [OF ix, of "mw_mem s" z] by (simp add: mw_abs_def z d(7))
  then show "mpmc_sys_inv C (mw_abs C ?s)" using mpmc_step_inv [OF _ d(1)] n by simp
  show "mw_mem_ok ?N (mw_mem ?s)" using d(2) w(1) unfolding mw_mem_ok_def by (simp add: z)
  have len: "unat pos div ?N < length (mw_mem s ?l)" using rf d(5) [of t] pc by (simp add: d(7))
  then show "view_fits ?N (mw_view ?s t) (mw_pc ?s t)" by (simp add: V)
  have np: "publishing_pos ((mw_pc s)(t := Push_Publish pos)) p = (p = unat pos \<or> publishing_pos (mw_pc s) p)" for p
  proof -
    have "publishing_pos ((mw_pc s)(t := Push_Publish pos)) p" if "mw_pc s u = Push_Publish q" "unat q = p" for u q
      unfolding publishing_pos_def using that pc by (intro exI [of _ u]) auto
    moreover have "publishing_pos ((mw_pc s)(t := Push_Publish pos)) (unat pos)" unfolding publishing_pos_def by (intro exI [of _ t]) simp
    moreover have "p = unat pos \<or> publishing_pos (mw_pc s) p" if "publishing_pos ((mw_pc s)(t := Push_Publish pos)) p"
      using that by (auto simp: publishing_pos_def split: if_splits)
    ultimately show ?thesis unfolding publishing_pos_def by blast
  qed
  have "\<not> publishing_pos (mw_pc s) (unat pos)"
  proof
    assume "publishing_pos (mw_pc s) (unat pos)"
    then obtain u where u: "mw_pc s u = Push_Publish pos" by (metis publishing_pos_def word_unat_eq_iff)
    then have "t = u" using ledger_busy_unique [OF mpmc_sys_invD(3) [OF d(1)], of "unat pos" t u] pc by simp
    with u pc show False by simp
  qed
  then have l: "length (mw_mem s ?l) = Suc (unat pos div ?N)" using d(3) sq by (simp add: mw_counts_def)
  show "mw_counts ?N (mw_mem ?s) (mw_pc ?s)"
    unfolding mw_counts_def
  proof (intro allI)
    fix p
    show "(unat (newest (mw_mem ?s) (Seq_No (p mod ?N))) = p \<longrightarrow>
        length (mw_mem ?s (Payload (p mod ?N))) = Suc (p div ?N) + (if publishing_pos (mw_pc ?s) p then 1 else 0)) \<and>
      (unat (newest (mw_mem ?s) (Seq_No (p mod ?N))) = Suc p \<longrightarrow> length (mw_mem ?s (Payload (p mod ?N))) = Suc (Suc (p div ?N)))"
    proof (cases "p mod ?N = ?i")
      case True
      then have "Suc p \<noteq> unat pos" using Suc_mod_neq [OF d(10), of p] by auto
      moreover have "unat (newest (mw_mem ?s) (Seq_No (p mod ?N))) = unat pos"
        "length (mw_mem ?s (Payload (p mod ?N))) = Suc (Suc (unat pos div ?N))"
        unfolding True using sq l by (simp_all add: z)
      moreover have "publishing_pos (mw_pc ?s) (unat pos)" using np by simp
      ultimately show ?thesis by auto
    next
      case False
      then have "p \<noteq> unat pos" by auto
      then show ?thesis using False d(3) by (simp add: z np mw_counts_def)
    qed
  qed
qed (use atomic_store_wf [OF mw_invD(6,4) [OF inv] st] in simp_all)


section \<open>Every reachable state\<close>

lemma mw_step_inv:
  assumes step: "mw_step C s s'" and inv: "mw_inv C s" and n: "length (mw_hist s') + unat C < 2 ^ 63"
  shows "mw_inv C s'"
  using step
proof (cases rule: mw_step.cases)
  case (mw_push_load t k pos V x)
  then show ?thesis using mw_push_load_inv [OF inv] by blast
next
  case (mw_push_seq t x pos k seq V)
  then show ?thesis using mw_seq_inv(1) [OF inv] by blast
next
  case (mw_push_claim t x pos seq k sp e m V)
  then show ?thesis using mw_push_claim_inv [OF inv] n by simp
next
  case (mw_push_cas_fail t x pos seq k sp e m V)
  note f = compare_exchange_False [OF mw_push_cas_fail(4)]
  have "mw_inv C (s\<lparr>mw_view := (mw_view s)(t := V), mw_pc := (mw_pc s)(t := Push_Pos x e)\<rparr>)"
    using mw_push_load_inv [OF inv _ f(2)] mw_push_cas_fail(2) by blast
  then show ?thesis using mw_push_cas_fail(1) f(1) by simp
next
  case (mw_push_full t x pos seq)
  have "mw_inv C (s\<lparr>mw_view := (mw_view s)(t := mw_view s t), mw_pc := (mw_pc s)(t := M_Idle)\<rparr>)"
    using mw_push_full(2) mw_invD(4) [OF inv] by (intro mw_pc_inv [OF inv]) simp_all
  then show ?thesis using mw_push_full(1) by simp
next
  case (mw_push_behind t x pos seq k pos' V)
  then show ?thesis using mw_push_load_inv [OF inv] by blast
next
  case (mw_push_copy t x pos m V)
  then show ?thesis using mw_push_copy_inv [OF inv] n by simp
next
  case (mw_push_publish t pos m V)
  then show ?thesis using mw_push_publish_inv [OF inv] n by simp
next
  case (mw_pop_load t k pos V)
  then show ?thesis using mw_pop_load_inv [OF inv] by blast
next
  case (mw_pop_seq t pos k seq V)
  then show ?thesis using mw_seq_inv(2) [OF inv] by blast
next
  case (mw_pop_claim t pos seq k sp e m V)
  then show ?thesis using mw_pop_claim_inv [OF inv] n by simp
next
  case (mw_pop_cas_fail t pos seq k sp e m V)
  note f = compare_exchange_False [OF mw_pop_cas_fail(4)]
  have "mw_inv C (s\<lparr>mw_view := (mw_view s)(t := V), mw_pc := (mw_pc s)(t := Pop_Pos e)\<rparr>)"
    using mw_pop_load_inv [OF inv _ f(2)] mw_pop_cas_fail(2) by blast
  then show ?thesis using mw_pop_cas_fail(1) f(1) by simp
next
  case (mw_pop_empty t pos seq)
  have "mw_inv C (s\<lparr>mw_view := (mw_view s)(t := mw_view s t), mw_pc := (mw_pc s)(t := M_Idle)\<rparr>)"
    using mw_pop_empty(2) mw_invD(4) [OF inv] by (intro mw_pc_inv [OF inv]) simp_all
  then show ?thesis using mw_pop_empty(1) by simp
next
  case (mw_pop_behind t pos seq k pos' V)
  then show ?thesis using mw_pop_load_inv [OF inv] by blast
next
  case (mw_pop_copy t pos k d V)
  then show ?thesis using mw_pop_copy_inv [OF inv] by blast
next
  case (mw_pop_free t pos out m V)
  then show ?thesis using mw_pop_free_inv [OF inv] n by simp
qed

lemma mw_step_hist: "mw_step C s s' \<Longrightarrow> length (mw_hist s) \<le> length (mw_hist s')"
  by (induction rule: mw_step.induct) simp_all

lemma mw_init_inv:
  assumes "mw_init C s"
  shows "mw_inv C s"
proof -
  have C: "valid_capacity C" "2 \<le> unat C" using assms valid_capacity_ge2 by (auto simp: mw_init_def)
  have mem: "mw_mem s = mw_mem_init" "mw_view s t = empty_view" "mw_pc s = (\<lambda>_. M_Idle)" for t using assms by (simp_all add: mw_init_def)
  have "mpmc_sys_init C (mw_abs C s)"
    using assms by (auto simp: mpmc_sys_init_def mw_init_def mw_abs_def mw_ring_def MpmcRingBuffer_ctor_def newest_def mw_mem_init_def)
  then have "mpmc_sys_inv C (mw_abs C s)" by (rule mpmc_init_inv)
  moreover have wf: "memory_wf mw_mem_init" by (simp add: memory_wf_def mw_mem_init_def view_wf_def empty_view_def)
  moreover have small: "unat (of_nat i :: u64) = i" if "i < unat C" for i using that unat_u64_less [of C] by (simp add: unat_of_nat_u64)
  have "vouched (unat C) i i 0" if "i < unat C" for i
    using that by (auto simp: vouched_def)
  then have "mw_mem_ok (unat C) mw_mem_init"
    using wf unfolding mw_mem_ok_def by (simp add: mw_mem_init_def newest_def small) (simp add: empty_view_def)
  moreover have "mw_counts (unat C) mw_mem_init (\<lambda>_. M_Idle)"
    unfolding mw_counts_def
  proof (intro allI conjI impI)
    fix p
    have "unat (newest mw_mem_init (Seq_No (p mod unat C))) = p mod unat C" using C(2) small [of "p mod unat C"] by (simp add: newest_def mw_mem_init_def)
    note q = this
    show "length (mw_mem_init (Payload (p mod unat C))) = Suc (p div unat C) + (if publishing_pos (\<lambda>_. M_Idle) p then 1 else 0)"
      if "unat (newest mw_mem_init (Seq_No (p mod unat C))) = p"
    proof -
      have "p < unat C" using that q C(2) mod_less_divisor [of "unat C" p] by simp
      then show ?thesis by (simp add: mw_mem_init_def publishing_pos_def)
    qed
    show "length (mw_mem_init (Payload (p mod unat C))) = Suc (Suc (p div unat C))"
      if "unat (newest mw_mem_init (Seq_No (p mod unat C))) = Suc p"
      using that q mod_less_eq_dividend [of p "unat C"] by simp
  qed
  ultimately show ?thesis using view_wf_empty [OF wf] by (simp add: mw_inv_def mem)
qed

interpretation mw_run: bounded_invariant_system
  "mw_init C" "mw_step C" "mw_inv C" "\<lambda>s. length (mw_hist s) + unat C" "2 ^ 63"
  for C
proof (unfold_locales, goal_cases)
  case (1 s) then show ?case by (rule mw_init_inv)
next
  case (2 s t) then show ?case using mw_step_hist by auto
next
  case (3 s t) then show ?case by (rule mw_step_inv)
qed


text \<open>
  C4. The orders of the MPMC ring are enough. With every load free to return an old message, in
  every reachable state: each completed \<open>pop\<close> returned the item that the push of its position
  stored, at ascending positions per thread and never the same position twice; every position
  below the newest read position has been popped or is being popped; and whenever a thread is
  about to copy a payload into or out of a slot, its view of that payload is the newest message,
  so that the copies do not race.
\<close>

theorem mpmc_weak_fifo:
  assumes "reachable (mw_init C) (mw_step C) s" "length (mw_hist s) + unat C < 2 ^ 63"
  shows "(\<forall>t. \<exists>ps. sorted_wrt (<) ps \<and> mw_got s t = map (\<lambda>p. (p, mw_hist s ! p)) ps) \<and>
    (\<forall>t u. t \<noteq> u \<longrightarrow> fst ` set (mw_got s t) \<inter> fst ` set (mw_got s u) = {}) \<and>
    (\<Union>t. fst ` set (mw_got s t) \<union> reads (mw_pc s t)) = {..<unat (newest (mw_mem s) R_Pos)} \<and>
    (\<forall>t pos. (\<exists>x. mw_pc s t = Push_Copy x pos) \<or> mw_pc s t = Pop_Copy pos \<longrightarrow>
       Suc (mw_view s t (Payload (slot_index C pos))) = length (mw_mem s (Payload (slot_index C pos))))"
proof (intro conjI allI impI)
  have inv: "mw_inv C s" by (rule mw_run.reachable_below_inv [OF assms])
  note L = mpmc_sys_invD(4) [OF mw_invD(1) [OF inv]]
  show "(\<Union>t. fst ` set (mw_got s t) \<union> reads (mw_pc s t)) = {..<unat (newest (mw_mem s) R_Pos)}"
    using ledgerD(3) [OF L] by (simp add: owned_by_def mw_ring_simps)
  show "fst ` set (mw_got s t) \<inter> fst ` set (mw_got s u) = {}" if "t \<noteq> u" for t u
    using ledgerD(2) [OF L that] by (auto simp: owned_by_def)
  show "\<exists>ps. sorted_wrt (<) ps \<and> mw_got s t = map (\<lambda>p. (p, mw_hist s ! p)) ps" for t
    using ledgerD(1) [OF L, of t] by auto
  show "Suc (mw_view s t (Payload (slot_index C pos))) = length (mw_mem s (Payload (slot_index C pos)))"
    if "(\<exists>x. mw_pc s t = Push_Copy x pos) \<or> mw_pc s t = Pop_Copy pos" for t pos
    using race_free [OF inv] that by blast
qed

definition mw_start :: mpmc_weak where
  "mw_start = \<lparr>mw_mem = mw_mem_init, mw_view = (\<lambda>_. empty_view), mw_pc = (\<lambda>_. M_Idle), mw_hist = [],
     mw_put = (\<lambda>_. []), mw_got = (\<lambda>_. [])\<rparr>"

lemma mw_claimed:
  "\<exists>s. reachable (mw_init 2) (mw_step 2) s \<and> mw_pc s 0 = Push_Copy 42 0 \<and> length (mw_hist s) = 1"
proof -
  let ?V = "(empty_view :: mpmc_loc view)"
  let ?s1 = "mw_start\<lparr>mw_view := (mw_view mw_start)(0 := ?V(W_Pos := 0)), mw_pc := (mw_pc mw_start)(0 := Push_Pos 42 0)\<rparr>"
  let ?V2 = "observe memory_order_acquire empty_view ((?V(W_Pos := 0))(Seq_No 0 := 0))"
  let ?s2 = "?s1\<lparr>mw_view := (mw_view ?s1)(0 := ?V2), mw_pc := (mw_pc ?s1)(0 := Push_Seq 42 0 0)\<rparr>"
  have ix: "slot_index 2 0 = 0" by (simp add: slot_index_def)
  have "mw_init 2 mw_start" by (simp add: mw_init_def mw_start_def valid_capacity_def)
  then have r0: "reachable (mw_init 2) (mw_step 2) mw_start" by (rule reach_init)
  have "mw_step 2 mw_start ?s1"
    by (rule mw_push_load [where k = 0])
      (simp_all add: mw_start_def atomic_load_def observe_def mw_mem_init_def empty_view_def)
  with r0 have r1: "reachable (mw_init 2) (mw_step 2) ?s1" by (rule reach_step)
  have "mw_step 2 ?s1 ?s2"
    by (rule mw_push_seq [where k = 0])
      (simp_all add: ix mw_start_def atomic_load_def mw_mem_init_def empty_view_def)
  with r1 have r2: "reachable (mw_init 2) (mw_step 2) ?s2" by (rule reach_step)
  have "\<exists>e m V. relaxed_cas W_Pos 0 False 0 ?s2 0 = Some (True, e, m, V)"
    by (simp add: atomic_compare_exchange_weak_def mw_start_def mw_mem_init_def observe_def empty_view_def split_beta surj_pair)
  then obtain e m V where c: "relaxed_cas W_Pos 0 False 0 ?s2 0 = Some (True, e, m, V)" by blast
  let ?s3 = "?s2\<lparr>mw_mem := m, mw_view := (mw_view ?s2)(0 := V), mw_pc := (mw_pc ?s2)(0 := Push_Copy 42 0),
      mw_hist := mw_hist ?s2 @ [42]\<rparr>"
  have "mw_step 2 ?s2 ?s3"
    by (rule mw_push_claim [OF _ _ c, where seq = 0]) (simp_all add: seq_diff_def)
  with r2 have "reachable (mw_init 2) (mw_step 2) ?s3" by (rule reach_step)
  moreover have "mw_pc ?s3 0 = Push_Copy 42 0" "length (mw_hist ?s3) = 1" by (simp_all add: mw_start_def)
  ultimately show ?thesis by blast
qed

theorem mpmc_weak_fifo_witness:
  "\<exists>s. reachable (mw_init 2) (mw_step 2) s \<and> mw_pc s 0 = Push_Copy 42 0 \<and>
     Suc (mw_view s 0 (Payload 0)) = length (mw_mem s (Payload 0))"
proof -
  obtain s where s: "reachable (mw_init 2) (mw_step 2) s" "mw_pc s 0 = Push_Copy 42 0" "length (mw_hist s) = 1"
    using mw_claimed by blast
  have "length (mw_hist s) + unat (2 :: u64) < 2 ^ 63" using s(3) by simp
  then have "Suc (mw_view s 0 (Payload (slot_index 2 0))) = length (mw_mem s (Payload (slot_index 2 0)))"
    using mpmc_weak_fifo [OF s(1)] s(2) by blast
  then show ?thesis using s by (auto simp: slot_index_def)
qed

end
