(* ===== verification/Channel_Registry.thy ===== *)
theory Channel_Registry
  imports Ipc_Message Shm_Ring_Buffer
begin

text \<open>
  \<open>ChannelRegistry\<close> of \<open>channel_registry.hpp\<close>: the table of channel entries in shared memory with its
  spinlock, the operations of publishers and consumers, opening and closing the segment, and
  \<open>discover\<close>. Channel names are C strings of at most 63 characters in an array of 64; names that agree
  on the first 63 characters are one channel. The table implements a bounded map from such keys to
  entries.
\<close>

section \<open>C strings\<close>

abbreviation NUL :: char where
  "NUL \<equiv> CHR 0x00"

definition c_str :: "string \<Rightarrow> string" where
  "c_str s = s @ [NUL]"

text \<open>
  \<open>strncmp(a, b, n) == 0\<close> and the \<open>n\<close> characters that \<open>strncpy\<close> writes. Neither reaches the end of its
  arguments here: the arrays have 64 characters and \<open>c_str\<close> ends in a zero.
\<close>

fun strncmp_eq :: "nat \<Rightarrow> string \<Rightarrow> string \<Rightarrow> bool" where
  "strncmp_eq 0 a b = True"
| "strncmp_eq (Suc n) (a # as) (b # bs) = (a = b \<and> (a = NUL \<or> strncmp_eq n as bs))"
| "strncmp_eq (Suc n) _ _ = False"

fun strncpy_chars :: "nat \<Rightarrow> string \<Rightarrow> string" where
  "strncpy_chars 0 src = []"
| "strncpy_chars (Suc n) (c # cs) = (if c = NUL then replicate (Suc n) NUL else c # strncpy_chars n cs)"
| "strncpy_chars (Suc n) [] = replicate (Suc n) NUL"

definition channel_key :: "string \<Rightarrow> string" where
  "channel_key s = take 63 (takeWhile (\<lambda>c. c \<noteq> NUL) s)"

section \<open>Entries and the table\<close>

record ChannelEntry =
  ce_name :: string
  ce_msg_type :: u16
  ce_sensor_id :: u16
  producer_pid :: "32 word"
  created_ns :: u64
  heartbeat_ns :: u64

definition ChannelEntry_init :: ChannelEntry where
  "ChannelEntry_init = \<lparr>ce_name = replicate 64 NUL, ce_msg_type = MsgType_code UNKNOWN, ce_sensor_id = 0,
     producer_pid = 0, created_ns = 0, heartbeat_ns = 0\<rparr>"

definition active :: "ChannelEntry \<Rightarrow> bool" where
  "active e \<longleftrightarrow> ce_name e ! 0 \<noteq> NUL"

definition kMaxChannels :: nat where
  "kMaxChannels = 64"

definition kShmName :: string where
  "kShmName = ''/lwipc_registry''"

record registry_mem =
  reg_lock :: u32
  reg_entries :: "ChannelEntry list"

definition registry_zero :: registry_mem where
  "registry_zero = \<lparr>reg_lock = 0, reg_entries = replicate kMaxChannels ChannelEntry_init\<rparr>"

definition sizeof_RegistryHeader :: nat where
  "sizeof_RegistryHeader = round_up 64 (4 + 60)"

definition sizeof_ChannelEntry :: nat where
  "sizeof_ChannelEntry = 96"

definition registry_total_size :: nat where
  "registry_total_size = sizeof_RegistryHeader + sizeof_ChannelEntry * kMaxChannels"

record ChannelRegistry =
  reg_fd :: int
  reg_header :: int   \<comment> \<open>address of the mapping, \<open>0\<close> for \<open>nullptr\<close>\<close>

section \<open>Operations\<close>

text \<open>The search loops: the first index whose entry satisfies the condition.\<close>

fun find_slot :: "('a \<Rightarrow> bool) \<Rightarrow> 'a list \<Rightarrow> nat option" where
  "find_slot P [] = None"
| "find_slot P (e # es) = (if P e then Some 0 else map_option Suc (find_slot P es))"

definition matches :: "string \<Rightarrow> ChannelEntry \<Rightarrow> bool" where
  "matches name e \<longleftrightarrow> active e \<and> strncmp_eq 63 (ce_name e) (c_str name)"

definition refresh :: "u64 \<Rightarrow> ChannelEntry \<Rightarrow> ChannelEntry" where
  "refresh now e = e\<lparr>heartbeat_ns := now\<rparr>"

definition copy_name :: "string \<Rightarrow> ChannelEntry \<Rightarrow> ChannelEntry" where
  "copy_name name e =
     e\<lparr>ce_name := (strncpy_chars 63 (c_str name) @ drop 63 (ce_name e))[63 := NUL]\<rparr>"

definition set_fields :: "u64 \<Rightarrow> 32 word \<Rightarrow> MsgType \<Rightarrow> u16 \<Rightarrow> ChannelEntry \<Rightarrow> ChannelEntry" where
  "set_fields now pid ty sid e = e\<lparr>ce_msg_type := MsgType_code ty, ce_sensor_id := sid,
     producer_pid := pid, created_ns := now, heartbeat_ns := now\<rparr>"

definition register_entries ::
  "u64 \<Rightarrow> 32 word \<Rightarrow> string \<Rightarrow> MsgType \<Rightarrow> u16 \<Rightarrow> ChannelEntry list \<Rightarrow> bool \<times> ChannelEntry list" where
  "register_entries now pid name ty sid es =
     (case find_slot (matches name) es of
        Some i \<Rightarrow> (True, es[i := refresh now (es ! i)])
      | None \<Rightarrow>
          (case find_slot (\<lambda>e. \<not> active e) es of
             Some i \<Rightarrow> (True, es[i := set_fields now pid ty sid (copy_name name (es ! i))])
           | None \<Rightarrow> (False, es)))"

definition unregister_entries :: "string \<Rightarrow> ChannelEntry list \<Rightarrow> ChannelEntry list" where
  "unregister_entries name es =
     (case find_slot (matches name) es of
        Some i \<Rightarrow> es[i := ChannelEntry_init]
      | None \<Rightarrow> es)"

definition touch_entries :: "u64 \<Rightarrow> string \<Rightarrow> ChannelEntry list \<Rightarrow> ChannelEntry list" where
  "touch_entries now name es =
     (case find_slot (matches name) es of
        Some i \<Rightarrow> es[i := refresh now (es ! i)]
      | None \<Rightarrow> es)"

text \<open>
  \<open>SpinLockGuard\<close> for a caller that runs alone: each attempt of the loop may fail spuriously, and the
  list says which do. \<open>None\<close>: still spinning when the list ends.
\<close>

fun spin_lock :: "bool list \<Rightarrow> u32 \<Rightarrow> u32 option" where
  "spin_lock [] l = None"
| "spin_lock (spurious # sps) l = (if l = 0 \<and> \<not> spurious then Some 1 else spin_lock sps l)"

definition spin_unlock :: "registry_mem \<Rightarrow> registry_mem" where
  "spin_unlock mem = mem\<lparr>reg_lock := 0\<rparr>"

definition register_channel ::
  "bool list \<Rightarrow> u64 \<Rightarrow> 32 word \<Rightarrow> ChannelRegistry \<Rightarrow> string \<Rightarrow> MsgType \<Rightarrow> u16 \<Rightarrow> registry_mem \<Rightarrow>
     (bool \<times> registry_mem) option" where
  "register_channel sps now pid h name ty sid mem =
     (if reg_header h = 0 then Some (False, mem)
      else case spin_lock sps (reg_lock mem) of
        None \<Rightarrow> None
      | Some l \<Rightarrow>
          (let mem1 = mem\<lparr>reg_lock := l\<rparr>;
               (ok, es) = register_entries now pid name ty sid (reg_entries mem1)
           in Some (ok, spin_unlock (mem1\<lparr>reg_entries := es\<rparr>))))"

definition unregister_channel ::
  "bool list \<Rightarrow> ChannelRegistry \<Rightarrow> string \<Rightarrow> registry_mem \<Rightarrow> registry_mem option" where
  "unregister_channel sps h name mem =
     (if reg_header h = 0 then Some mem
      else case spin_lock sps (reg_lock mem) of
        None \<Rightarrow> None
      | Some l \<Rightarrow>
          (let mem1 = mem\<lparr>reg_lock := l\<rparr>
           in Some (spin_unlock (mem1\<lparr>reg_entries := unregister_entries name (reg_entries mem1)\<rparr>))))"

definition touch :: "u64 \<Rightarrow> ChannelRegistry \<Rightarrow> string \<Rightarrow> registry_mem \<Rightarrow> registry_mem" where
  "touch now h name mem =
     (if reg_header h = 0 then mem
      else mem\<lparr>reg_entries := touch_entries now name (reg_entries mem)\<rparr>)"

definition list_channels :: "ChannelRegistry \<Rightarrow> registry_mem \<Rightarrow> ChannelEntry list" where
  "list_channels h mem = (if reg_header h = 0 then [] else filter active (reg_entries mem))"

definition list_type :: "ChannelRegistry \<Rightarrow> MsgType \<Rightarrow> registry_mem \<Rightarrow> ChannelEntry list" where
  "list_type h ty mem = filter (\<lambda>e. ce_msg_type e = MsgType_code ty) (list_channels h mem)"

definition contains :: "ChannelRegistry \<Rightarrow> string \<Rightarrow> registry_mem \<Rightarrow> bool" where
  "contains h name mem =
     (if reg_header h = 0 then False else find_slot (matches name) (reg_entries mem) \<noteq> None)"

definition open_or_create :: "os \<Rightarrow> calls \<Rightarrow> ChannelRegistry \<times> calls" where
  "open_or_create os tr =
     (let c = Shm_open kShmName True True; d = os tr c; tr1 = tr @ [c]
      in if d < 0 then (\<lparr>reg_fd = d, reg_header = 0\<rparr>, tr1)
         else let c2 = Ftruncate d registry_total_size; tr2 = tr1 @ [c2]
         in if os tr1 c2 \<noteq> 0 then (\<lparr>reg_fd = -1, reg_header = 0\<rparr>, tr2 @ [Close d])
         else let c3 = Mmap d registry_total_size; mem = os tr2 c3; tr3 = tr2 @ [c3]
         in if mem = -1 then (\<lparr>reg_fd = -1, reg_header = 0\<rparr>, tr3 @ [Close d])
         else (\<lparr>reg_fd = d, reg_header = mem\<rparr>, tr3))"

definition ChannelRegistry_dtor :: "ChannelRegistry \<Rightarrow> calls \<Rightarrow> calls" where
  "ChannelRegistry_dtor h tr =
     (let tr1 = (if reg_header h \<noteq> 0 then tr @ [Munmap (reg_header h) registry_total_size] else tr)
      in if reg_fd h \<ge> 0 then tr1 @ [Close (reg_fd h)] else tr1)"

text \<open>\<open>names.emplace_back(e.name)\<close> reads the array up to its first zero.\<close>

definition discover :: "os \<Rightarrow> MsgType \<Rightarrow> registry_mem \<Rightarrow> calls \<Rightarrow> string list \<times> calls" where
  "discover os ty mem tr =
     (let (reg, tr1) = open_or_create os tr;
          names = map (\<lambda>e. takeWhile (\<lambda>c. c \<noteq> NUL) (ce_name e)) (list_type reg ty mem)
      in (names, ChannelRegistry_dtor reg tr1))"

section \<open>Names\<close>

abbreviation entry_key :: "ChannelEntry \<Rightarrow> string" where
  "entry_key e \<equiv> channel_key (ce_name e)"

lemma strncmp_eq_take:
  assumes "n \<le> length a \<or> NUL \<in> set a" "n \<le> length b \<or> NUL \<in> set b"
  shows "strncmp_eq n a b \<longleftrightarrow>
    take n (takeWhile (\<lambda>c. c \<noteq> NUL) a) = take n (takeWhile (\<lambda>c. c \<noteq> NUL) b)"
  using assms by (induction n a b rule: strncmp_eq.induct) auto

lemma takeWhile_c_str: "takeWhile (\<lambda>c. c \<noteq> NUL) (c_str s) = takeWhile (\<lambda>c. c \<noteq> NUL) s"
  by (induction s) (auto simp: c_str_def)

lemma strncmp_c_str:
  "63 \<le> length a \<Longrightarrow> strncmp_eq 63 a (c_str s) \<longleftrightarrow> channel_key a = channel_key s"
  using strncmp_eq_take [of 63 a "c_str s"] by (simp add: channel_key_def takeWhile_c_str) (simp add: c_str_def)

lemma strncpy_chars_eq:
  "strncpy_chars n s = take n (takeWhile (\<lambda>c. c \<noteq> NUL) s @ replicate n NUL)"
  by (induction n s rule: strncpy_chars.induct) (auto simp: replicate_append_same [symmetric])

text \<open>The array that holds a key: the rest of the 64 characters is zero.\<close>

definition name_array :: "string \<Rightarrow> string" where
  "name_array k = k @ replicate (64 - length k) NUL"

lemma length_channel_key: "length (channel_key s) \<le> 63"
  by (simp add: channel_key_def)

lemma channel_key_NUL: "NUL \<notin> set (channel_key s)"
  by (auto simp: channel_key_def dest: in_set_takeD set_takeWhileD)

lemma takeWhile_name_array:
  assumes "NUL \<notin> set k"
  shows "takeWhile (\<lambda>c. c \<noteq> NUL) (name_array k) = k"
proof -
  have "takeWhile (\<lambda>c. c \<noteq> NUL) (k @ replicate n NUL) = k" for n
    using assms by (induction k) (cases n; auto)+
  then show ?thesis by (simp only: name_array_def)
qed

lemma channel_key_name_array [simp]: "channel_key (name_array (channel_key s)) = channel_key s"
  using length_channel_key [of s]
  by (simp add: channel_key_def [of "name_array _"] takeWhile_name_array channel_key_NUL)

lemma channel_key_idem [simp]: "channel_key (channel_key s) = channel_key s"
proof -
  have "takeWhile (\<lambda>c. c \<noteq> NUL) (channel_key s) = channel_key s"
    unfolding takeWhile_eq_all_conv using channel_key_NUL [of s] by auto
  then have "channel_key (channel_key s) = take 63 (channel_key s)" by (metis channel_key_def)
  then show ?thesis by (simp only: take_all [OF length_channel_key])
qed

lemma length_name_array [simp]: "length (name_array (channel_key s)) = 64"
  using length_channel_key [of s] by (simp add: name_array_def)

lemma strncpy_key:
  "strncpy_chars 63 (c_str name) = channel_key name @ replicate (63 - length (channel_key name)) NUL"
  unfolding strncpy_chars_eq takeWhile_c_str channel_key_def take_append take_replicate
  by (simp add: min_def)

definition name_ok :: "string \<Rightarrow> bool" where
  "name_ok s \<longleftrightarrow> length s = 64 \<and> s ! 63 = NUL"

lemma name_ok_length: "name_ok s \<Longrightarrow> length s = 64"
  by (simp add: name_ok_def)

lemma name_ok_array [simp]: "name_ok (name_array (channel_key s))"
  using length_channel_key [of s] length_name_array [of s] by (simp add: name_ok_def name_array_def nth_append)

lemma name_ok_c_string:
  assumes "name_ok s"
  shows "takeWhile (\<lambda>c. c \<noteq> NUL) s = channel_key s"
proof -
  let ?n = "length (takeWhile (\<lambda>c. c \<noteq> NUL) s)"
  have "\<not> 63 < ?n"
  proof
    assume "63 < ?n"
    then have "takeWhile (\<lambda>c. c \<noteq> NUL) s ! 63 \<noteq> NUL" using nth_mem set_takeWhileD by fastforce
    then show False using assms takeWhile_nth [OF \<open>63 < ?n\<close>] by (simp add: name_ok_def)
  qed
  then show ?thesis by (simp add: channel_key_def)
qed

lemma copy_name_array:
  assumes "length (ce_name e) = 64"
  shows "copy_name name e = e\<lparr>ce_name := name_array (channel_key name)\<rparr>"
proof -
  define k where "k = channel_key name"
  have k: "length k \<le> 63" unfolding k_def by (rule length_channel_key)
  then have z: "64 - length k = Suc (63 - length k)" by simp
  have "length (drop 63 (ce_name e)) = 1" using assms by simp
  then obtain x where x: "drop 63 (ce_name e) = [x]" by (metis One_nat_def length_0_conv length_Suc_conv)
  have "length (k @ replicate (63 - length k) NUL) = 63" using k by simp
  then have "((k @ replicate (63 - length k) NUL) @ [x])[63 := NUL] = (k @ replicate (63 - length k) NUL) @ [NUL]"
    by (metis list_update_length)
  also have "\<dots> = name_array k" unfolding name_array_def z by (simp add: replicate_append_same)
  finally show ?thesis unfolding copy_name_def strncpy_key x k_def by (rule arg_cong)
qed

section \<open>The table as a map\<close>

lemma find_slot_None: "find_slot P es = None \<longleftrightarrow> (\<forall>i < length es. \<not> P (es ! i))"
  by (induction es) (auto simp: All_less_Suc2)

lemma find_slot_Some:
  "find_slot P es = Some i \<longleftrightarrow> i < length es \<and> P (es ! i) \<and> (\<forall>j < i. \<not> P (es ! j))"
proof (induction es arbitrary: i)
  case (Cons e es)
  show ?case using Cons.IH by (cases i) (auto simp: All_less_Suc2)
qed simp

definition lookup :: "ChannelEntry list \<Rightarrow> string \<Rightarrow> ChannelEntry option" where
  "lookup es k = map_option ((!) es) (find_slot (\<lambda>e. active e \<and> entry_key e = k) es)"

definition table_ok :: "ChannelEntry list \<Rightarrow> bool" where
  "table_ok es \<longleftrightarrow> length es = kMaxChannels \<and> (\<forall>i < length es. name_ok (ce_name (es ! i))) \<and>
     (\<forall>i < length es. \<forall>j < length es.
        active (es ! i) \<and> active (es ! j) \<and> entry_key (es ! i) = entry_key (es ! j) \<longrightarrow> i = j)"

lemma table_okD:
  assumes "table_ok es"
  shows "length es = kMaxChannels" "i < length es \<Longrightarrow> name_ok (ce_name (es ! i))"
    "i < length es \<Longrightarrow> j < length es \<Longrightarrow> active (es ! i) \<Longrightarrow> active (es ! j) \<Longrightarrow>
      entry_key (es ! i) = entry_key (es ! j) \<Longrightarrow> i = j"
  using assms unfolding table_ok_def by blast+

lemma active_iff_key: "0 < length (ce_name e) \<Longrightarrow> active e \<longleftrightarrow> entry_key e \<noteq> []"
  by (cases "ce_name e") (auto simp: active_def channel_key_def)

lemma matches_iff:
  "name_ok (ce_name e) \<Longrightarrow> matches name e \<longleftrightarrow> active e \<and> entry_key e = channel_key name"
  by (simp add: matches_def strncmp_c_str name_ok_length)

lemma lookup_Some:
  assumes "table_ok es"
  shows "lookup es k = Some e \<longleftrightarrow> (\<exists>i < length es. active (es ! i) \<and> entry_key (es ! i) = k \<and> es ! i = e)"
    (is "?l \<longleftrightarrow> ?r")
proof
  show "?l \<Longrightarrow> ?r" by (auto simp: lookup_def find_slot_Some)
next
  assume ?r
  then obtain i where i: "i < length es" "active (es ! i)" "entry_key (es ! i) = k" "es ! i = e" by blast
  have "find_slot (\<lambda>e. active e \<and> entry_key e = k) es = Some i"
    unfolding find_slot_Some using i table_okD(3) [OF assms] by (metis less_irrefl less_trans)
  then show ?l using i by (simp add: lookup_def)
qed

lemma lookup_None:
  "lookup es k = None \<longleftrightarrow> (\<forall>i < length es. active (es ! i) \<longrightarrow> entry_key (es ! i) \<noteq> k)"
  by (auto simp: lookup_def find_slot_None)

lemma find_matches:
  assumes "table_ok es"
  shows "find_slot (matches name) es = Some i \<longleftrightarrow>
    i < length es \<and> active (es ! i) \<and> entry_key (es ! i) = channel_key name"
proof -
  have "matches name (es ! j) \<longleftrightarrow> active (es ! j) \<and> entry_key (es ! j) = channel_key name" if "j < length es" for j
    using table_okD(2) [OF assms that] by (rule matches_iff)
  then show ?thesis unfolding find_slot_Some using table_okD(3) [OF assms] by (metis less_irrefl less_trans)
qed

lemma find_matches_None:
  "table_ok es \<Longrightarrow> find_slot (matches name) es = None \<longleftrightarrow> lookup es (channel_key name) = None"
  using table_okD(2) by (auto simp: find_slot_None lookup_None matches_iff)

lemma dom_lookup_card:
  assumes "table_ok es"
  shows "card (dom (lookup es)) = card {i. i < length es \<and> active (es ! i)}"
proof -
  have "dom (lookup es) = (\<lambda>i. entry_key (es ! i)) ` {i. i < length es \<and> active (es ! i)}"
    by (auto simp: dom_def image_def lookup_Some [OF assms] simp del: not_None_eq)
  moreover have "inj_on (\<lambda>i. entry_key (es ! i)) {i. i < length es \<and> active (es ! i)}"
    using table_okD(3) [OF assms] by (auto simp: inj_on_def)
  ultimately show ?thesis by (simp add: card_image)
qed

lemma room_iff:
  assumes "table_ok es"
  shows "card (dom (lookup es)) < kMaxChannels \<longleftrightarrow> find_slot (\<lambda>e. \<not> active e) es \<noteq> None"
proof -
  let ?A = "{i. i < length es \<and> active (es ! i)}"
  have sub: "?A \<subseteq> {..<length es}" by auto
  have "card ?A < length es \<longleftrightarrow> ?A \<noteq> {..<length es}"
    using sub by (metis card_lessThan card_subset_eq finite_lessThan nat_less_le card_mono)
  also have "\<dots> \<longleftrightarrow> (\<exists>i < length es. \<not> active (es ! i))" by auto
  finally show ?thesis
    using dom_lookup_card [OF assms] table_okD(1) [OF assms] by (auto simp: find_slot_None)
qed

text \<open>The three ways in which an operation changes one entry.\<close>

lemma update_active:
  assumes ok: "table_ok es" and i: "i < length es" and e: "active e" "name_ok (ce_name e)"
    and other: "\<And>j. j < length es \<Longrightarrow> j \<noteq> i \<Longrightarrow> active (es ! j) \<Longrightarrow> entry_key (es ! j) \<noteq> entry_key e"
    and same: "active (es ! i) \<Longrightarrow> entry_key (es ! i) = entry_key e"
  shows "table_ok (es[i := e])" "lookup (es[i := e]) = (lookup es)(entry_key e \<mapsto> e)"
proof -
  show ok': "table_ok (es[i := e])"
    unfolding table_ok_def
    using table_okD [OF ok] i e other by (auto simp: nth_list_update) metis
  show "lookup (es[i := e]) = (lookup es)(entry_key e \<mapsto> e)"
  proof (rule ext, rule option_ext)
    fix k v
    consider "k = entry_key e" | "k \<noteq> entry_key e" by blast
    then show "lookup (es[i := e]) k = Some v \<longleftrightarrow> ((lookup es)(entry_key e \<mapsto> e)) k = Some v"
    proof cases
      case 1
      then have "lookup (es[i := e]) k = Some e" unfolding lookup_Some [OF ok'] using i e by (metis length_list_update nth_list_update_eq)
      then show ?thesis using 1 by simp
    next
      case 2
      have "(\<exists>j < length es. active (es[i := e] ! j) \<and> entry_key (es[i := e] ! j) = k \<and> es[i := e] ! j = v) \<longleftrightarrow>
          (\<exists>j < length es. active (es ! j) \<and> entry_key (es ! j) = k \<and> es ! j = v)"
        using 2 i same by (metis nth_list_update)
      then show ?thesis using 2 by (simp add: lookup_Some [OF ok'] lookup_Some [OF ok])
    qed
  qed
qed

lemma update_inactive:
  assumes ok: "table_ok es" and i: "i < length es" and e: "\<not> active e" "name_ok (ce_name e)"
  shows "table_ok (es[i := e])"
    "lookup (es[i := e]) = (if active (es ! i) then (lookup es)(entry_key (es ! i) := None) else lookup es)"
proof -
  show ok': "table_ok (es[i := e])"
    unfolding table_ok_def using table_okD [OF ok] i e by (simp add: nth_list_update)
  show "lookup (es[i := e]) = (if active (es ! i) then (lookup es)(entry_key (es ! i) := None) else lookup es)"
  proof (rule ext, rule option_ext)
    fix k v
    have "(\<exists>j < length es. active (es[i := e] ! j) \<and> entry_key (es[i := e] ! j) = k \<and> es[i := e] ! j = v) \<longleftrightarrow>
        (\<exists>j < length es. active (es ! j) \<and> entry_key (es ! j) = k \<and> es ! j = v) \<and>
        \<not> (active (es ! i) \<and> entry_key (es ! i) = k)"
      using i e table_okD(3) [OF ok] by (metis nth_list_update)
    then show "lookup (es[i := e]) k = Some v \<longleftrightarrow>
        (if active (es ! i) then (lookup es)(entry_key (es ! i) := None) else lookup es) k = Some v"
      by (auto simp: lookup_Some [OF ok'] lookup_Some [OF ok])
  qed
qed

lemma update_refresh:
  assumes ok: "table_ok es" and i: "i < length es"
  shows "table_ok (es[i := refresh now (es ! i)])"
    "active (es ! i) \<Longrightarrow>
      lookup (es[i := refresh now (es ! i)]) = (lookup es)(entry_key (es ! i) \<mapsto> refresh now (es ! i))"
    "\<not> active (es ! i) \<Longrightarrow> lookup (es[i := refresh now (es ! i)]) = lookup es"
proof -
  let ?e = "refresh now (es ! i)"
  have e: "active ?e = active (es ! i)" "ce_name ?e = ce_name (es ! i)" "name_ok (ce_name ?e)"
    using table_okD(2) [OF ok i] by (simp_all add: refresh_def active_def)
  have other: "entry_key (es ! j) \<noteq> entry_key ?e" if "active ?e" "j < length es" "j \<noteq> i" "active (es ! j)" for j
    using table_okD(3) [OF ok _ i] that e by metis
  show "table_ok (es[i := ?e])"
    using update_active(1) [OF ok i _ e(3)] update_inactive(1) [OF ok i _ e(3)] other e by metis
  show "lookup (es[i := ?e]) = (lookup es)(entry_key (es ! i) \<mapsto> ?e)" if "active (es ! i)"
    using update_active(2) [OF ok i _ e(3)] other e that by metis
  show "lookup (es[i := ?e]) = lookup es" if "\<not> active (es ! i)"
    using update_inactive(2) [OF ok i _ e(3)] e that by simp
qed

section \<open>The operations on the map\<close>

text \<open>The entry that a registration leaves under its key.\<close>

definition channel_entry :: "string \<Rightarrow> u64 \<times> 32 word \<times> MsgType \<times> u16 \<Rightarrow> ChannelEntry option \<Rightarrow> ChannelEntry" where
  "channel_entry name = (\<lambda>(now, pid, ty, sid) old.
     case old of
       Some e \<Rightarrow> e\<lparr>heartbeat_ns := now\<rparr>
     | None \<Rightarrow> \<lparr>ce_name = name_array (channel_key name), ce_msg_type = MsgType_code ty, ce_sensor_id = sid,
         producer_pid = pid, created_ns = now, heartbeat_ns = now\<rparr>)"

lemma lookup_found:
  assumes "table_ok es" "find_slot (matches name) es = Some i"
  shows "i < length es" "active (es ! i)" "entry_key (es ! i) = channel_key name"
    "lookup es (channel_key name) = Some (es ! i)"
  using assms(2) unfolding find_matches [OF assms(1)] lookup_Some [OF assms(1)] by auto

lemma register_present:
  assumes ok: "table_ok es" and k: "lookup es (channel_key name) = Some e"
  shows "\<exists>es'. register_entries now pid name ty sid es = (True, es') \<and> table_ok es' \<and>
    lookup es' = (lookup es)(channel_key name \<mapsto> e\<lparr>heartbeat_ns := now\<rparr>)"
proof -
  obtain i where i: "find_slot (matches name) es = Some i" using k find_matches_None [OF ok, of name] by fastforce
  note f = lookup_found [OF ok i]
  show ?thesis
    using f k update_refresh [OF ok f(1), of now] by (simp add: register_entries_def i refresh_def del: fun_upd_apply)
qed

lemma register_new:
  assumes ok: "table_ok es" and k: "lookup es (channel_key name) = None" "channel_key name \<noteq> []"
    and room: "card (dom (lookup es)) < kMaxChannels"
  shows "\<exists>es'. register_entries now pid name ty sid es = (True, es') \<and> table_ok es' \<and>
    lookup es' = (lookup es)(channel_key name \<mapsto> channel_entry name (now, pid, ty, sid) None)"
proof -
  obtain i where i: "find_slot (\<lambda>e. \<not> active e) es = Some i" using room unfolding room_iff [OF ok] by blast
  then have il: "i < length es" and ia: "\<not> active (es ! i)" by (simp_all add: find_slot_Some)
  let ?e = "channel_entry name (now, pid, ty, sid) None"
  have e: "set_fields now pid ty sid (copy_name name (es ! i)) = ?e"
    by (simp add: copy_name_array name_ok_length [OF table_okD(2) [OF ok il]] set_fields_def channel_entry_def)
  have key: "entry_key ?e = channel_key name" and len: "name_ok (ce_name ?e)"
    by (simp_all add: channel_entry_def)
  have act: "active ?e" using active_iff_key [of ?e] key name_ok_length [OF len] k(2) by simp
  have "entry_key (es ! j) \<noteq> entry_key ?e" if "j < length es" "active (es ! j)" for j
    using k(1) that unfolding lookup_None key by blast
  then have "table_ok (es[i := ?e])" "lookup (es[i := ?e]) = (lookup es)(channel_key name \<mapsto> ?e)"
    using update_active [OF ok il act len] ia key by metis+
  then show ?thesis
    using find_matches_None [OF ok, of name] k(1) by (simp add: register_entries_def i e del: fun_upd_apply)
qed

lemma register_full:
  assumes ok: "table_ok es" and k: "lookup es (channel_key name) = None"
    and full: "\<not> card (dom (lookup es)) < kMaxChannels"
  shows "register_entries now pid name ty sid es = (False, es)"
  using find_matches_None [OF ok, of name] k full unfolding room_iff [OF ok] by (simp add: register_entries_def)

lemma lookup_unregister:
  assumes ok: "table_ok es"
  shows "table_ok (unregister_entries name es) \<and>
    lookup (unregister_entries name es) = (lookup es)(channel_key name := None)"
proof (cases "find_slot (matches name) es")
  case None
  with ok find_matches_None [OF ok, of name] show ?thesis
    by (simp add: unregister_entries_def fun_upd_idem)
next
  case (Some i)
  note f = lookup_found [OF ok Some]
  have "\<not> active ChannelEntry_init" "name_ok (ce_name ChannelEntry_init)"
    by (simp_all add: active_def ChannelEntry_init_def name_ok_def)
  from update_inactive [OF ok f(1) this] f show ?thesis by (simp add: unregister_entries_def Some)
qed

lemma lookup_touch:
  assumes ok: "table_ok es"
  shows "table_ok (touch_entries now name es) \<and>
    lookup (touch_entries now name es) =
      (lookup es)(channel_key name := map_option (refresh now) (lookup es (channel_key name)))"
proof (cases "find_slot (matches name) es")
  case None
  with ok find_matches_None [OF ok, of name] show ?thesis
    by (simp add: touch_entries_def fun_upd_idem)
next
  case (Some i)
  note f = lookup_found [OF ok Some]
  from update_refresh [OF ok f(1), of now] f show ?thesis by (simp add: touch_entries_def Some del: fun_upd_apply)
qed

interpretation table: bounded_map table_ok lookup kMaxChannels channel_key "\<lambda>name. channel_key name \<noteq> []"
  "\<lambda>name (now, pid, ty, sid). register_entries now pid name ty sid" unregister_entries
  "\<lambda>name now. touch_entries now name" channel_entry refresh
proof unfold_locales
  fix es name and a :: "u64 \<times> 32 word \<times> MsgType \<times> u16"
  assume ok: "table_ok es" and n: "channel_key name \<noteq> []"
    and r: "channel_key name \<in> dom (lookup es) \<or> card (dom (lookup es)) < kMaxChannels"
  obtain now pid ty sid where a: "a = (now, pid, ty, sid)" by (cases a)
  show "\<exists>es'. (case a of (now, pid, ty, sid) \<Rightarrow> register_entries now pid name ty sid) es = (True, es') \<and> table_ok es' \<and>
      lookup es' = (lookup es)(channel_key name \<mapsto> channel_entry name a (lookup es (channel_key name)))"
  proof (cases "lookup es (channel_key name)")
    case None
    with r have "card (dom (lookup es)) < kMaxChannels" by auto
    from register_new [OF ok None n this, of now pid ty sid] None show ?thesis by (simp add: a)
  next
    case (Some e)
    from register_present [OF ok Some, of now pid ty sid] Some show ?thesis by (simp add: a channel_entry_def)
  qed
next
  fix es name and a :: "u64 \<times> 32 word \<times> MsgType \<times> u16"
  assume "table_ok es" "channel_key name \<notin> dom (lookup es)" "\<not> card (dom (lookup es)) < kMaxChannels"
  then show "(case a of (now, pid, ty, sid) \<Rightarrow> register_entries now pid name ty sid) es = (False, es)"
    by (cases a) (simp add: register_full domIff)
qed (use lookup_unregister lookup_touch in blast)+

section \<open>Runs of the operations\<close>

type_synonym channel_op = "(string, u64 \<times> 32 word \<times> MsgType \<times> u16, u64) map_op"

text \<open>Each locked operation comes with the pattern of spurious failures its lock meets.\<close>

fun registry_run :: "ChannelRegistry \<Rightarrow> (bool list \<times> channel_op) list \<Rightarrow> registry_mem \<Rightarrow> (bool list \<times> registry_mem) option" where
  "registry_run h [] mem = Some ([], mem)"
| "registry_run h ((sps, Put name (now, pid, ty, sid)) # ops) mem =
     (case register_channel sps now pid h name ty sid mem of
        None \<Rightarrow> None
      | Some (ok, mem') \<Rightarrow> map_option (\<lambda>(oks, m). (ok # oks, m)) (registry_run h ops mem'))"
| "registry_run h ((sps, Del name) # ops) mem =
     (case unregister_channel sps h name mem of None \<Rightarrow> None | Some mem' \<Rightarrow> registry_run h ops mem')"
| "registry_run h ((sps, Tch name now) # ops) mem = registry_run h ops (touch now h name mem)"

text \<open>The specification: a map from keys to entries with room for 64 of them.\<close>

fun channel_spec :: "channel_op list \<Rightarrow> (string \<Rightarrow> ChannelEntry option) \<Rightarrow> bool list \<times> (string \<Rightarrow> ChannelEntry option)" where
  "channel_spec [] m = ([], m)"
| "channel_spec (Put name a # ops) m =
     (let k = channel_key name
      in if m k \<noteq> None \<or> card (dom m) < kMaxChannels
         then (case channel_spec ops (m(k \<mapsto> channel_entry name a (m k))) of (oks, m') \<Rightarrow> (True # oks, m'))
         else (case channel_spec ops m of (oks, m') \<Rightarrow> (False # oks, m')))"
| "channel_spec (Del name # ops) m = channel_spec ops (m(channel_key name := None))"
| "channel_spec (Tch name now # ops) m =
     channel_spec ops (m(channel_key name := map_option (refresh now) (m (channel_key name))))"

lemma table_spec_run: "table.spec_run ops m = channel_spec ops m"
  by (induction ops m rule: channel_spec.induct)
    (simp_all add: Let_def domIff del: fun_upd_apply split: prod.splits)

lemma spin_lock_free: "spin_lock sps l = (if l = 0 \<and> False \<in> set sps then Some 1 else None)"
  by (induction sps) auto

lemma register_channel_free:
  assumes "reg_header h \<noteq> 0" "reg_lock mem = 0" "False \<in> set sps"
  shows "register_channel sps now pid h name ty sid mem =
    Some (fst (register_entries now pid name ty sid (reg_entries mem)),
      mem\<lparr>reg_entries := snd (register_entries now pid name ty sid (reg_entries mem))\<rparr>)"
  using assms by (simp add: register_channel_def spin_lock_free spin_unlock_def split_beta)

lemma unregister_channel_free:
  assumes "reg_header h \<noteq> 0" "reg_lock mem = 0" "False \<in> set sps"
  shows "unregister_channel sps h name mem = Some (mem\<lparr>reg_entries := unregister_entries name (reg_entries mem)\<rparr>)"
  using assms by (simp add: unregister_channel_def spin_lock_free spin_unlock_def)

lemma registry_run_table:
  assumes h: "reg_header h \<noteq> 0" and "reg_lock mem = 0" "\<forall>sps \<in> fst ` set ops. False \<in> set sps"
  shows "registry_run h ops mem =
    (case table.run (map snd ops) (reg_entries mem) of (oks, es) \<Rightarrow> Some (oks, mem\<lparr>reg_entries := es\<rparr>))"
  using assms
proof (induction h ops mem rule: registry_run.induct)
  case (2 h sps name now pid ty sid ops mem)
  obtain ok es where r: "register_entries now pid name ty sid (reg_entries mem) = (ok, es)" by fastforce
  have "register_channel sps now pid h name ty sid mem = Some (ok, mem\<lparr>reg_entries := es\<rparr>)"
    using register_channel_free [OF "2.prems"(1,2)] "2.prems"(3) by (simp add: r)
  with "2.IH" [OF this refl "2.prems"(1)] "2.prems"(2,3) show ?case
    by (simp add: r split: prod.splits)
next
  case (3 h sps name ops mem)
  then show ?case by (simp add: unregister_channel_free)
next
  case (4 h sps name now ops mem)
  then show ?case by (simp add: touch_def)
qed simp

lemma registry_zero_ok: "table_ok (reg_entries registry_zero)" "lookup (reg_entries registry_zero) = Map.empty"
proof -
  have "\<not> active ChannelEntry_init" "name_ok (ce_name ChannelEntry_init)"
    by (simp_all add: active_def ChannelEntry_init_def name_ok_def)
  then show "table_ok (reg_entries registry_zero)" "lookup (reg_entries registry_zero) = Map.empty"
    by (auto simp: registry_zero_def table_ok_def lookup_None)
qed

lemma contains_iff:
  assumes "table_ok (reg_entries mem)" "reg_header h \<noteq> 0"
  shows "contains h name mem \<longleftrightarrow> channel_key name \<in> dom (lookup (reg_entries mem))"
  using assms find_matches_None [OF assms(1), of name] by (simp add: contains_def domIff)

lemma list_channels_ran:
  assumes ok: "table_ok (reg_entries mem)" and "reg_header h \<noteq> 0"
  shows "set (list_channels h mem) = ran (lookup (reg_entries mem))"
proof -
  have "e \<in> set (filter active (reg_entries mem)) \<longleftrightarrow> (\<exists>k. lookup (reg_entries mem) k = Some e)" for e
    unfolding lookup_Some [OF ok] by (auto simp: in_set_conv_nth)
  then show ?thesis using assms(2) by (auto simp: list_channels_def ran_def)
qed

lemma distinct_filter_nth:
  assumes "\<forall>i < length es. \<forall>j < length es. P (es ! i) \<and> P (es ! j) \<and> f (es ! i) = f (es ! j) \<longrightarrow> i = j"
  shows "distinct (map f (filter P es))"
  using assms
proof (induction es)
  case (Cons e es)
  have "distinct (map f (filter P es))"
    by (rule Cons.IH) (use Cons.prems in \<open>force simp: All_less_Suc2\<close>)
  moreover have "f e \<noteq> f e'" if e': "P e" "e' \<in> set es" "P e'" for e'
  proof -
    obtain j where j: "j < length es" "es ! j = e'" using e'(2) by (auto simp: in_set_conv_nth)
    then show ?thesis using Cons.prems [rule_format, of 0 "Suc j"] e' by auto
  qed
  ultimately show ?case by auto
qed simp

lemma filter_update_out:
  assumes "i < length es" "\<not> P (es ! i)" "\<not> P e"
  shows "filter P (es[i := e]) = filter P es"
proof -
  have "filter P es = filter P (take i es @ es ! i # drop (Suc i) es)" using id_take_nth_drop [OF assms(1)] by simp
  then show ?thesis using assms by (simp add: upd_conv_take_nth_drop)
qed

lemma list_channels_distinct:
  "table_ok (reg_entries mem) \<Longrightarrow> distinct (map entry_key (list_channels h mem))"
  unfolding list_channels_def table_ok_def by (simp add: distinct_filter_nth)

section \<open>Properties\<close>


definition open_handle :: ChannelRegistry where
  "open_handle = \<lparr>reg_fd = 3, reg_header = 4096\<rparr>"


text \<open>
  The table has room for exactly 64 channels: registering 64 names with different keys in an empty
  registry succeeds for each of them, and a registration of a further key is refused and changes
  nothing.
\<close>

theorem registry_capacity:
  assumes "reg_header h \<noteq> 0" "length regs = kMaxChannels" "distinct (map (channel_key \<circ> fst) regs)"
    "\<forall>name \<in> fst ` set regs. channel_key name \<noteq> []"
    "channel_key name \<noteq> []" "channel_key name \<notin> (channel_key \<circ> fst) ` set regs"
  shows "\<exists>mem. registry_run h (map (\<lambda>(n, a). ([False], Put n a)) regs) registry_zero = Some (replicate kMaxChannels True, mem) \<and>
    register_channel [False] now pid h name ty sid mem = Some (False, mem)"
proof -
  let ?ops = "map (\<lambda>(n, a). ([False], Put n a)) regs :: (bool list \<times> channel_op) list"
  have snd_ops: "map snd ?ops = map (\<lambda>(n, a). Put n a) regs" by (simp add: split_beta o_def)
  have good: "\<forall>n a. Put n a \<in> set (map snd ?ops) \<longrightarrow> channel_key n \<noteq> []" using assms(4) by force
  obtain es where es: "table.run (map snd ?ops) (reg_entries registry_zero) = (fst (table.spec_run (map snd ?ops) Map.empty), es)"
      "table_ok es" "lookup es = snd (table.spec_run (map snd ?ops) Map.empty)"
    using table.run_refines [OF registry_zero_ok(1) good] unfolding registry_zero_ok(2) by blast
  have all: "fst (table.spec_run (map snd ?ops) Map.empty) = replicate kMaxChannels True"
    "dom (lookup es) = (channel_key \<circ> fst) ` set regs"
    using table.spec_put_all [of regs Map.empty] assms(2,3) unfolding es(3) snd_ops by (simp_all add: o_def)
  let ?mem = "registry_zero\<lparr>reg_entries := es\<rparr>"
  have "registry_run h ?ops registry_zero = Some (replicate kMaxChannels True, ?mem)"
    using registry_run_table [OF assms(1), of registry_zero ?ops] es(1) all(1)
    by (simp add: registry_zero_def split_beta)
  moreover have "card (dom (lookup es)) = kMaxChannels"
    using distinct_card [OF assms(3)] assms(2) unfolding all(2) by simp
  then have "register_entries now pid name ty sid es = (False, es)"
    using register_full [OF es(2), of name] assms(6) unfolding all(2) [symmetric] by (simp add: domIff)
  then have "register_channel [False] now pid h name ty sid ?mem = Some (False, ?mem)"
    using register_channel_free [OF assms(1), of ?mem "[False]"] by (simp add: registry_zero_def)
  ultimately show ?thesis by blast
qed

theorem registry_capacity_witness:
  "\<exists>mem. registry_run open_handle (map (\<lambda>(n, a). ([False], Put n a))
       (map (\<lambda>i. ([char_of i], (5, 7, IMAGE, 0))) [1..<65 :: nat])) registry_zero = Some (replicate kMaxChannels True, mem) \<and>
    register_channel [False] 6 7 open_handle ''/extra'' IMAGE 0 mem = Some (False, mem)"
proof -
  let ?regs = "map (\<lambda>i. ([char_of i], (5, 7, IMAGE, 0))) [1..<65 :: nat] :: (string \<times> u64 \<times> 32 word \<times> MsgType \<times> u16) list"
  have "char_of i \<noteq> NUL" if "0 < i" "i < 65" for i :: nat
    using that by (simp add: char_of_eq_iff take_bit_nat_eq_self)
  then have key: "channel_key [char_of i :: char] = [char_of i]" if "0 < i" "i < 65" for i :: nat
    using that by (simp add: channel_key_def)
  have inj: "inj_on (char_of :: nat \<Rightarrow> char) {1..<65}"
    by (rule inj_on_inverseI [of _ of_char]) (simp add: of_char_of)
  have "map (channel_key \<circ> fst) ?regs = map (\<lambda>i. [char_of i]) [1..<65]"
    by (simp add: key)
  moreover have "distinct (map (\<lambda>i. [char_of i :: char]) [1..<65 :: nat])"
    using inj by (auto simp: distinct_map inj_on_def)
  ultimately have "distinct (map (channel_key \<circ> fst) ?regs)" by (simp only:)
  moreover have "channel_key ''/extra'' = ''/extra''" by (simp add: channel_key_def)
  ultimately show ?thesis
    by (intro registry_capacity) (auto simp: open_handle_def kMaxChannels_def key simp del: distinct_map)
qed

text \<open>
  \<open>discover\<close>. When the segment can be opened, it returns the names of the channels registered with
  the given type, each once; in any case its descriptor and its mapping are gone when it returns. The
  environment never maps at address 0.
\<close>

theorem discover_names:
  assumes "table_ok (reg_entries mem)" "\<forall>tr d n. os tr (Mmap d n) \<noteq> 0"
  shows "case discover os ty mem [] of (names, tr) \<Rightarrow>
    distinct names \<and> held os [] tr ([], []) = ([], []) \<and>
    set names = (if reg_header (fst (open_or_create os [])) = 0 then {}
      else {k. \<exists>e. lookup (reg_entries mem) k = Some e \<and> ce_msg_type e = MsgType_code ty})"
proof -
  obtain reg tr1 where o: "open_or_create os [] = (reg, tr1)" by fastforce
  let ?es = "list_type reg ty mem"
  have name: "takeWhile (\<lambda>c. c \<noteq> NUL) (ce_name e) = entry_key e" if "e \<in> set ?es" for e
  proof (rule name_ok_c_string)
    from that have "e \<in> set (reg_entries mem)" by (auto simp: list_type_def list_channels_def split: if_splits)
    then show "name_ok (ce_name e)" using table_okD(2) [OF assms(1)] by (auto simp: in_set_conv_nth)
  qed
  then have names: "fst (discover os ty mem []) = map entry_key ?es" by (simp add: discover_def o)
  have "distinct (map entry_key ?es)"
    unfolding list_type_def by (rule distinct_map_filter [OF list_channels_distinct [OF assms(1)]])
  moreover have "set (map entry_key ?es) = (if reg_header reg = 0 then {}
      else {k. \<exists>e. lookup (reg_entries mem) k = Some e \<and> ce_msg_type e = MsgType_code ty})"
    using list_channels_ran [OF assms(1), of reg]
    by (auto simp: list_type_def list_channels_def ran_def lookup_Some [OF assms(1)])
  moreover have "held os [] (snd (discover os ty mem [])) ([], []) = ([], [])"
    using o assms(2) by (auto simp: discover_def open_or_create_def ChannelRegistry_dtor_def Let_def split: if_splits)
  ultimately show ?thesis using names by (simp add: split_beta o)
qed

lemma registry_one:
  assumes "mem = registry_zero\<lparr>reg_entries := snd (register_entries now pid name ty sid (reg_entries registry_zero))\<rparr>"
    and "channel_key name \<noteq> []"
  shows "table_ok (reg_entries mem)"
    "lookup (reg_entries mem) = [channel_key name \<mapsto> channel_entry name (now, pid, ty, sid) None]"
proof -
  have "card (dom (lookup (reg_entries registry_zero))) < kMaxChannels" "lookup (reg_entries registry_zero) (channel_key name) = None"
    by (simp_all add: registry_zero_ok kMaxChannels_def)
  from register_new [OF registry_zero_ok(1) this(2) assms(2) this(1), of now pid ty sid]
  show "table_ok (reg_entries mem)"
    "lookup (reg_entries mem) = [channel_key name \<mapsto> channel_entry name (now, pid, ty, sid) None]"
    unfolding assms(1) by (auto simp: registry_zero_ok(2))
qed

theorem discover_names_witness:
  "fst (discover (\<lambda>tr c. case c of Shm_open _ _ _ \<Rightarrow> 3 | Mmap _ _ \<Rightarrow> 4096 | _ \<Rightarrow> 0) IMU
     (registry_zero\<lparr>reg_entries := snd (register_entries 1 7 ''/imu'' IMU 2 (reg_entries registry_zero))\<rparr>) []) = [''/imu'']"
proof -
  let ?os = "\<lambda>(tr :: calls) c. case c of Shm_open _ _ _ \<Rightarrow> 3 | Mmap _ _ \<Rightarrow> 4096 | _ \<Rightarrow> (0 :: int)"
  let ?mem = "registry_zero\<lparr>reg_entries := snd (register_entries 1 7 ''/imu'' IMU 2 (reg_entries registry_zero))\<rparr>"
  have k: "channel_key ''/imu'' = ''/imu''" by (simp add: channel_key_def)
  note one = registry_one [of ?mem, OF refl, unfolded k, simplified list.distinct not_False_eq_True, OF TrueI]
  have os: "reg_header (fst (open_or_create ?os [])) \<noteq> 0" by (simp add: open_or_create_def Let_def)
  obtain names tr where d: "discover ?os IMU ?mem [] = (names, tr)" by fastforce
  have "distinct names \<and> set names = {''/imu''}"
    using discover_names [OF one(1), of ?os IMU] os unfolding d one(2) by (auto simp: channel_entry_def)
  then have "names = [''/imu'']" by (cases names; cases "tl names") auto
  then show ?thesis using d by simp
qed

text \<open>
  The empty name. Registering a name whose first character is the terminating zero reports success
  whenever the table has room, but no channel is registered: \<open>contains\<close> and \<open>list\<close> are as before.
\<close>

theorem empty_name_lost:
  assumes "table_ok (reg_entries mem)" "reg_header h \<noteq> 0" "reg_lock mem = 0" "channel_key name = []"
    "card (dom (lookup (reg_entries mem))) < kMaxChannels"
  shows "\<exists>mem'. register_channel [False] now pid h name ty sid mem = Some (True, mem') \<and>
    \<not> contains h name mem' \<and> list_channels h mem' = list_channels h mem"
proof -
  let ?es = "reg_entries mem"
  obtain i where i: "find_slot (\<lambda>e. \<not> active e) ?es = Some i" using assms(5) unfolding room_iff [OF assms(1)] by blast
  then have il: "i < length ?es" and ia: "\<not> active (?es ! i)" by (simp_all add: find_slot_Some)
  let ?e = "set_fields now pid ty sid (copy_name name (?es ! i))"
  have e: "\<not> active ?e" "name_ok (ce_name ?e)"
    using assms(4) name_ok_array [of name]
    by (simp_all add: set_fields_def active_def copy_name_array name_ok_length [OF table_okD(2) [OF assms(1) il]] name_array_def)
  have "lookup ?es (channel_key name) = None"
    unfolding lookup_None assms(4) using table_okD(2) [OF assms(1)] by (auto simp: active_iff_key name_ok_length)
  then have "register_entries now pid name ty sid ?es = (True, ?es[i := ?e])"
    using find_matches_None [OF assms(1), of name] by (simp add: register_entries_def i)
  then have "register_channel [False] now pid h name ty sid mem = Some (True, mem\<lparr>reg_entries := ?es[i := ?e]\<rparr>)"
    using register_channel_free [OF assms(2,3), of "[False]"] by simp
  moreover have "\<not> contains h name (mem\<lparr>reg_entries := ?es[i := ?e]\<rparr>)"
    using contains_iff [OF _ assms(2), of "mem\<lparr>reg_entries := ?es[i := ?e]\<rparr>" name] update_inactive [OF assms(1) il e] ia
      \<open>lookup ?es (channel_key name) = None\<close> by (simp add: domIff)
  moreover have "filter active (?es[i := ?e]) = filter active ?es"
    using filter_update_out [OF il ia e(1)] .
  ultimately show ?thesis by (simp add: list_channels_def)
qed

theorem empty_name_lost_witness:
  "\<exists>mem'. register_channel [False] 1 7 open_handle [] IMU 2 registry_zero = Some (True, mem') \<and>
    \<not> contains open_handle [] mem' \<and> list_channels open_handle mem' = list_channels open_handle registry_zero"
  by (rule empty_name_lost [OF registry_zero_ok(1)])
    (simp_all add: registry_zero_ok open_handle_def kMaxChannels_def channel_key_def, simp add: registry_zero_def)

end
