(* ===== verification/Channel_Registry_Concurrent.thy ===== *)
theory Channel_Registry_Concurrent
  imports Channel_Registry
begin

text \<open>
  The registry used by any number of threads and processes. Every access to the shared table is a
  step: an attempt on the lock, one comparison of a search loop, one character of the copied name,
  the stores to the other fields of an entry, the clearing of an entry, the release of the lock. The
  search and the store of \<open>touch\<close> run without the lock. A thread may die at any point, and a dead
  thread takes no further step: its program counter stays where it was, and a lock it holds stays
  taken.
\<close>

section \<open>The system\<close>

datatype reg_request = Register string MsgType u16 | Unregister string

fun request_name :: "reg_request \<Rightarrow> string" where
  "request_name (Register name ty sid) = name"
| "request_name (Unregister name) = name"

fun is_register :: "reg_request \<Rightarrow> bool" where
  "is_register (Register name ty sid) = True"
| "is_register (Unregister name) = False"

datatype reg_pc =
    R_Idle
  | R_Spin reg_request
  | R_Find reg_request nat
  | R_Refresh reg_request nat
  | R_Clear reg_request nat
  | R_Free reg_request nat
  | R_Name reg_request nat nat   \<comment> \<open>the slot and the next character\<close>
  | R_Fields reg_request nat
  | R_Unlock reg_request bool
  | R_Touch_find string nat
  | R_Touch_store nat

record reg_sys =
  rs_lock :: u32
  rs_entries :: "ChannelEntry list"
  rs_pc :: "nat \<Rightarrow> reg_pc"
  rs_dead :: "nat \<Rightarrow> bool"

definition reg_sys_init :: "reg_sys \<Rightarrow> bool" where
  "reg_sys_init s \<longleftrightarrow> rs_lock s = reg_lock registry_zero \<and> rs_entries s = reg_entries registry_zero \<and>
     rs_pc s = (\<lambda>_. R_Idle) \<and> rs_dead s = (\<lambda>_. False)"

abbreviation goto :: "nat \<Rightarrow> reg_pc \<Rightarrow> reg_sys \<Rightarrow> reg_sys" where
  "goto i pc s \<equiv> s\<lparr>rs_pc := (rs_pc s)(i := pc)\<rparr>"

abbreviation set_entry :: "nat \<Rightarrow> ChannelEntry \<Rightarrow> reg_sys \<Rightarrow> reg_sys" where
  "set_entry j e s \<equiv> s\<lparr>rs_entries := (rs_entries s)[j := e]\<rparr>"

definition name_char :: "string \<Rightarrow> nat \<Rightarrow> char" where
  "name_char name k = (if k < 63 then strncpy_chars 63 (c_str name) ! k else NUL)"

definition store_char :: "string \<Rightarrow> nat \<Rightarrow> ChannelEntry \<Rightarrow> ChannelEntry" where
  "store_char name k e = e\<lparr>ce_name := (ce_name e)[k := name_char name k]\<rparr>"

inductive reg_step :: "reg_sys \<Rightarrow> reg_sys \<Rightarrow> bool" where
  reg_call: "rs_pc s i = R_Idle \<Longrightarrow> \<not> rs_dead s i \<Longrightarrow> reg_step s (goto i (R_Spin req) s)"
| reg_lock: "rs_pc s i = R_Spin req \<Longrightarrow> \<not> rs_dead s i \<Longrightarrow> rs_lock s = 0 \<Longrightarrow>
    reg_step s (goto i (R_Find req 0) (s\<lparr>rs_lock := 1\<rparr>))"
| reg_find_hit: "rs_pc s i = R_Find req k \<Longrightarrow> \<not> rs_dead s i \<Longrightarrow> k < kMaxChannels \<Longrightarrow>
    matches (request_name req) (rs_entries s ! k) \<Longrightarrow>
    reg_step s (goto i (if is_register req then R_Refresh req k else R_Clear req k) s)"
| reg_find_next: "rs_pc s i = R_Find req k \<Longrightarrow> \<not> rs_dead s i \<Longrightarrow> k < kMaxChannels \<Longrightarrow>
    \<not> matches (request_name req) (rs_entries s ! k) \<Longrightarrow> reg_step s (goto i (R_Find req (Suc k)) s)"
| reg_find_end: "rs_pc s i = R_Find req k \<Longrightarrow> \<not> rs_dead s i \<Longrightarrow> \<not> k < kMaxChannels \<Longrightarrow>
    reg_step s (goto i (if is_register req then R_Free req 0 else R_Unlock req True) s)"
| reg_refresh: "rs_pc s i = R_Refresh req k \<Longrightarrow> \<not> rs_dead s i \<Longrightarrow>
    reg_step s (goto i (R_Unlock req True) (set_entry k (refresh now (rs_entries s ! k)) s))"
| reg_clear: "rs_pc s i = R_Clear req k \<Longrightarrow> \<not> rs_dead s i \<Longrightarrow>
    reg_step s (goto i (R_Unlock req True) (set_entry k ChannelEntry_init s))"
| reg_free_hit: "rs_pc s i = R_Free req k \<Longrightarrow> \<not> rs_dead s i \<Longrightarrow> k < kMaxChannels \<Longrightarrow>
    \<not> active (rs_entries s ! k) \<Longrightarrow> reg_step s (goto i (R_Name req k 0) s)"
| reg_free_next: "rs_pc s i = R_Free req k \<Longrightarrow> \<not> rs_dead s i \<Longrightarrow> k < kMaxChannels \<Longrightarrow>
    active (rs_entries s ! k) \<Longrightarrow> reg_step s (goto i (R_Free req (Suc k)) s)"
| reg_free_end: "rs_pc s i = R_Free req k \<Longrightarrow> \<not> rs_dead s i \<Longrightarrow> \<not> k < kMaxChannels \<Longrightarrow>
    reg_step s (goto i (R_Unlock req False) s)"
| reg_char: "rs_pc s i = R_Name req j k \<Longrightarrow> \<not> rs_dead s i \<Longrightarrow> k < 63 \<Longrightarrow>
    reg_step s (goto i (R_Name req j (Suc k)) (set_entry j (store_char (request_name req) k (rs_entries s ! j)) s))"
| reg_last_char: "rs_pc s i = R_Name req j k \<Longrightarrow> \<not> rs_dead s i \<Longrightarrow> \<not> k < 63 \<Longrightarrow>
    reg_step s (goto i (R_Fields req j) (set_entry j (store_char (request_name req) k (rs_entries s ! j)) s))"
| reg_fields: "rs_pc s i = R_Fields req j \<Longrightarrow> \<not> rs_dead s i \<Longrightarrow> req = Register name ty sid \<Longrightarrow>
    reg_step s (goto i (R_Unlock req True) (set_entry j (set_fields now pid ty sid (rs_entries s ! j)) s))"
| reg_unlock: "rs_pc s i = R_Unlock req ok \<Longrightarrow> \<not> rs_dead s i \<Longrightarrow>
    reg_step s (goto i R_Idle (s\<lparr>rs_lock := 0\<rparr>))"
| touch_call: "rs_pc s i = R_Idle \<Longrightarrow> \<not> rs_dead s i \<Longrightarrow> reg_step s (goto i (R_Touch_find name 0) s)"
| touch_hit: "rs_pc s i = R_Touch_find name k \<Longrightarrow> \<not> rs_dead s i \<Longrightarrow> k < kMaxChannels \<Longrightarrow>
    matches name (rs_entries s ! k) \<Longrightarrow> reg_step s (goto i (R_Touch_store k) s)"
| touch_next: "rs_pc s i = R_Touch_find name k \<Longrightarrow> \<not> rs_dead s i \<Longrightarrow> k < kMaxChannels \<Longrightarrow>
    \<not> matches name (rs_entries s ! k) \<Longrightarrow> reg_step s (goto i (R_Touch_find name (Suc k)) s)"
| touch_end: "rs_pc s i = R_Touch_find name k \<Longrightarrow> \<not> rs_dead s i \<Longrightarrow> \<not> k < kMaxChannels \<Longrightarrow>
    reg_step s (goto i R_Idle s)"
| touch_store: "rs_pc s i = R_Touch_store k \<Longrightarrow> \<not> rs_dead s i \<Longrightarrow>
    reg_step s (goto i R_Idle (set_entry k (refresh now (rs_entries s ! k)) s))"
| reg_crash: "\<not> rs_dead s i \<Longrightarrow> reg_step s (s\<lparr>rs_dead := (rs_dead s)(i := True)\<rparr>)"

section \<open>The invariant\<close>

fun in_cs :: "reg_pc \<Rightarrow> bool" where
  "in_cs R_Idle = False"
| "in_cs (R_Spin req) = False"
| "in_cs (R_Touch_find name k) = False"
| "in_cs (R_Touch_store k) = False"
| "in_cs _ = True"

text \<open>The slot whose name is being written.\<close>

fun building :: "reg_pc \<Rightarrow> nat set" where
  "building (R_Name req j k) = {j}"
| "building _ = {}"

abbreviation no_match :: "reg_request \<Rightarrow> ChannelEntry list \<Rightarrow> nat set \<Rightarrow> bool" where
  "no_match req es J \<equiv> \<forall>j < kMaxChannels. j \<notin> J \<longrightarrow> \<not> matches (request_name req) (es ! j)"

fun reg_pc_ok :: "ChannelEntry list \<Rightarrow> reg_pc \<Rightarrow> bool" where
  "reg_pc_ok es (R_Find req k) \<longleftrightarrow> k \<le> kMaxChannels \<and> (\<forall>j < k. \<not> matches (request_name req) (es ! j))"
| "reg_pc_ok es (R_Refresh req k) \<longleftrightarrow> is_register req \<and> k < kMaxChannels \<and> matches (request_name req) (es ! k)"
| "reg_pc_ok es (R_Clear req k) \<longleftrightarrow> \<not> is_register req \<and> k < kMaxChannels \<and> matches (request_name req) (es ! k)"
| "reg_pc_ok es (R_Free req k) \<longleftrightarrow> is_register req \<and> k \<le> kMaxChannels \<and> (\<forall>j < k. active (es ! j)) \<and> no_match req es {}"
| "reg_pc_ok es (R_Name req j k) \<longleftrightarrow> is_register req \<and> j < kMaxChannels \<and> k < 64 \<and> no_match req es {j} \<and>
     take k (ce_name (es ! j)) = take k (name_array (channel_key (request_name req)))"
| "reg_pc_ok es (R_Fields req j) \<longleftrightarrow> is_register req \<and> j < kMaxChannels \<and>
     entry_key (es ! j) = channel_key (request_name req)"
| "reg_pc_ok es (R_Unlock req ok) \<longleftrightarrow>
     (if \<not> is_register req then no_match req es {}
      else if ok then \<exists>j < kMaxChannels. entry_key (es ! j) = channel_key (request_name req)
      else (\<forall>j < kMaxChannels. active (es ! j)) \<and> no_match req es {})"
| "reg_pc_ok es (R_Touch_store k) \<longleftrightarrow> k < kMaxChannels"
| "reg_pc_ok es _ \<longleftrightarrow> True"

definition distinct_keys :: "nat set \<Rightarrow> ChannelEntry list \<Rightarrow> bool" where
  "distinct_keys J es \<longleftrightarrow> (\<forall>i < length es. \<forall>j < length es. i \<notin> J \<and> j \<notin> J \<and>
     active (es ! i) \<and> active (es ! j) \<and> entry_key (es ! i) = entry_key (es ! j) \<longrightarrow> i = j)"

definition entries_ok :: "ChannelEntry list \<Rightarrow> bool" where
  "entries_ok es \<longleftrightarrow> length es = kMaxChannels \<and> (\<forall>j < length es. name_ok (ce_name (es ! j)))"

definition building_slots :: "(nat \<Rightarrow> reg_pc) \<Rightarrow> nat set" where
  "building_slots pc = (\<Union>i. building (pc i))"

definition reg_sys_ok :: "reg_sys \<Rightarrow> bool" where
  "reg_sys_ok s \<longleftrightarrow> entries_ok (rs_entries s) \<and>
     (\<forall>i j. in_cs (rs_pc s i) \<and> in_cs (rs_pc s j) \<longrightarrow> i = j) \<and>
     (\<forall>i. in_cs (rs_pc s i) \<longrightarrow> rs_lock s = 1) \<and>
     (\<forall>i. reg_pc_ok (rs_entries s) (rs_pc s i)) \<and>
     distinct_keys (building_slots (rs_pc s)) (rs_entries s)"

lemma building_in_cs: "j \<in> building pc \<Longrightarrow> in_cs pc"
  by (cases pc) simp_all

lemma building_slots_owner:
  assumes "\<And>j. in_cs (pc j) \<Longrightarrow> j = i"
  shows "building_slots (pc(i := p)) = building p"
proof
  show "building_slots (pc(i := p)) \<subseteq> building p"
    using assms building_in_cs by (fastforce simp: building_slots_def split: if_splits)
  show "building p \<subseteq> building_slots (pc(i := p))"
    unfolding building_slots_def by (metis UN_upper UNIV_I fun_upd_same)
qed

lemma reg_pc_ok_outside:
  "\<not> in_cs pc \<Longrightarrow> reg_pc_ok es pc \<Longrightarrow> reg_pc_ok es' pc"
  by (cases pc) simp_all

definition same_names :: "ChannelEntry list \<Rightarrow> ChannelEntry list \<Rightarrow> bool" where
  "same_names es es' \<longleftrightarrow> length es' = length es \<and> (\<forall>j < length es. ce_name (es' ! j) = ce_name (es ! j))"

lemma same_names_update: "ce_name e = ce_name (es ! j) \<Longrightarrow> same_names es (es[j := e])"
  by (cases "j < length es") (auto simp: same_names_def nth_list_update)

lemma same_names_facts:
  assumes "same_names es es'" "entries_ok es"
  shows "reg_pc_ok es pc \<Longrightarrow> reg_pc_ok es' pc" "entries_ok es'" "distinct_keys J es \<Longrightarrow> distinct_keys J es'"
proof -
  have n: "ce_name (es' ! j) = ce_name (es ! j)" if "j < kMaxChannels" for j
    using assms that by (simp add: same_names_def entries_ok_def)
  then have a: "active (es' ! j) = active (es ! j)" "matches name (es' ! j) = matches name (es ! j)"
    if "j < kMaxChannels" for j name using that by (simp_all add: active_def matches_def)
  show "reg_pc_ok es pc \<Longrightarrow> reg_pc_ok es' pc" using n a by (cases pc) (auto split: if_splits)
  show "entries_ok es'" using assms n by (simp add: same_names_def entries_ok_def)
  show "distinct_keys J es \<Longrightarrow> distinct_keys J es'"
    using assms n a by (simp add: distinct_keys_def same_names_def entries_ok_def)
qed

lemma reg_sys_okD:
  assumes "reg_sys_ok s"
  shows "entries_ok (rs_entries s)" "in_cs (rs_pc s i) \<Longrightarrow> in_cs (rs_pc s j) \<Longrightarrow> i = j"
    "in_cs (rs_pc s i) \<Longrightarrow> rs_lock s = 1" "reg_pc_ok (rs_entries s) (rs_pc s i)"
    "distinct_keys (building_slots (rs_pc s)) (rs_entries s)"
  using assms unfolding reg_sys_ok_def by blast+

lemma distinct_keys_mono: "distinct_keys J es \<Longrightarrow> J \<subseteq> J' \<Longrightarrow> distinct_keys J' es"
  unfolding distinct_keys_def by blast

text \<open>A step that writes no name.\<close>

lemma reg_ok_move:
  assumes ok: "reg_sys_ok s" and t: "rs_pc t = (rs_pc s)(i := new)" "rs_lock t = rs_lock s"
    and names: "same_names (rs_entries s) (rs_entries t)"
    and new: "in_cs new \<Longrightarrow> in_cs (rs_pc s i)" "building (rs_pc s i) \<subseteq> building new" "reg_pc_ok (rs_entries t) new"
  shows "reg_sys_ok t"
proof -
  note d = reg_sys_okD [OF ok] and n = same_names_facts [OF names reg_sys_okD(1) [OF ok]]
  have cs: "in_cs (rs_pc s j)" if "in_cs (rs_pc t j)" for j using that new(1) by (auto simp: t split: if_splits)
  have "building_slots (rs_pc s) \<subseteq> building_slots (rs_pc t)"
    using new(2) unfolding building_slots_def t by (force split: if_splits)
  then have "distinct_keys (building_slots (rs_pc t)) (rs_entries t)"
    using n(3) [OF d(5)] by (rule distinct_keys_mono [rotated])
  moreover have "reg_pc_ok (rs_entries t) (rs_pc t j)" for j using n(1) [OF d(4)] new(3) by (simp add: t)
  ultimately show ?thesis
    unfolding reg_sys_ok_def using n(2) d(2,3) cs t(2) by metis
qed

text \<open>A step of the owner of the lock that writes to one entry.\<close>

lemma reg_ok_write:
  assumes ok: "reg_sys_ok s" and own: "in_cs (rs_pc s i)"
    and t: "rs_pc t = (rs_pc s)(i := new)" "rs_lock t = rs_lock s" "rs_entries t = (rs_entries s)[j := e]"
    and new: "name_ok (ce_name e)" "in_cs new" "reg_pc_ok (rs_entries t) new" "distinct_keys (building new) (rs_entries t)"
  shows "reg_sys_ok t"
proof -
  note d = reg_sys_okD [OF ok]
  have cs: "in_cs (rs_pc s k)" if "in_cs (rs_pc t k)" for k using that own by (auto simp: t split: if_splits)
  have pc: "reg_pc_ok (rs_entries t) (rs_pc t k)" for k
    using reg_pc_ok_outside [OF _ d(4) [of k], of "rs_entries t"] d(2) [OF own, of k] new(3)
    by (cases "k = i") (auto simp: t)
  have ent: "entries_ok (rs_entries t)"
    using d(1) new(1) by (auto simp: t entries_ok_def nth_list_update_read)
  have "building_slots (rs_pc t) = building new"
    unfolding t by (rule building_slots_owner) (use d(2) own in blast)
  then show ?thesis
    unfolding reg_sys_ok_def using pc ent d(2,3) cs t(2) new(4) by metis
qed

lemma entries_matches:
  "entries_ok es \<Longrightarrow> j < kMaxChannels \<Longrightarrow>
     matches name (es ! j) \<longleftrightarrow> active (es ! j) \<and> entry_key (es ! j) = channel_key name"
  by (simp add: entries_ok_def matches_iff)

lemma entries_active: "entries_ok es \<Longrightarrow> j < kMaxChannels \<Longrightarrow> active (es ! j) \<longleftrightarrow> entry_key (es ! j) \<noteq> []"
  using active_iff_key [of "es ! j"] by (simp add: entries_ok_def name_ok_length)

lemma distinct_keys_write:
  assumes "distinct_keys {j} es"
    and "\<not> active e \<or> (\<forall>k < length es. k \<noteq> j \<longrightarrow> active (es ! k) \<longrightarrow> entry_key (es ! k) \<noteq> entry_key e)"
  shows "distinct_keys {} (es[j := e])"
proof -
  have "a = b" if ab: "a < length es" "b < length es" "active (es[j := e] ! a)" "active (es[j := e] ! b)"
      "entry_key (es[j := e] ! a) = entry_key (es[j := e] ! b)" for a b
  proof (cases "a = j \<or> b = j")
    case True
    then show ?thesis using ab assms(2) by (auto simp: nth_list_update_read split: if_splits)
  next
    case False
    then show ?thesis using ab assms(1) unfolding distinct_keys_def by (simp add: nth_list_update_read)
  qed
  then show ?thesis by (simp add: distinct_keys_def)
qed

lemma distinct_keys_building: "distinct_keys {j} es \<Longrightarrow> distinct_keys {j} (es[j := e])"
  by (simp add: distinct_keys_def nth_list_update_read)

lemma name_char_array: "k < 64 \<Longrightarrow> name_char name k = name_array (channel_key name) ! k"
  using length_channel_key [of name] by (auto simp: name_char_def strncpy_key name_array_def nth_append)

lemma owner_building:
  assumes "reg_sys_ok s" "in_cs (rs_pc s i)"
  shows "building_slots (rs_pc s) = building (rs_pc s i)"
  using building_slots_owner [of "rs_pc s" i "rs_pc s i"] reg_sys_okD(2) [OF assms(1,2)] by simp

lemma owner_distinct:
  "reg_sys_ok s \<Longrightarrow> in_cs (rs_pc s i) \<Longrightarrow> distinct_keys (building (rs_pc s i)) (rs_entries s)"
  using reg_sys_okD(5) owner_building by metis

text \<open>The steps that write to a name.\<close>

lemma reg_ok_clear:
  assumes ok: "reg_sys_ok s" and pc: "rs_pc s i = R_Clear req k"
  shows "reg_sys_ok (goto i (R_Unlock req True) (set_entry k ChannelEntry_init s))" (is "reg_sys_ok ?t")
proof -
  note d = reg_sys_okD [OF ok] and p = reg_sys_okD(4) [OF ok, of i, unfolded pc, simplified]
  note D = owner_distinct [OF ok, of i, unfolded pc, simplified]
  have len: "length (rs_entries s) = kMaxChannels" using d(1) by (simp add: entries_ok_def)
  have z: "\<not> active ChannelEntry_init" "name_ok (ce_name ChannelEntry_init)"
    by (simp_all add: active_def ChannelEntry_init_def name_ok_def)
  have "\<not> matches (request_name req) (rs_entries ?t ! j)" if j: "j < kMaxChannels" for j
  proof (cases "j = k")
    case True
    then show ?thesis using z(1) j len by (simp add: matches_def)
  next
    case False
    have "\<not> matches (request_name req) (rs_entries s ! j)"
    proof
      assume "matches (request_name req) (rs_entries s ! j)"
      moreover have "k < kMaxChannels" "matches (request_name req) (rs_entries s ! k)" using p by blast+
      ultimately have "j = k"
        using D [unfolded distinct_keys_def, rule_format, of j k] j len by (simp add: entries_matches [OF d(1)])
      with False show False ..
    qed
    then show ?thesis using False by simp
  qed
  moreover have "distinct_keys {} (rs_entries ?t)"
    using distinct_keys_write [of k "rs_entries s" ChannelEntry_init] distinct_keys_mono [OF D, of "{k}"] z(1) by simp
  ultimately show ?thesis
    using reg_ok_write [OF ok, of i ?t "R_Unlock req True" k ChannelEntry_init] z(2) pc p by simp
qed

lemma store_char_facts:
  assumes "entries_ok es" "j < kMaxChannels" "k < 64"
    and "take k (ce_name (es ! j)) = take k (name_array (channel_key name))"
  shows "name_ok (ce_name (store_char name k (es ! j)))"
    "take (Suc k) (ce_name (store_char name k (es ! j))) = take (Suc k) (name_array (channel_key name))"
proof -
  have n: "name_ok (ce_name (es ! j))" using assms(1,2) by (simp add: entries_ok_def)
  show "name_ok (ce_name (store_char name k (es ! j)))"
    using n assms(3) by (auto simp: name_ok_def store_char_def name_char_def nth_list_update)
  have "take (Suc k) ((ce_name (es ! j))[k := name_char name k]) = take k (ce_name (es ! j)) @ [name_char name k]"
    using assms(3) name_ok_length [OF n] by (simp add: take_Suc_conv_app_nth)
  also have "\<dots> = take (Suc k) (name_array (channel_key name))"
    using assms(3,4) by (simp add: name_char_array take_Suc_conv_app_nth)
  finally show "take (Suc k) (ce_name (store_char name k (es ! j))) = take (Suc k) (name_array (channel_key name))"
    by (simp add: store_char_def)
qed

lemma reg_ok_char:
  assumes ok: "reg_sys_ok s" and pc: "rs_pc s i = R_Name req j k" and k: "k < 63"
  shows "reg_sys_ok (goto i (R_Name req j (Suc k)) (set_entry j (store_char (request_name req) k (rs_entries s ! j)) s))"
    (is "reg_sys_ok ?t")
proof -
  note d = reg_sys_okD [OF ok] and p = reg_sys_okD(4) [OF ok, of i, unfolded pc, simplified]
  note D = owner_distinct [OF ok, of i, unfolded pc, simplified]
  have len: "length (rs_entries s) = kMaxChannels" using d(1) by (simp add: entries_ok_def)
  note f = store_char_facts [OF d(1), of j k "request_name req"]
  have "reg_pc_ok (rs_entries ?t) (R_Name req j (Suc k))"
    using p f(2) k len by (simp add: nth_list_update_read)
  then show ?thesis
    using reg_ok_write [OF ok, of i ?t "R_Name req j (Suc k)" j] f(1) distinct_keys_building [OF D] pc p by simp
qed

lemma reg_ok_last_char:
  assumes ok: "reg_sys_ok s" and pc: "rs_pc s i = R_Name req j k" and k: "\<not> k < 63"
  shows "reg_sys_ok (goto i (R_Fields req j) (set_entry j (store_char (request_name req) k (rs_entries s ! j)) s))"
    (is "reg_sys_ok ?t")
    and "entry_key (store_char (request_name req) k (rs_entries s ! j)) = channel_key (request_name req)"
proof -
  note d = reg_sys_okD [OF ok] and p = reg_sys_okD(4) [OF ok, of i, unfolded pc, simplified]
  note D = owner_distinct [OF ok, of i, unfolded pc, simplified]
  have len: "length (rs_entries s) = kMaxChannels" using d(1) by (simp add: entries_ok_def)
  have k63: "k = 63" using k p by simp
  let ?e = "store_char (request_name req) k (rs_entries s ! j)"
  note f = store_char_facts [OF d(1), of j k "request_name req"]
  have "ce_name ?e = name_array (channel_key (request_name req))"
    using f p name_ok_length [OF f(1)] by (simp add: k63)
  then show key: "entry_key ?e = channel_key (request_name req)" by simp
  have "entry_key (rs_entries s ! l) \<noteq> entry_key ?e" if "l < kMaxChannels" "l \<noteq> j" "active (rs_entries s ! l)" for l
    using p that by (simp add: key entries_matches [OF d(1)])
  then have "distinct_keys {} (rs_entries ?t)" using distinct_keys_write [OF D, of ?e] len by simp
  moreover have "reg_pc_ok (rs_entries ?t) (R_Fields req j)" using p key len by (simp add: nth_list_update_read)
  ultimately show "reg_sys_ok ?t"
    using reg_ok_write [OF ok, of i ?t "R_Fields req j" j] f(1) pc p by simp
qed

lemma reg_ok_lock:
  assumes ok: "reg_sys_ok s" and pc: "rs_pc s i = R_Spin req" and l: "rs_lock s = 0"
  shows "reg_sys_ok (goto i (R_Find req 0) (s\<lparr>rs_lock := 1\<rparr>))"
proof -
  note d = reg_sys_okD [OF ok]
  have "\<not> in_cs (rs_pc s j)" for j using d(3) [of j] l by auto
  moreover from this have "building_slots ((rs_pc s)(i := R_Find req 0)) = {}" "building_slots ((rs_pc s)(i := R_Spin req)) = {}"
    using building_slots_owner [of "rs_pc s" i] by simp_all
  moreover have "(rs_pc s)(i := R_Spin req) = rs_pc s" using pc by (simp add: fun_upd_idem)
  ultimately show ?thesis
    using d(1,4,5) unfolding reg_sys_ok_def by simp
qed

lemma reg_ok_unlock:
  assumes ok: "reg_sys_ok s" and pc: "rs_pc s i = R_Unlock req r"
  shows "reg_sys_ok (goto i R_Idle (s\<lparr>rs_lock := 0\<rparr>))"
proof -
  note d = reg_sys_okD [OF ok]
  have own: "in_cs (rs_pc s i)" by (simp add: pc)
  have "building_slots ((rs_pc s)(i := R_Idle)) = {}"
    using building_slots_owner [of "rs_pc s" i R_Idle] d(2) [OF own] by (metis building.simps(2))
  moreover have "building_slots (rs_pc s) = {}" using owner_building [OF ok own] by (simp add: pc)
  ultimately show ?thesis
    using d(1,4,5) d(2) [OF own] unfolding reg_sys_ok_def by auto
qed

lemma same_names_refl [simp]: "same_names es es"
  by (simp add: same_names_def)

lemma entry_fields [simp]: "ce_name (refresh now e) = ce_name e" "ce_name (set_fields now pid ty sid e) = ce_name e"
  by (simp_all add: refresh_def set_fields_def)

lemma same_names_refresh [simp]: "same_names es (es[k := refresh now (es ! k)])"
  by (rule same_names_update) simp

lemma same_names_fields [simp]: "same_names es (es[k := set_fields now pid ty sid (es ! k)])"
  by (rule same_names_update) simp

lemma reg_step_ok:
  assumes "reg_step s t" and ok: "reg_sys_ok s"
  shows "reg_sys_ok t"
  using assms(1)
proof cases
  case (reg_call i req)
  show ?thesis by (rule reg_ok_move [OF ok, of t i "R_Spin req"]) (simp_all add: reg_call)
next
  case (reg_lock i req)
  then show ?thesis using reg_ok_lock [OF ok] by simp
next
  case (reg_find_hit i req k)
  then show ?thesis using reg_sys_okD(4) [OF ok, of i]
    by (intro reg_ok_move [OF ok, of t i "if is_register req then R_Refresh req k else R_Clear req k"]) simp_all
next
  case (reg_find_next i req k)
  then show ?thesis using reg_sys_okD(4) [OF ok, of i]
    by (intro reg_ok_move [OF ok, of t i "R_Find req (Suc k)"]) (auto simp: less_Suc_eq)
next
  case (reg_find_end i req k)
  then show ?thesis using reg_sys_okD(4) [OF ok, of i]
    by (intro reg_ok_move [OF ok, of t i "if is_register req then R_Free req 0 else R_Unlock req True"]) auto
next
  case (reg_refresh i req k now)
  have e: "entry_key (rs_entries s ! k) = channel_key (request_name req)" "k < kMaxChannels"
    "length (rs_entries s) = kMaxChannels" "is_register req"
    using reg_sys_okD(1,4) [OF ok] reg_refresh(2)
    by (metis entries_matches reg_pc_ok.simps(2), metis reg_pc_ok.simps(2), simp add: entries_ok_def, metis reg_pc_ok.simps(2))
  show ?thesis using reg_refresh e
    by (intro reg_ok_move [OF ok, of t i "R_Unlock req True"]) (auto intro!: exI [of _ k])
next
  case (reg_clear i req k)
  then show ?thesis using reg_ok_clear [OF ok] by simp
next
  case (reg_free_hit i req k)
  then show ?thesis using reg_sys_okD(4) [OF ok, of i]
    by (intro reg_ok_move [OF ok, of t i "R_Name req k 0"]) auto
next
  case (reg_free_next i req k)
  then show ?thesis using reg_sys_okD(4) [OF ok, of i]
    by (intro reg_ok_move [OF ok, of t i "R_Free req (Suc k)"]) (auto simp: less_Suc_eq)
next
  case (reg_free_end i req k)
  then show ?thesis using reg_sys_okD(4) [OF ok, of i]
    by (intro reg_ok_move [OF ok, of t i "R_Unlock req False"]) auto
next
  case (reg_char i req j k)
  then show ?thesis using reg_ok_char [OF ok] by simp
next
  case (reg_last_char i req j k)
  then show ?thesis using reg_ok_last_char(1) [OF ok] by simp
next
  case (reg_fields i req j name ty sid now pid)
  then show ?thesis using reg_sys_okD(1) [OF ok] reg_sys_okD(4) [OF ok, of i]
    by (intro reg_ok_move [OF ok, of t i "R_Unlock req True"]) (auto simp: entries_ok_def intro!: exI [of _ j])
next
  case (reg_unlock i req r)
  then show ?thesis using reg_ok_unlock [OF ok] by simp
next
  case (touch_call i name)
  show ?thesis by (rule reg_ok_move [OF ok, of t i "R_Touch_find name 0"]) (simp_all add: touch_call)
next
  case (touch_hit i name k)
  show ?thesis by (rule reg_ok_move [OF ok, of t i "R_Touch_store k"]) (simp_all add: touch_hit)
next
  case (touch_next i name k)
  show ?thesis by (rule reg_ok_move [OF ok, of t i "R_Touch_find name (Suc k)"]) (simp_all add: touch_next)
next
  case (touch_end i name k)
  show ?thesis by (rule reg_ok_move [OF ok, of t i R_Idle]) (simp_all add: touch_end)
next
  case (touch_store i k now)
  show ?thesis by (rule reg_ok_move [OF ok, of t i R_Idle]) (simp_all add: touch_store)
next
  case (reg_crash i)
  then show ?thesis using ok by (simp add: reg_sys_ok_def)
qed

lemma reg_init_ok: "reg_sys_init s \<Longrightarrow> reg_sys_ok s"
  using registry_zero_ok(1)
  by (simp add: reg_sys_init_def reg_sys_ok_def entries_ok_def table_ok_def distinct_keys_def)

interpretation registry_sys: invariant_system reg_sys_init reg_step reg_sys_ok
  by unfold_locales (auto intro: reg_init_ok reg_step_ok)

section \<open>Uninterrupted runs\<close>

lemma run_step: "reg_step s t \<Longrightarrow> reg_step\<^sup>*\<^sup>* t u \<Longrightarrow> reg_step\<^sup>*\<^sup>* s u"
  by (rule converse_rtranclp_into_rtranclp)

lemma goto_goto [simp]: "goto i p (goto i q s) = goto i p s"
  by simp

lemma find_loop:
  assumes "\<not> rs_dead s i" "m \<le> kMaxChannels" "\<forall>j < m. \<not> matches (request_name req) (rs_entries s ! j)"
  shows "reg_step\<^sup>*\<^sup>* (goto i (R_Find req 0) s) (goto i (R_Find req m) s)"
proof (rule rtranclp_loop [where f = "\<lambda>k. goto i (R_Find req k) s"])
  fix k assume "k < m"
  then show "reg_step (goto i (R_Find req k) s) (goto i (R_Find req (Suc k)) s)"
    using reg_find_next [of "goto i (R_Find req k) s" i req k] assms by simp
qed simp

lemma free_loop:
  assumes "\<not> rs_dead s i" "m \<le> kMaxChannels" "\<forall>j < m. active (rs_entries s ! j)"
  shows "reg_step\<^sup>*\<^sup>* (goto i (R_Free req 0) s) (goto i (R_Free req m) s)"
proof (rule rtranclp_loop [where f = "\<lambda>k. goto i (R_Free req k) s"])
  fix k assume "k < m"
  then show "reg_step (goto i (R_Free req k) s) (goto i (R_Free req (Suc k)) s)"
    using reg_free_next [of "goto i (R_Free req k) s" i req k] assms by simp
qed simp

text \<open>The characters already written, before the rest of the old ones.\<close>

definition part_name :: "string \<Rightarrow> nat \<Rightarrow> ChannelEntry \<Rightarrow> ChannelEntry" where
  "part_name name k e = e\<lparr>ce_name := take k (name_array (channel_key name)) @ drop k (ce_name e)\<rparr>"

lemma store_part_name:
  assumes "k < 64" "length (ce_name e) = 64"
  shows "store_char name k (part_name name k e) = part_name name (Suc k) e"
proof -
  have "(take k (name_array (channel_key name)) @ drop k (ce_name e))[k := name_char name k] =
      take (Suc k) (name_array (channel_key name)) @ drop (Suc k) (ce_name e)"
    using assms by (simp add: list_update_append take_Suc_conv_app_nth name_char_array Cons_nth_drop_Suc [symmetric])
  then show ?thesis by (simp add: store_char_def part_name_def)
qed

lemma part_name_ends:
  "part_name name 0 e = e" "length (ce_name e) = 64 \<Longrightarrow> part_name name 64 e = copy_name name e"
  by (simp_all add: part_name_def copy_name_array)

lemma name_loop:
  assumes "\<not> rs_dead s i" "m < 64" "j < length (rs_entries s)" "length (ce_name (rs_entries s ! j)) = 64"
  shows "reg_step\<^sup>*\<^sup>* (goto i (R_Name req j 0) s)
    (goto i (R_Name req j m) (set_entry j (part_name (request_name req) m (rs_entries s ! j)) s))"
proof -
  let ?n = "request_name req" and ?e = "rs_entries s ! j"
  let ?f = "\<lambda>k. goto i (R_Name req j k) (set_entry j (part_name ?n k ?e) s)"
  have "reg_step\<^sup>*\<^sup>* (?f 0) (?f m)"
  proof (rule rtranclp_loop)
    fix k assume "k < m"
    then show "reg_step (?f k) (?f (Suc k))"
      using reg_char [of "?f k" i req j k] assms store_part_name [of k ?e ?n] by simp
  qed simp
  then show ?thesis by (simp add: part_name_ends)
qed

lemma lock_and_find:
  assumes "\<not> rs_dead s i" "rs_pc s i = R_Idle" "rs_lock s = 0" "m \<le> kMaxChannels"
    "\<forall>j < m. \<not> matches (request_name req) (rs_entries s ! j)"
  shows "reg_step\<^sup>*\<^sup>* s (goto i (R_Find req m) (s\<lparr>rs_lock := 1\<rparr>))"
proof -
  let ?s1 = "goto i (R_Spin req) s" and ?s2 = "goto i (R_Find req 0) (s\<lparr>rs_lock := 1\<rparr>)"
  have "reg_step s ?s1" using assms by (intro reg_call)
  moreover have "reg_step ?s1 ?s2" using reg_lock [of ?s1 i req] assms by simp
  moreover have "reg_step\<^sup>*\<^sup>* ?s2 (goto i (R_Find req m) (s\<lparr>rs_lock := 1\<rparr>))" using assms by (intro find_loop) auto
  ultimately show ?thesis by (simp add: run_step)
qed

lemma finish_locked:
  assumes "\<not> rs_dead s i" "rs_pc s i = R_Unlock req r"
  shows "reg_step\<^sup>*\<^sup>* s (goto i R_Idle (s\<lparr>rs_lock := 0\<rparr>))"
  by (rule run_step [OF reg_unlock [OF assms(2,1)]]) simp

lemma fill_slot:
  assumes "\<not> rs_dead s i" "rs_pc s i = R_Free req j" "req = Register name ty sid" "j < kMaxChannels"
    "entries_ok (rs_entries s)" "\<not> active (rs_entries s ! j)"
  shows "reg_step\<^sup>*\<^sup>* s (goto i (R_Unlock req True)
    (set_entry j (set_fields now pid ty sid (copy_name name (rs_entries s ! j))) s))"
proof -
  let ?e = "rs_entries s ! j"
  have j: "j < length (rs_entries s)" "length (ce_name ?e) = 64"
    using assms(4,5) by (simp_all add: entries_ok_def name_ok_length)
  have nm: "request_name req = name" by (simp add: assms(3))
  let ?s1 = "goto i (R_Name req j 0) s" and ?s2 = "goto i (R_Name req j 63) (set_entry j (part_name name 63 ?e) s)"
  let ?s3 = "goto i (R_Fields req j) (set_entry j (copy_name name ?e) s)"
  have "reg_step s ?s1" using assms by (intro reg_free_hit)
  moreover have "reg_step\<^sup>*\<^sup>* ?s1 ?s2"
    using name_loop [of s i 63 j req] assms(1) j nm by simp
  moreover have "reg_step ?s2 ?s3"
    using reg_last_char [of ?s2 i req j 63] store_part_name [of 63 ?e name] assms(1) j nm by (simp add: part_name_ends)
  moreover have "reg_step ?s3 (goto i (R_Unlock req True) (set_entry j (set_fields now pid ty sid (copy_name name ?e)) s))"
    using reg_fields [of ?s3 i req j name ty sid now pid] assms(1,3) j by simp
  ultimately show ?thesis by (meson rtranclp_trans rtranclp.rtrancl_into_rtrancl r_into_rtranclp)
qed

lemma register_run:
  assumes s: "\<not> rs_dead s i" "rs_pc s i = R_Idle" "rs_lock s = 0" and ok: "entries_ok (rs_entries s)"
    and r: "register_entries now pid name ty sid (rs_entries s) = (res, es')"
  shows "reg_step\<^sup>*\<^sup>* s (goto i (R_Unlock (Register name ty sid) res) (s\<lparr>rs_lock := 1, rs_entries := es'\<rparr>))"
proof -
  let ?req = "Register name ty sid" and ?l = "s\<lparr>rs_lock := 1\<rparr>"
  have len: "length (rs_entries s) = kMaxChannels" using ok by (simp add: entries_ok_def)
  show ?thesis
  proof (cases "find_slot (matches name) (rs_entries s)")
    case (Some k)
    then have k: "k < kMaxChannels" "matches name (rs_entries s ! k)" "\<forall>j < k. \<not> matches name (rs_entries s ! j)"
      using len by (simp_all add: find_slot_Some)
    let ?s1 = "goto i (R_Find ?req k) ?l" and ?s2 = "goto i (R_Refresh ?req k) ?l"
    have "reg_step\<^sup>*\<^sup>* s ?s1" using lock_and_find [OF s, of k ?req] k by simp
    moreover have "reg_step ?s1 ?s2" using reg_find_hit [of ?s1 i ?req k] s k by simp
    moreover have "reg_step ?s2 (goto i (R_Unlock ?req True) (?l\<lparr>rs_entries := es'\<rparr>))"
      using reg_refresh [of ?s2 i ?req k now] s r Some by (simp add: register_entries_def)
    ultimately show ?thesis using r Some by (auto simp: register_entries_def)
  next
    case None
    then have none: "\<forall>j < kMaxChannels. \<not> matches name (rs_entries s ! j)" using len by (simp add: find_slot_None)
    let ?s1 = "goto i (R_Find ?req kMaxChannels) ?l" and ?s2 = "goto i (R_Free ?req 0) ?l"
    have "reg_step\<^sup>*\<^sup>* s ?s1" using lock_and_find [OF s, of kMaxChannels ?req] none by simp
    moreover have "reg_step ?s1 ?s2" using reg_find_end [of ?s1 i ?req kMaxChannels] s by simp
    moreover have "reg_step\<^sup>*\<^sup>* ?s2 (goto i (R_Unlock ?req res) (?l\<lparr>rs_entries := es'\<rparr>))"
    proof (cases "find_slot (\<lambda>e. \<not> active e) (rs_entries s)")
      case (Some j)
      then have j: "j < kMaxChannels" "\<not> active (rs_entries s ! j)" "\<forall>k < j. active (rs_entries s ! k)"
        using len by (simp_all add: find_slot_Some)
      have "reg_step\<^sup>*\<^sup>* ?s2 (goto i (R_Free ?req j) ?l)" using s j by (intro free_loop) auto
      moreover have "reg_step\<^sup>*\<^sup>* (goto i (R_Free ?req j) ?l) (goto i (R_Unlock ?req True)
          (set_entry j (set_fields now pid ty sid (copy_name name (rs_entries s ! j))) ?l))"
        using fill_slot [of "goto i (R_Free ?req j) ?l" i ?req j name ty sid now pid] s j ok by simp
      ultimately show ?thesis using r None Some by (auto simp: register_entries_def)
    next
      case none2: None
      then have all: "\<forall>k < kMaxChannels. active (rs_entries s ! k)" using len by (simp add: find_slot_None)
      have "reg_step\<^sup>*\<^sup>* ?s2 (goto i (R_Free ?req kMaxChannels) ?l)" using s all by (intro free_loop) auto
      moreover have "reg_step (goto i (R_Free ?req kMaxChannels) ?l) (goto i (R_Unlock ?req False) ?l)"
        using reg_free_end [of "goto i (R_Free ?req kMaxChannels) ?l" i ?req kMaxChannels] s by simp
      ultimately show ?thesis using r None none2 by (auto simp: register_entries_def)
    qed
    ultimately show ?thesis by (auto intro: rtranclp_trans)
  qed
qed

lemma unregister_run:
  assumes s: "\<not> rs_dead s i" "rs_pc s i = R_Idle" "rs_lock s = 0" and ok: "entries_ok (rs_entries s)"
  shows "reg_step\<^sup>*\<^sup>* s (goto i (R_Unlock (Unregister name) True)
    (s\<lparr>rs_lock := 1, rs_entries := unregister_entries name (rs_entries s)\<rparr>))"
proof -
  let ?req = "Unregister name" and ?l = "s\<lparr>rs_lock := 1\<rparr>"
  have len: "length (rs_entries s) = kMaxChannels" using ok by (simp add: entries_ok_def)
  show ?thesis
  proof (cases "find_slot (matches name) (rs_entries s)")
    case (Some k)
    then have k: "k < kMaxChannels" "matches name (rs_entries s ! k)" "\<forall>j < k. \<not> matches name (rs_entries s ! j)"
      using len by (simp_all add: find_slot_Some)
    let ?s1 = "goto i (R_Find ?req k) ?l" and ?s2 = "goto i (R_Clear ?req k) ?l"
    have "reg_step\<^sup>*\<^sup>* s ?s1" using lock_and_find [OF s, of k ?req] k by simp
    moreover have "reg_step ?s1 ?s2" using reg_find_hit [of ?s1 i ?req k] s k by simp
    moreover have "reg_step ?s2 (goto i (R_Unlock ?req True) (set_entry k ChannelEntry_init ?l))"
      using reg_clear [of ?s2 i ?req k] s by simp
    ultimately show ?thesis using Some by (auto simp: unregister_entries_def)
  next
    case None
    then have "\<forall>j < kMaxChannels. \<not> matches name (rs_entries s ! j)" using len by (simp add: find_slot_None)
    then have "reg_step\<^sup>*\<^sup>* s (goto i (R_Find ?req kMaxChannels) ?l)" using lock_and_find [OF s, of kMaxChannels ?req] by simp
    moreover have "reg_step (goto i (R_Find ?req kMaxChannels) ?l) (goto i (R_Unlock ?req True) ?l)"
      using reg_find_end [of "goto i (R_Find ?req kMaxChannels) ?l" i ?req kMaxChannels] s by simp
    ultimately show ?thesis using None by (auto simp: unregister_entries_def)
  qed
qed

section \<open>The directory\<close>

text \<open>The keys of the entries whose names are complete.\<close>

definition directory :: "reg_sys \<Rightarrow> string set" where
  "directory s = (\<lambda>j. entry_key (rs_entries s ! j)) `
     {j. j < kMaxChannels \<and> j \<notin> building_slots (rs_pc s) \<and> active (rs_entries s ! j)}"

lemma directory_iff:
  "k \<in> directory s \<longleftrightarrow> (\<exists>j < kMaxChannels. j \<notin> building_slots (rs_pc s) \<and> active (rs_entries s ! j) \<and> entry_key (rs_entries s ! j) = k)"
  by (auto simp: directory_def)

lemma building_slots_same:
  assumes "building new = building (pc i)"
  shows "building_slots (pc(i := new)) = building_slots pc"
  using assms unfolding building_slots_def by (force split: if_splits)

lemma directory_move:
  assumes "entries_ok (rs_entries s)" "rs_pc t = (rs_pc s)(i := new)" "same_names (rs_entries s) (rs_entries t)"
    "building new = building (rs_pc s i)"
  shows "directory t = directory s"
proof -
  have "active (rs_entries t ! j) = active (rs_entries s ! j)" "entry_key (rs_entries t ! j) = entry_key (rs_entries s ! j)"
    if "j < kMaxChannels" for j
    using assms(1,3) that by (simp_all add: same_names_def entries_ok_def active_def)
  then show ?thesis
    using building_slots_same [of new "rs_pc s" i, OF assms(4)] unfolding directory_def assms(2) by (auto simp: image_def)
qed

text \<open>
  The owner of the lock sees the whole directory through the slots other than the one it is
  writing.
\<close>

lemma directory_owner:
  assumes "reg_sys_ok s" "in_cs (rs_pc s i)"
  shows "directory s = (\<lambda>j. entry_key (rs_entries s ! j)) `
    {j. j < kMaxChannels \<and> j \<notin> building (rs_pc s i) \<and> active (rs_entries s ! j)}"
  using owner_building [OF assms] by (simp add: directory_def)

lemma directory_free_hit:
  assumes ok: "reg_sys_ok s" and pc: "rs_pc s i = R_Free req k" and k: "\<not> active (rs_entries s ! k)"
    and t: "t = goto i (R_Name req k 0) s" and okt: "reg_sys_ok t"
  shows "directory t = directory s"
proof -
  have "directory t = (\<lambda>j. entry_key (rs_entries s ! j)) ` {j. j < kMaxChannels \<and> j \<noteq> k \<and> active (rs_entries s ! j)}"
    using directory_owner [OF okt, of i] by (simp add: t)
  moreover have "{j. j < kMaxChannels \<and> j \<noteq> k \<and> active (rs_entries s ! j)} = {j. j < kMaxChannels \<and> active (rs_entries s ! j)}"
    using k by auto
  ultimately show ?thesis using directory_owner [OF ok, of i] by (simp add: pc)
qed

lemma directory_char:
  assumes ok: "reg_sys_ok s" and pc: "rs_pc s i = R_Name req j k"
    and t: "t = goto i (R_Name req j (Suc k)) (set_entry j e s)" and okt: "reg_sys_ok t"
  shows "directory t = directory s"
proof -
  let ?J = "\<lambda>u. {l. l < kMaxChannels \<and> l \<noteq> j \<and> active (rs_entries u ! l)}"
  have "directory t = (\<lambda>l. entry_key (rs_entries t ! l)) ` ?J t"
    using directory_owner [OF okt, of i] by (simp add: t)
  also have "?J t = ?J s" by (auto simp: t)
  also have "(\<lambda>l. entry_key (rs_entries t ! l)) ` ?J s = (\<lambda>l. entry_key (rs_entries s ! l)) ` ?J s"
    by (rule image_cong) (auto simp: t)
  finally show ?thesis using directory_owner [OF ok, of i] by (simp add: pc)
qed

lemma directory_last_char:
  assumes ok: "reg_sys_ok s" and pc: "rs_pc s i = R_Name req j k" and key: "entry_key e = channel_key (request_name req)"
    and t: "t = goto i (R_Fields req j) (set_entry j e s)" and okt: "reg_sys_ok t"
  shows "directory t = (if channel_key (request_name req) = [] then directory s
      else insert (channel_key (request_name req)) (directory s))"
    and "channel_key (request_name req) \<notin> directory s" "card (directory s) < kMaxChannels"
proof -
  let ?key = "channel_key (request_name req)"
  let ?J = "{l. l < kMaxChannels \<and> l \<noteq> j \<and> active (rs_entries s ! l)}"
  note d = reg_sys_okD(1) [OF ok] and p = reg_sys_okD(4) [OF ok, of i, unfolded pc, simplified]
  have dir: "directory s = (\<lambda>l. entry_key (rs_entries s ! l)) ` ?J" using directory_owner [OF ok, of i] by (simp add: pc)
  have len: "length (rs_entries s) = kMaxChannels" using d by (simp add: entries_ok_def)
  have j: "j < kMaxChannels" "rs_entries t ! j = e" using p len by (simp_all add: t)
  have act: "active e \<longleftrightarrow> ?key \<noteq> []" using entries_active [OF reg_sys_okD(1) [OF okt] j(1)] by (simp add: j key)
  have "directory t = (\<lambda>l. entry_key (rs_entries t ! l)) ` {l. l < kMaxChannels \<and> active (rs_entries t ! l)}"
    using directory_owner [OF okt, of i] by (simp add: t)
  also have "{l. l < kMaxChannels \<and> active (rs_entries t ! l)} = (if ?key = [] then {} else {j}) \<union> ?J"
    using act j len by (auto simp: t nth_list_update_read split: if_splits)
  also have "(\<lambda>l. entry_key (rs_entries t ! l)) ` \<dots> = (if ?key = [] then {} else {?key}) \<union> directory s"
    unfolding dir image_Un by (rule arg_cong2 [where f = "(\<union>)"]) (auto simp: j key, auto simp: t image_iff)
  finally show "directory t = (if ?key = [] then directory s else insert ?key (directory s))" by simp
  show "?key \<notin> directory s" using p by (auto simp: dir entries_matches [OF d])
  have "card (directory s) \<le> card ?J" unfolding dir by (rule card_image_le) simp
  also have "\<dots> < card {..<kMaxChannels}" using j(1) by (intro psubset_card_mono) auto
  finally show "card (directory s) < kMaxChannels" by simp
qed

lemma directory_clear:
  assumes ok: "reg_sys_ok s" and pc: "rs_pc s i = R_Clear req k"
    and t: "t = goto i (R_Unlock req True) (set_entry k ChannelEntry_init s)" and okt: "reg_sys_ok t"
  shows "directory t = directory s - {channel_key (request_name req)}" "channel_key (request_name req) \<in> directory s"
proof -
  let ?key = "channel_key (request_name req)" and ?f = "\<lambda>l. entry_key (rs_entries s ! l)"
  let ?J = "{l. l < kMaxChannels \<and> active (rs_entries s ! l)}"
  note d = reg_sys_okD(1) [OF ok]
  have p: "k < kMaxChannels" "matches (request_name req) (rs_entries s ! k)" using reg_sys_okD(4) [OF ok, of i] by (simp_all add: pc)
  have len: "length (rs_entries s) = kMaxChannels" using d by (simp add: entries_ok_def)
  have dir: "directory s = ?f ` ?J" using directory_owner [OF ok, of i] by (simp add: pc)
  have k: "k \<in> ?J" "?f k = ?key" using p by (simp_all add: entries_matches [OF d])
  then show "?key \<in> directory s" unfolding dir by force
  have inj: "inj_on ?f ?J"
    using owner_distinct [OF ok, of i] len by (simp add: pc distinct_keys_def inj_on_def)
  have "directory t = (\<lambda>l. entry_key (rs_entries t ! l)) ` {l. l < kMaxChannels \<and> active (rs_entries t ! l)}"
    using directory_owner [OF okt, of i] by (simp add: t)
  also have "{l. l < kMaxChannels \<and> active (rs_entries t ! l)} = ?J - {k}"
    using p(1) len by (auto simp: t nth_list_update_read active_def ChannelEntry_init_def split: if_splits)
  also have "(\<lambda>l. entry_key (rs_entries t ! l)) ` (?J - {k}) = ?f ` (?J - {k})" by (rule image_cong) (auto simp: t)
  also have "\<dots> = ?f ` ?J - {?key}" using inj_on_image_set_diff [OF inj, of ?J "{k}"] k by auto
  finally show "directory t = directory s - {?key}" by (simp only: dir)
qed

lemma card_directory_full:
  assumes ok: "reg_sys_ok s" and own: "in_cs (rs_pc s i)" "building (rs_pc s i) = {}"
    and all: "\<forall>j < kMaxChannels. active (rs_entries s ! j)"
  shows "card (directory s) = kMaxChannels"
proof -
  let ?f = "\<lambda>l. entry_key (rs_entries s ! l)"
  have "directory s = ?f ` {..<kMaxChannels}" using directory_owner [OF ok own(1)] own(2) all by auto
  moreover have "inj_on ?f {..<kMaxChannels}"
    using owner_distinct [OF ok own(1)] own(2) all reg_sys_okD(1) [OF ok]
    by (simp add: distinct_keys_def inj_on_def entries_ok_def)
  ultimately show ?thesis by (simp add: card_image)
qed

lemma returned_result:
  assumes ok: "reg_sys_ok s" and pc: "rs_pc s i = R_Unlock req r"
  shows "if is_register req
    then if r then channel_key (request_name req) \<in> directory s \<or> channel_key (request_name req) = []
         else channel_key (request_name req) \<notin> directory s \<and> card (directory s) = kMaxChannels
    else channel_key (request_name req) \<notin> directory s"
proof -
  let ?key = "channel_key (request_name req)"
  note d = reg_sys_okD(1) [OF ok] and p = reg_sys_okD(4) [OF ok, of i, unfolded pc]
  have own: "in_cs (rs_pc s i)" "building (rs_pc s i) = {}" by (simp_all add: pc)
  have mem: "?key \<in> directory s \<longleftrightarrow> (\<exists>j < kMaxChannels. matches (request_name req) (rs_entries s ! j))"
    using directory_owner [OF ok own(1)] own(2) entries_matches [OF d] by (auto simp: image_iff)
  have found: "?key \<in> directory s \<or> ?key = []" if "j < kMaxChannels" "entry_key (rs_entries s ! j) = ?key" for j
    using mem entries_matches [OF d that(1)] entries_active [OF d that(1)] that by metis
  show ?thesis
    using p mem found card_directory_full [OF ok own] by (auto split: if_splits)
qed

section \<open>Properties\<close>

text \<open>
  C5. The registry under concurrency. In every interleaving of any number of threads and processes, some
  of which may die at any step: at most one thread is between taking and releasing the lock; when no
  thread is in the middle of copying a name, the table is well formed, so no two active entries
  have the same key; a thread that is about to return from a registration has its key in the
  directory if the result is \<open>true\<close> (or the key is empty), and sees a full directory without its key
  if it is \<open>false\<close>; after a removal the key is gone.
\<close>

theorem registry_concurrent:
  assumes "reachable reg_sys_init reg_step s"
  shows "(\<forall>i j. in_cs (rs_pc s i) \<and> in_cs (rs_pc s j) \<longrightarrow> i = j) \<and>
    (building_slots (rs_pc s) = {} \<longrightarrow> table_ok (rs_entries s)) \<and>
    (\<forall>i req r. rs_pc s i = R_Unlock req r \<longrightarrow>
      (if is_register req
       then if r then channel_key (request_name req) \<in> directory s \<or> channel_key (request_name req) = []
            else channel_key (request_name req) \<notin> directory s \<and> card (directory s) = kMaxChannels
       else channel_key (request_name req) \<notin> directory s))"
proof -
  have ok: "reg_sys_ok s" by (rule registry_sys.reachable_inv [OF assms])
  have "table_ok (rs_entries s)" if "building_slots (rs_pc s) = {}"
    using reg_sys_okD(1,5) [OF ok] that by (simp add: table_ok_def entries_ok_def distinct_keys_def)
  then show ?thesis using reg_sys_okD(2) [OF ok] returned_result [OF ok] by blast
qed

text \<open>
  C23. Registrations and removals are atomic. Every step of the concurrent system leaves the directory
  alone, or adds one key, that of a registration whose name is now complete and which was absent from
  a directory that was not full, or removes one key, that of a removal in progress.
\<close>

theorem registry_steps_atomic:
  assumes "reachable reg_sys_init reg_step s" "reg_step s t"
  shows "directory t = directory s \<or>
    (\<exists>i req j. rs_pc s i = R_Name req j 63 \<and> channel_key (request_name req) \<notin> directory s \<and>
       card (directory s) < kMaxChannels \<and> directory t = insert (channel_key (request_name req)) (directory s)) \<or>
    (\<exists>i req k. rs_pc s i = R_Clear req k \<and> channel_key (request_name req) \<in> directory s \<and>
       directory t = directory s - {channel_key (request_name req)})"
proof -
  have ok: "reg_sys_ok s" by (rule registry_sys.reachable_inv [OF assms(1)])
  have okt: "reg_sys_ok t" by (rule reg_step_ok [OF assms(2) ok])
  note ent = reg_sys_okD(1) [OF ok] and move = directory_move [OF reg_sys_okD(1) [OF ok], of t]
  from assms(2) show ?thesis
  proof cases
    case (reg_clear i req k)
    then show ?thesis using directory_clear [OF ok reg_clear(2,1) okt] by blast
  next
    case (reg_free_hit i req k)
    then show ?thesis using directory_free_hit [OF ok reg_free_hit(2,5,1) okt] by blast
  next
    case (reg_char i req j k)
    then show ?thesis using directory_char [OF ok reg_char(2,1) okt] by blast
  next
    case (reg_last_char i req j k)
    have "k = 63" using reg_last_char(2,4) reg_sys_okD(4) [OF ok, of i] by simp
    with directory_last_char [OF ok reg_last_char(2) reg_ok_last_char(2) [OF ok reg_last_char(2,4)] reg_last_char(1) okt]
    show ?thesis using reg_last_char(2) by (cases "channel_key (request_name req) = []") (simp, (simp, blast))
  next
    case (reg_crash i)
    then show ?thesis by (simp add: directory_def)
  qed (use move in \<open>fastforce split: if_splits\<close>)+
qed

lemma unlock_run:
  assumes "reg_step\<^sup>*\<^sup>* s (goto i (R_Unlock req r) (s\<lparr>rs_lock := 1, rs_entries := es\<rparr>))"
    and "rs_pc s i = R_Idle" "\<not> rs_dead s i"
  shows "reg_step\<^sup>*\<^sup>* s (s\<lparr>rs_lock := 0, rs_entries := es\<rparr>)"
proof -
  let ?t = "goto i (R_Unlock req r) (s\<lparr>rs_lock := 1, rs_entries := es\<rparr>)"
  have "goto i R_Idle (?t\<lparr>rs_lock := 0\<rparr>) = s\<lparr>rs_lock := 0, rs_entries := es\<rparr>"
    using assms(2) by (cases s) (simp add: fun_upd_idem)
  moreover have "reg_step\<^sup>*\<^sup>* ?t (goto i R_Idle (?t\<lparr>rs_lock := 0\<rparr>))" using assms(3) by (intro finish_locked) simp_all
  ultimately show ?thesis using assms(1) by (metis rtranclp_trans)
qed

text \<open>
  The sequential definitions are the uninterrupted runs of the concurrent system: in every reachable
  state with a free lock, a live idle thread can run a registration or a removal to its end without
  interruption, and the table and the result are those of \<open>register_channel\<close> and
  \<open>unregister_channel\<close>.
\<close>

theorem registry_sequential_runs:
  assumes "reachable reg_sys_init reg_step s" "rs_lock s = 0" "rs_pc s i = R_Idle" "\<not> rs_dead s i" "reg_header h \<noteq> 0"
  shows "(\<exists>r mem. register_channel [False] now pid h name ty sid \<lparr>reg_lock = rs_lock s, reg_entries = rs_entries s\<rparr> = Some (r, mem) \<and>
      reg_step\<^sup>*\<^sup>* s (goto i (R_Unlock (Register name ty sid) r) (s\<lparr>rs_lock := 1, rs_entries := reg_entries mem\<rparr>)) \<and>
      reg_step\<^sup>*\<^sup>* s (s\<lparr>rs_lock := reg_lock mem, rs_entries := reg_entries mem\<rparr>)) \<and>
    (\<exists>mem. unregister_channel [False] h name \<lparr>reg_lock = rs_lock s, reg_entries = rs_entries s\<rparr> = Some mem \<and>
      reg_step\<^sup>*\<^sup>* s (s\<lparr>rs_lock := reg_lock mem, rs_entries := reg_entries mem\<rparr>))"
proof -
  let ?mem = "\<lparr>reg_lock = rs_lock s, reg_entries = rs_entries s\<rparr>"
  have ent: "entries_ok (rs_entries s)" by (rule reg_sys_okD(1) [OF registry_sys.reachable_inv [OF assms(1)]])
  obtain r es where r: "register_entries now pid name ty sid (rs_entries s) = (r, es)" by fastforce
  note run = register_run [OF assms(4,3,2) ent r] and run2 = unregister_run [OF assms(4,3,2) ent, of name]
  have "register_channel [False] now pid h name ty sid ?mem = Some (r, ?mem\<lparr>reg_entries := es\<rparr>)"
    using register_channel_free [OF assms(5), of ?mem "[False]"] assms(2) r by simp
  moreover have "unregister_channel [False] h name ?mem = Some (?mem\<lparr>reg_entries := unregister_entries name (rs_entries s)\<rparr>)"
    using unregister_channel_free [OF assms(5), of ?mem "[False]"] assms(2) by simp
  ultimately show ?thesis using run unlock_run [OF run assms(3,4)] unlock_run [OF run2 assms(3,4)] assms(2) by simp
qed

text \<open>
  A dead owner blocks the registry for good. When the lock is taken and every thread inside the
  critical section is dead, then whatever happens afterwards the lock stays taken, a thread that waits
  for it goes on waiting, and the table keeps its names.
\<close>

theorem dead_owner_blocks:
  assumes "rs_lock s \<noteq> 0" "\<forall>i. in_cs (rs_pc s i) \<longrightarrow> rs_dead s i" "reg_step\<^sup>*\<^sup>* s t"
  shows "rs_lock t = rs_lock s \<and> (\<forall>i. in_cs (rs_pc t i) \<longrightarrow> rs_dead t i) \<and>
    (\<forall>i req. rs_pc s i = R_Spin req \<longrightarrow> rs_pc t i = R_Spin req) \<and> same_names (rs_entries s) (rs_entries t)"
  using assms(3)
proof (induction rule: rtranclp_induct)
  case base
  then show ?case using assms(2) by simp
next
  case (step t u)
  have trans: "same_names (rs_entries t) es \<Longrightarrow> same_names (rs_entries s) es" for es
    using step.IH by (simp add: same_names_def)
  show ?case using step.hyps(2)
  proof cases
    case (reg_lock i req)
    then show ?thesis using step.IH assms(1) by simp
  qed (use step.IH trans in \<open>force split: if_splits\<close>)+
qed

section \<open>Concrete runs\<close>

definition idle_sys :: reg_sys where
  "idle_sys = \<lparr>rs_lock = 0, rs_entries = reg_entries registry_zero, rs_pc = (\<lambda>_. R_Idle), rs_dead = (\<lambda>_. False)\<rparr>"

lemma idle_sys_facts [simp]: "rs_lock idle_sys = 0" "rs_pc idle_sys i = R_Idle" "\<not> rs_dead idle_sys i"
  "rs_entries idle_sys = reg_entries registry_zero"
  by (simp_all add: idle_sys_def)

lemma idle_sys_reachable: "reachable reg_sys_init reg_step idle_sys"
  by (rule reach_init) (simp add: reg_sys_init_def idle_sys_def registry_zero_def)

lemma idle_entries_ok: "entries_ok (reg_entries registry_zero)"
  using registry_zero_ok(1) by (simp add: table_ok_def entries_ok_def)

theorem registry_concurrent_witness:
  "''/imu'' \<in> directory (goto 0 (R_Unlock (Register ''/imu'' IMU 2) True) (idle_sys\<lparr>rs_lock := 1,
     rs_entries := snd (register_entries 1 7 ''/imu'' IMU 2 (reg_entries registry_zero))\<rparr>))"
proof -
  have k: "channel_key ''/imu'' = ''/imu''" by (simp add: channel_key_def)
  let ?r = "register_entries 1 7 ''/imu'' IMU 2 (reg_entries registry_zero)"
  have "fst ?r = True"
    using register_new [OF registry_zero_ok(1), of "''/imu''" 1 7 IMU 2] by (auto simp: k registry_zero_ok(2) kMaxChannels_def)
  then have r: "register_entries 1 7 ''/imu'' IMU 2 (rs_entries idle_sys) = (True, snd ?r)" by (simp add: prod_eq_iff)
  have "reg_step\<^sup>*\<^sup>* idle_sys (goto 0 (R_Unlock (Register ''/imu'' IMU 2) True) (idle_sys\<lparr>rs_lock := 1, rs_entries := snd ?r\<rparr>))"
    using register_run [OF _ _ _ _ r, of 0] idle_entries_ok by simp
  note reach = reachable_run [OF this idle_sys_reachable]
  note all = registry_concurrent [OF reach, THEN conjunct2, THEN conjunct2, rule_format, of 0 "Register ''/imu'' IMU 2" True]
  show ?thesis using all k by (simp del: idle_sys_facts(4))
qed

theorem registry_steps_atomic_witness:
  "directory (goto 0 (R_Spin (Unregister ''/a'')) idle_sys) = directory idle_sys"
  using registry_steps_atomic [OF idle_sys_reachable reg_call [of idle_sys 0 "Unregister ''/a''"]] by simp

theorem registry_sequential_runs_witness:
  "\<exists>mem. unregister_channel [False] open_handle ''/a'' registry_zero = Some mem \<and>
     reg_step\<^sup>*\<^sup>* idle_sys (idle_sys\<lparr>rs_lock := reg_lock mem, rs_entries := reg_entries mem\<rparr>)"
proof -
  have "\<lparr>reg_lock = rs_lock idle_sys, reg_entries = rs_entries idle_sys\<rparr> = registry_zero" by (simp add: registry_zero_def)
  then show ?thesis
    using registry_sequential_runs [OF idle_sys_reachable, of 0 open_handle 1 7 "''/a''" IMU 0] by (simp add: open_handle_def)
qed

definition orphaned :: reg_sys where
  "orphaned = idle_sys\<lparr>rs_lock := 1, rs_pc := (rs_pc idle_sys)(0 := R_Find (Unregister ''/a'') 0, 1 := R_Spin (Unregister ''/b'')),
     rs_dead := (rs_dead idle_sys)(0 := True)\<rparr>"

theorem dead_owner_blocks_witness:
  "reachable reg_sys_init reg_step orphaned \<and> reg_step\<^sup>*\<^sup>* orphaned (goto 2 (R_Spin (Unregister ''/c'')) orphaned) \<and>
   rs_pc (goto 2 (R_Spin (Unregister ''/c'')) orphaned) 1 = R_Spin (Unregister ''/b'') \<and>
   rs_lock (goto 2 (R_Spin (Unregister ''/c'')) orphaned) \<noteq> 0"
proof -
  let ?a = "Unregister ''/a''" and ?b = "Unregister ''/b''"
  let ?s1 = "goto 0 (R_Find ?a 0) (idle_sys\<lparr>rs_lock := 1\<rparr>)"
  let ?s2 = "goto 1 (R_Spin ?b) ?s1"
  have "reg_step\<^sup>*\<^sup>* idle_sys ?s1" by (rule lock_and_find) simp_all
  moreover have "reg_step ?s1 ?s2" by (rule reg_call) simp_all
  moreover have "reg_step ?s2 orphaned" using reg_crash [of ?s2 0] by (simp add: orphaned_def)
  ultimately have "reachable reg_sys_init reg_step orphaned"
    by (meson idle_sys_reachable reach_step reachable_run)
  moreover have st: "reg_step\<^sup>*\<^sup>* orphaned (goto 2 (R_Spin (Unregister ''/c'')) orphaned)"
    by (rule r_into_rtranclp, rule reg_call) (simp_all add: orphaned_def)
  moreover have "rs_lock orphaned \<noteq> 0" "\<forall>i. in_cs (rs_pc orphaned i) \<longrightarrow> rs_dead orphaned i"
    by (simp_all add: orphaned_def)
  moreover have "rs_pc orphaned 1 = R_Spin ?b" by (simp add: orphaned_def)
  ultimately show ?thesis using dead_owner_blocks [of orphaned] by metis
qed

lemma channel_key_id: "NUL \<notin> set k \<Longrightarrow> length k \<le> 63 \<Longrightarrow> channel_key k = k"
proof -
  assume "NUL \<notin> set k" "length k \<le> 63"
  then have "takeWhile (\<lambda>c. c \<noteq> NUL) k = k" unfolding takeWhile_eq_all_conv by auto
  then show "channel_key k = k" unfolding channel_key_def using \<open>length k \<le> 63\<close> by (simp only: take_all)
qed

text \<open>
  A reader sees names that nobody registers. While \<open>strncpy\<close> copies a name into a cleared entry,
  every proper prefix of it is for a moment the name of an active entry: in a reachable state in which
  the only request ever made is a registration of \<open>name\<close>, \<open>contains\<close> reports the prefix.
\<close>

theorem torn_name_listed:
  assumes "0 < m" "m < length (channel_key name)"
  shows "\<exists>s. reachable reg_sys_init reg_step s \<and> rs_pc s = (\<lambda>_. R_Idle)(0 := R_Name (Register name ty sid) 0 m) \<and>
    contains open_handle (take m (channel_key name)) \<lparr>reg_lock = rs_lock s, reg_entries = rs_entries s\<rparr>"
proof -
  let ?req = "Register name ty sid" and ?l = "idle_sys\<lparr>rs_lock := 1\<rparr>" and ?p = "take m (channel_key name)"
  let ?es = "reg_entries registry_zero"
  have z: "length ?es = kMaxChannels" "j < kMaxChannels \<Longrightarrow> ?es ! j = ChannelEntry_init" for j by (simp_all add: registry_zero_def)
  have zi: "\<not> active ChannelEntry_init" "length (ce_name ChannelEntry_init) = 64" by (simp_all add: active_def ChannelEntry_init_def)
  have 0: "0 < kMaxChannels" by (simp add: kMaxChannels_def)
  have m64: "m < 64" using assms(2) length_channel_key [of name] by simp
  let ?s1 = "goto 0 (R_Find ?req kMaxChannels) ?l" and ?s2 = "goto 0 (R_Free ?req 0) ?l" and ?s3 = "goto 0 (R_Name ?req 0 0) ?l"
  let ?s = "goto 0 (R_Name ?req 0 m) (set_entry 0 (part_name name m ChannelEntry_init) ?l)"
  have "reg_step\<^sup>*\<^sup>* idle_sys ?s1" by (rule lock_and_find) (simp_all add: z zi matches_def)
  moreover have "reg_step ?s1 ?s2" using reg_find_end [of ?s1 0 ?req kMaxChannels] by simp
  moreover have "reg_step ?s2 ?s3" using reg_free_hit [of ?s2 0 ?req 0] by (simp add: z zi 0)
  moreover have "reg_step\<^sup>*\<^sup>* ?s3 ?s" using name_loop [of ?l 0 m 0 ?req] m64 by (simp add: z zi 0)
  ultimately have reach: "reachable reg_sys_init reg_step ?s" by (meson idle_sys_reachable reach_step reachable_run)
  have key: "channel_key ?p = ?p"
    using channel_key_NUL [of name] length_channel_key [of name] by (intro channel_key_id) (auto dest: in_set_takeD)
  have "ce_name (part_name name m ChannelEntry_init) = name_array (channel_key ?p)"
    using assms(2) m64 by (simp add: key part_name_def name_array_def ChannelEntry_init_def)
  then have "entry_key (part_name name m ChannelEntry_init) = channel_key ?p" by simp
  moreover have ent: "entries_ok (rs_entries ?s)" by (rule reg_sys_okD(1) [OF registry_sys.reachable_inv [OF reach]])
  moreover have "rs_entries ?s ! 0 = part_name name m ChannelEntry_init" by (simp add: z 0)
  moreover have "?p \<noteq> []" using assms by auto
  ultimately have "matches ?p (rs_entries ?s ! 0)"
    using entries_matches [OF ent 0, of ?p] entries_active [OF ent 0] key by metis
  then have "contains open_handle ?p \<lparr>reg_lock = rs_lock ?s, reg_entries = rs_entries ?s\<rparr>"
    using 0 z(1) by (auto simp: contains_def open_handle_def find_slot_None simp del: not_None_eq)
  then show ?thesis using reach by (intro exI [of _ ?s]) (auto simp: idle_sys_def)
qed

theorem torn_name_listed_witness:
  "\<exists>s. reachable reg_sys_init reg_step s \<and> rs_pc s = (\<lambda>_. R_Idle)(0 := R_Name (Register ''/lidar'' POINTCLOUD 1) 0 3) \<and>
    contains open_handle ''/li'' \<lparr>reg_lock = rs_lock s, reg_entries = rs_entries s\<rparr>"
proof -
  have "channel_key ''/lidar'' = ''/lidar''" by (simp add: channel_key_def)
  then show ?thesis using torn_name_listed [of 3 "''/lidar''" POINTCLOUD 1] by simp
qed

text \<open>
  One registration in the empty table: it uses slot 0, and the table then lists that channel alone.
\<close>

lemma register_first:
  fixes name now pid ty sid
  defines "e \<equiv> set_fields now pid ty sid (copy_name name ChannelEntry_init)"
    and "es \<equiv> (reg_entries registry_zero)[0 := set_fields now pid ty sid (copy_name name ChannelEntry_init)]"
  assumes "channel_key name \<noteq> []"
  shows "register_entries now pid name ty sid (reg_entries registry_zero) = (True, es)" "table_ok es" "es ! 0 = e"
    "lookup es = [channel_key name \<mapsto> channel_entry name (now, pid, ty, sid) None]"
    "es ! 0 = channel_entry name (now, pid, ty, sid) None" "active (es ! 0)" "entry_key (es ! 0) = channel_key name"
    "unregister_entries name es = reg_entries registry_zero" "matches name (es ! 0)"
proof -
  let ?z = "reg_entries registry_zero"
  have 0: "0 < kMaxChannels" by (simp add: kMaxChannels_def)
  have z: "length ?z = kMaxChannels" "?z ! 0 = ChannelEntry_init" "\<not> active (?z ! 0)"
    using 0 by (simp_all add: registry_zero_def active_def ChannelEntry_init_def)
  have none: "find_slot (matches name) ?z = None"
    using find_matches_None [OF registry_zero_ok(1), of name] by (simp add: registry_zero_ok(2))
  have free: "find_slot (\<lambda>e. \<not> active e) ?z = Some 0" using 0 z by (simp add: find_slot_Some)
  show reg: "register_entries now pid name ty sid ?z = (True, es)"
    by (simp add: register_entries_def none free z es_def)
  then show ok: "table_ok es" and lk: "lookup es = [channel_key name \<mapsto> channel_entry name (now, pid, ty, sid) None]"
    using register_new [OF registry_zero_ok(1), of name now pid ty sid] assms(3)
    by (simp_all add: registry_zero_ok(2) kMaxChannels_def)
  show e0: "es ! 0 = e" using 0 z by (simp add: es_def e_def)
  obtain i where i: "find_slot (matches name) es = Some i"
    using find_matches_None [OF ok, of name] lk by fastforce
  note f = lookup_found [OF ok i]
  have "i = 0"
  proof (rule ccontr)
    assume "i \<noteq> 0"
    then have "es ! i = ChannelEntry_init" using f(1) by (simp add: es_def registry_zero_def)
    then show False using f(2) by (simp add: active_def ChannelEntry_init_def)
  qed
  then show "es ! 0 = channel_entry name (now, pid, ty, sid) None" "active (es ! 0)"
    "entry_key (es ! 0) = channel_key name" "matches name (es ! 0)"
    using f i lk by (auto simp: find_slot_Some)
  have "?z[0 := ChannelEntry_init] = ?z" using z by (metis list_update_id)
  then show "unregister_entries name es = ?z"
    using i \<open>i = 0\<close> by (simp add: unregister_entries_def es_def)
qed

text \<open>
  A late \<open>touch\<close> keeps another channel alive. \<open>touch\<close> searches and stores without the lock, and
  between the two holds only the index of the entry: in a reachable run thread 1 has found the entry of
  \<open>a\<close>, thread 0 removes \<open>a\<close> and registers \<open>b\<close> in the freed slot, and the store of thread 1 then
  overwrites the heartbeat of \<open>b\<close>, a channel that thread 1 never named.
\<close>

theorem touch_other_channel:
  assumes "channel_key a \<noteq> []" "channel_key b \<noteq> []"
  shows "\<exists>s0 s1 s2 s3. reachable reg_sys_init reg_step s0 \<and> rs_pc s0 = (\<lambda>_. R_Idle)(1 := R_Touch_find a 0) \<and>
    reg_step s0 s1 \<and> rs_pc s1 = (\<lambda>_. R_Idle)(1 := R_Touch_store 0) \<and> reg_step\<^sup>*\<^sup>* s1 s2 \<and>
    lookup (rs_entries s2) = [channel_key b \<mapsto> channel_entry b (now, pid, ty, sid) None] \<and>
    reg_step s2 s3 \<and> rs_pc s3 = (\<lambda>_. R_Idle) \<and>
    lookup (rs_entries s3) = [channel_key b \<mapsto> (channel_entry b (now, pid, ty, sid) None)\<lparr>heartbeat_ns := late\<rparr>]"
proof -
  let ?z = "reg_entries registry_zero"
  define ea where "ea = ?z[0 := set_fields now pid ty sid (copy_name a ChannelEntry_init)]"
  define eb where "eb = ?z[0 := set_fields now pid ty sid (copy_name b ChannelEntry_init)]"
  note A = register_first [OF assms(1), of now pid ty sid, folded ea_def]
  note B = register_first [OF assms(2), of now pid ty sid, folded eb_def]
  have ok: "entries_ok ea" "entries_ok eb" using A(2) B(2) by (simp_all add: table_ok_def entries_ok_def)
  have 0: "0 < kMaxChannels" "0 < length eb" using B(2) by (simp_all add: kMaxChannels_def table_ok_def)
  let ?q = "idle_sys\<lparr>rs_lock := 0, rs_entries := ea\<rparr>"
  let ?s0 = "goto 1 (R_Touch_find a 0) ?q" and ?s1 = "goto 1 (R_Touch_store 0) ?q"
  let ?m = "?s1\<lparr>rs_lock := 0, rs_entries := ?z\<rparr>" and ?s2 = "?s1\<lparr>rs_lock := 0, rs_entries := eb\<rparr>"
  let ?s3 = "goto 1 R_Idle (set_entry 0 (refresh late (rs_entries ?s2 ! 0)) ?s2)"
  have "reg_step\<^sup>*\<^sup>* idle_sys ?q"
    using unlock_run [OF register_run [of idle_sys 0 now pid a ty sid True ea]] A(1) by (simp add: idle_entries_ok)
  moreover have "reg_step ?q ?s0" by (rule touch_call) simp_all
  ultimately have "reachable reg_sys_init reg_step ?s0" by (meson idle_sys_reachable reach_step reachable_run)
  moreover have "reg_step ?s0 ?s1" using touch_hit [of ?s0 1 a 0] A(9) 0 by simp
  moreover have "reg_step\<^sup>*\<^sup>* ?s1 ?s2"
  proof -
    have "reg_step\<^sup>*\<^sup>* ?s1 ?m"
      using unlock_run [OF unregister_run [of ?s1 0 a]] by (simp add: ok A(8))
    moreover have "reg_step\<^sup>*\<^sup>* ?m (?m\<lparr>rs_lock := 0, rs_entries := eb\<rparr>)"
      using unlock_run [OF register_run [of ?m 0 now pid b ty sid True eb]] B(1) by (simp add: idle_entries_ok)
    ultimately show ?thesis by simp
  qed
  moreover have "reg_step ?s2 ?s3" by (rule touch_store) simp_all
  moreover have "lookup (rs_entries ?s3) = [channel_key b \<mapsto> (channel_entry b (now, pid, ty, sid) None)\<lparr>heartbeat_ns := late\<rparr>]"
    using update_refresh(2) [OF B(2) 0(2) B(6), of late] B(4,5,7) by (simp add: refresh_def)
  ultimately show ?thesis
    using B(4) by (intro exI [of _ ?s0] exI [of _ ?s1] exI [of _ ?s2] exI [of _ ?s3]) (simp add: idle_sys_def fun_upd_idem)
qed

theorem touch_other_channel_witness:
  "\<exists>s2 s3. reg_step s2 s3 \<and> lookup (rs_entries s2) = [''/b'' \<mapsto> channel_entry ''/b'' (5, 7, IMU, 0) None] \<and>
    lookup (rs_entries s3) = [''/b'' \<mapsto> (channel_entry ''/b'' (5, 7, IMU, 0) None)\<lparr>heartbeat_ns := 90\<rparr>]"
proof -
  have k: "channel_key ''/a'' = ''/a''" "channel_key ''/b'' = ''/b''" by (simp_all add: channel_key_def)
  show ?thesis using touch_other_channel [of "''/a''" "''/b''" 5 7 IMU 0 90] unfolding k by auto
qed

end
