(* ===== verification/Registry_Lock_Weak.thy ===== *)
theory Registry_Lock_Weak
  imports Sync_Policy
begin

text \<open>
  \<open>SpinLockGuard\<close> of \<open>channel_registry.hpp\<close> on the memory model of the policies: the lock is taken by a
  compare-and-swap that acquires, with a relaxed failure, and given back by a store that
  releases. What it protects are the words of the table that only locked operations write; they are accessed
  without any order, inside the critical section by \<open>register_channel\<close> and \<open>unregister_channel\<close> and
  outside, for reading only, by \<open>list\<close>, \<open>contains\<close> and \<open>touch\<close>. (The heartbeats, which \<open>touch\<close> writes
  without the lock, are not among these words.) A process that dies takes no further steps.
\<close>

section \<open>The system\<close>

datatype lock_loc = Lock | Cell nat

datatype lock_pc = L_Out | L_Spin | L_In

record lock_sys =
  lk_mem :: "(lock_loc, u32) memory"
  lk_view :: "nat \<Rightarrow> lock_loc view"
  lk_pc :: "nat \<Rightarrow> lock_pc"

definition lk_mem_init :: "(lock_loc, u32) memory" where
  "lk_mem_init = (\<lambda>_. [\<lparr>msg_val = 0, msg_view = empty_view\<rparr>])"

definition lk_init :: "lock_sys \<Rightarrow> bool" where
  "lk_init s \<longleftrightarrow> lk_mem s = lk_mem_init \<and> lk_view s = (\<lambda>_. empty_view) \<and> lk_pc s = (\<lambda>_. L_Out)"

inductive lk_step :: "lock_sys \<Rightarrow> lock_sys \<Rightarrow> bool" where
  lk_enter: "lk_pc s i = L_Out \<Longrightarrow> lk_step s (s\<lparr>lk_pc := (lk_pc s)(i := L_Spin)\<rparr>)"
| lk_lock: "lk_pc s i = L_Spin \<Longrightarrow>
    atomic_compare_exchange_weak memory_order_acquire memory_order_relaxed Lock k sp 0 1 (lk_mem s) (lk_view s i) = Some (True, e, m, V) \<Longrightarrow>
    lk_step s (s\<lparr>lk_mem := m, lk_view := (lk_view s)(i := V), lk_pc := (lk_pc s)(i := L_In)\<rparr>)"
| lk_busy: "lk_pc s i = L_Spin \<Longrightarrow>
    atomic_compare_exchange_weak memory_order_acquire memory_order_relaxed Lock k sp 0 1 (lk_mem s) (lk_view s i) = Some (False, e, m, V) \<Longrightarrow>
    lk_step s (s\<lparr>lk_mem := m, lk_view := (lk_view s)(i := V)\<rparr>)"
| lk_read: "lk_pc s i = L_In \<or> lk_pc s i = L_Out \<Longrightarrow>
    atomic_load memory_order_relaxed (Cell c) k (lk_mem s) (lk_view s i) = Some (v, V) \<Longrightarrow>
    lk_step s (s\<lparr>lk_view := (lk_view s)(i := V)\<rparr>)"
| lk_write: "lk_pc s i = L_In \<Longrightarrow>
    atomic_store memory_order_relaxed (Cell c) v (lk_mem s) (lk_view s i) = (m, V) \<Longrightarrow>
    lk_step s (s\<lparr>lk_mem := m, lk_view := (lk_view s)(i := V)\<rparr>)"
| lk_unlock: "lk_pc s i = L_In \<Longrightarrow>
    atomic_store memory_order_release Lock 0 (lk_mem s) (lk_view s i) = (m, V) \<Longrightarrow>
    lk_step s (s\<lparr>lk_mem := m, lk_view := (lk_view s)(i := V), lk_pc := (lk_pc s)(i := L_Out)\<rparr>)"

section \<open>The invariant\<close>

text \<open>The knowledge of the table is with the thread inside, or in the message that freed the lock.\<close>

definition up_to_date :: "(lock_loc, u32) memory \<Rightarrow> lock_loc view \<Rightarrow> bool" where
  "up_to_date m V \<longleftrightarrow> (\<forall>c. Suc (V (Cell c)) = length (m (Cell c)))"

definition lk_inv :: "lock_sys \<Rightarrow> bool" where
  "lk_inv s \<longleftrightarrow>
     memory_wf (lk_mem s) \<and> (\<forall>i. view_wf (lk_mem s) (lk_view s i)) \<and>
     (\<forall>i j. lk_pc s i = L_In \<longrightarrow> lk_pc s j = L_In \<longrightarrow> i = j) \<and>
     (\<forall>i. lk_pc s i = L_In \<longrightarrow> newest (lk_mem s) Lock = 1 \<and> up_to_date (lk_mem s) (lk_view s i)) \<and>
     ((\<forall>i. lk_pc s i \<noteq> L_In) \<longrightarrow> up_to_date (lk_mem s) (msg_view (last (lk_mem s Lock))))"

lemma lk_invD:
  assumes "lk_inv s"
  shows "memory_wf (lk_mem s)" "view_wf (lk_mem s) (lk_view s i)" "lk_pc s i = L_In \<Longrightarrow> lk_pc s j = L_In \<Longrightarrow> i = j"
    "lk_pc s i = L_In \<Longrightarrow> newest (lk_mem s) Lock = 1" "lk_pc s i = L_In \<Longrightarrow> up_to_date (lk_mem s) (lk_view s i)"
    "(\<And>i. lk_pc s i \<noteq> L_In) \<Longrightarrow> up_to_date (lk_mem s) (msg_view (last (lk_mem s Lock)))"
  using assms unfolding lk_inv_def by blast+

lemma up_to_date_mono: "up_to_date m V \<Longrightarrow> V \<le> W \<Longrightarrow> view_wf m W \<Longrightarrow> up_to_date m W"
  unfolding up_to_date_def view_wf_def le_fun_def by (metis Suc_leI Suc_le_mono le_antisym)

lemma up_to_date_lock [simp]: "up_to_date (m(Lock := h)) V = up_to_date m V"
  by (simp add: up_to_date_def)

section \<open>Preservation\<close>

text \<open>Loads, of the table or of the lock.\<close>

lemma lk_load_inv:
  assumes inv: "lk_inv s" and ld: "atomic_load mo l k (lk_mem s) (lk_view s i) = Some (v, V)"
  shows "lk_inv (s\<lparr>lk_view := (lk_view s)(i := V)\<rparr>)"
proof -
  note d = lk_invD [OF inv]
  have w: "view_wf (lk_mem s) V" by (rule atomic_load_wf [OF d(1,2) ld])
  have "up_to_date (lk_mem s) V" if "lk_pc s i = L_In"
    using up_to_date_mono [OF d(5) [OF that] atomic_load_Some(4) [OF ld] w] .
  then show ?thesis using d w unfolding lk_inv_def by auto
qed

lemma lk_enter_inv:
  assumes inv: "lk_inv s" and pc: "lk_pc s i = L_Out"
  shows "lk_inv (s\<lparr>lk_pc := (lk_pc s)(i := L_Spin)\<rparr>)" (is "lk_inv ?t")
proof -
  have same: "lk_pc ?t j = L_In \<longleftrightarrow> lk_pc s j = L_In" for j using pc by simp
  show ?thesis using inv unfolding lk_inv_def same by simp
qed

lemma lk_lock_inv:
  assumes inv: "lk_inv s" and pc: "lk_pc s i = L_Spin"
    and cas: "atomic_compare_exchange_weak memory_order_acquire mo Lock k sp 0 1 (lk_mem s) (lk_view s i) = Some (True, e, m, V)"
  shows "lk_inv (s\<lparr>lk_mem := m, lk_view := (lk_view s)(i := V), lk_pc := (lk_pc s)(i := L_In)\<rparr>)"
proof -
  note d = lk_invD [OF inv] and c = compare_exchange_True [OF lk_invD(1,2) [OF inv] cas]
  obtain z where z: "m = (lk_mem s)(Lock := lk_mem s Lock @ [z])" "msg_val z = 1" using c(3) by blast
  have out: "lk_pc s j \<noteq> L_In" for j using d(4) [of j] c(1) by auto
  have "up_to_date m V"
    using up_to_date_mono [OF _ compare_exchange_acquires [OF cas] c(5)] d(6) [OF out] by (simp add: z)
  moreover have "view_wf m (lk_view s j)" for j by (rule view_wf_later [OF c(6) d(2)])
  ultimately show ?thesis using c(4,5) out z by (auto simp: lk_inv_def newest_def)
qed

lemma lk_write_inv:
  assumes inv: "lk_inv s" and pc: "lk_pc s i = L_In"
    and st: "atomic_store mo (Cell c) v (lk_mem s) (lk_view s i) = (m, V)"
  shows "lk_inv (s\<lparr>lk_mem := m, lk_view := (lk_view s)(i := V)\<rparr>)"
proof -
  note d = lk_invD [OF inv] and w = atomic_store_wf [OF lk_invD(1,2) [OF inv] st]
  obtain z where z: "m = (lk_mem s)(Cell c := lk_mem s (Cell c) @ [z])" "V = (lk_view s i)(Cell c := length (lk_mem s (Cell c)))"
    using st by (auto simp: atomic_store_def Let_def)
  have "up_to_date m V" "newest m Lock = 1" using d(4,5) [OF pc] by (auto simp: z up_to_date_def newest_def)
  moreover have "view_wf m (lk_view s j)" for j by (rule view_wf_later [OF w(3) d(2)])
  ultimately show ?thesis using w(1,2) pc d(3) unfolding lk_inv_def by auto
qed

lemma lk_unlock_inv:
  assumes inv: "lk_inv s" and pc: "lk_pc s i = L_In"
    and st: "atomic_store memory_order_release Lock 0 (lk_mem s) (lk_view s i) = (m, V)"
  shows "lk_inv (s\<lparr>lk_mem := m, lk_view := (lk_view s)(i := V), lk_pc := (lk_pc s)(i := L_Out)\<rparr>)"
proof -
  note d = lk_invD [OF inv] and w = atomic_store_wf [OF lk_invD(1,2) [OF inv] st]
  have m: "m = (lk_mem s)(Lock := lk_mem s Lock @ [\<lparr>msg_val = 0, msg_view = V\<rparr>])"
    using st by (auto simp: atomic_store_def released_def Let_def)
  have "lk_view s i \<le> V" by (rule w(4))
  then have "up_to_date m V" using up_to_date_mono [OF _ _ w(2)] d(5) [OF pc] by (simp add: m)
  then have "up_to_date m (msg_view (last (m Lock)))" by (simp add: m)
  moreover have "lk_pc s j \<noteq> L_In" if "j \<noteq> i" for j using d(3) [OF pc] that by blast
  moreover have "view_wf m (lk_view s j)" for j by (rule view_wf_later [OF w(3) d(2)])
  ultimately show ?thesis using w(1,2) by (auto simp: lk_inv_def)
qed

interpretation lk_run: invariant_system lk_init lk_step lk_inv
proof
  fix s assume i: "lk_init s"
  have wf: "memory_wf lk_mem_init" by (simp add: memory_wf_def lk_mem_init_def view_wf_def empty_view_def)
  have "up_to_date lk_mem_init (msg_view (last (lk_mem_init Lock)))" by (simp add: up_to_date_def lk_mem_init_def empty_view_def)
  then show "lk_inv s" using i wf view_wf_empty [OF wf] by (simp add: lk_init_def lk_inv_def)
next
  fix s t assume st: "lk_step s t" and inv: "lk_inv s"
  from st show "lk_inv t"
  proof cases
    case (lk_enter i)
    then show ?thesis using lk_enter_inv [OF inv] by blast
  next
    case (lk_busy i k sp e m V)
    then show ?thesis using compare_exchange_False [OF lk_busy(3)] lk_load_inv [OF inv] by simp
  qed (use inv in \<open>auto intro: lk_lock_inv lk_load_inv lk_write_inv lk_unlock_inv\<close>)
qed

section \<open>Properties\<close>

text \<open>
  C19. The orders of the spinlock are enough. At most one thread is inside the critical section, and
  every load that it makes there of a word of the table returns the newest value, although loads
  are free to return old messages: the locked operations of the registry see the table as if all
  accesses were interleaved.
\<close>

theorem spinlock_protects:
  assumes "reachable lk_init lk_step s" "lk_pc s i = L_In"
  shows "(\<forall>j. lk_pc s j = L_In \<longrightarrow> j = i) \<and>
    (\<forall>mo c k v V. atomic_load mo (Cell c) k (lk_mem s) (lk_view s i) = Some (v, V) \<longrightarrow> v = newest (lk_mem s) (Cell c))"
proof -
  note d = lk_invD [OF lk_run.reachable_inv [OF assms(1)]]
  have "v = newest (lk_mem s) (Cell c)" if "atomic_load mo (Cell c) k (lk_mem s) (lk_view s i) = Some (v, V)" for mo c k v V
  proof -
    note a = atomic_load_Some [OF that]
    have "k = length (lk_mem s (Cell c)) - 1" using d(5) [OF assms(2)] a(1,2) by (auto simp: up_to_date_def dest: spec [of _ c])
    then show ?thesis using a(3) memory_wf_msg(1) [OF d(1), of "Cell c"] by (simp add: newest_def last_conv_nth)
  qed
  then show ?thesis using d(3) [OF assms(2)] by blast
qed

definition lk_start :: lock_sys where
  "lk_start = \<lparr>lk_mem = lk_mem_init, lk_view = (\<lambda>_. empty_view), lk_pc = (\<lambda>_. L_Out)\<rparr>"

lemma lk_taken: "\<exists>s. reachable lk_init lk_step s \<and> lk_pc s 0 = L_In"
proof -
  let ?s1 = "lk_start\<lparr>lk_pc := (lk_pc lk_start)(0 := L_Spin)\<rparr>"
  have "lk_init lk_start" by (simp add: lk_init_def lk_start_def)
  then have r0: "reachable lk_init lk_step lk_start" by (rule reach_init)
  have "lk_step lk_start ?s1" by (rule lk_enter) (simp add: lk_start_def)
  with r0 have r1: "reachable lk_init lk_step ?s1" by (rule reach_step)
  note d = lk_invD [OF lk_run.reachable_inv [OF r1]]
  have z: "newest (lk_mem ?s1) Lock = 0" by (simp add: lk_start_def lk_mem_init_def newest_def)
  obtain m V where cas: "atomic_compare_exchange_weak memory_order_acquire memory_order_relaxed Lock (length (lk_mem ?s1 Lock) - 1) False
      0 1 (lk_mem ?s1) (lk_view ?s1 0) = Some (True, 0, m, V)"
    by (rule compare_exchange_succeeds [OF d(1,2), of memory_order_acquire memory_order_relaxed Lock 1, unfolded z])
  let ?s2 = "?s1\<lparr>lk_mem := m, lk_view := (lk_view ?s1)(0 := V), lk_pc := (lk_pc ?s1)(0 := L_In)\<rparr>"
  have "lk_step ?s1 ?s2" by (rule lk_lock [OF _ cas]) simp
  with r1 have "reachable lk_init lk_step ?s2" by (rule reach_step)
  moreover have "lk_pc ?s2 0 = L_In" by simp
  ultimately show ?thesis by blast
qed

theorem spinlock_protects_witness:
  "\<exists>s. reachable lk_init lk_step s \<and> lk_pc s 0 = L_In \<and> lk_pc s 1 \<noteq> L_In"
proof -
  obtain s where s: "reachable lk_init lk_step s" "lk_pc s 0 = L_In" using lk_taken by blast
  have "lk_pc s 1 \<noteq> L_In" using spinlock_protects [OF s] by (metis zero_neq_one)
  with s show ?thesis by blast
qed

end
