(* ===== verification/Socket_Transport.thy ===== *)
theory Socket_Transport
  imports Ipc_Message
begin

text \<open>
  The framing layer and the client of \<open>socket_transport.hpp\<close>. The system calls \<open>recv\<close> and \<open>send\<close> are
  parameters: functions on the state of a connection that transfer any positive number of bytes at a
  time. What POSIX promises of them on a stream socket is stated as the named hypotheses
  \<open>reliable_recv\<close> and \<open>reliable_send\<close>. A frame is the length of the message's buffer in four bytes and
  the buffer; what is sent in frames is received as the same messages, however the stream is cut.
\<close>

section \<open>Transferring exactly n bytes\<close>

definition kMaxMessageSize :: u32 where
  "kMaxMessageSize = 64 * 1024 * 1024"

text \<open>
  A call \<open>rcv k e\<close> asks for at most \<open>k\<close> bytes: the return value, the bytes stored, the connection
  afterwards. A call \<open>send bs e\<close> offers \<open>bs\<close>.
\<close>

type_synonym 'e recv_fn = "nat \<Rightarrow> 'e \<Rightarrow> int \<times> byte list \<times> 'e"
type_synonym 'e send_fn = "byte list \<Rightarrow> 'e \<Rightarrow> int \<times> 'e"

definition write_at :: "byte list \<Rightarrow> nat \<Rightarrow> byte list \<Rightarrow> byte list" where
  "write_at buf i bs = take i buf @ bs @ drop (i + length bs) buf"

function recv_loop :: "'e recv_fn \<Rightarrow> nat \<Rightarrow> nat \<Rightarrow> byte list \<Rightarrow> 'e \<Rightarrow> bool \<times> byte list \<times> 'e" where
  "recv_loop rcv n don buf e =
     (if don < n
      then (case rcv (n - don) e of (r, bs, e') \<Rightarrow>
              if r \<le> 0 then (False, buf, e') else recv_loop rcv n (don + nat r) (write_at buf don bs) e')
      else (True, buf, e))"
  by auto
termination by (relation "measure (\<lambda>(rcv, n, don, buf, e). n - don)") auto

definition recv_all :: "'e recv_fn \<Rightarrow> byte list \<Rightarrow> 'e \<Rightarrow> bool \<times> byte list \<times> 'e" where
  "recv_all rcv buf e = recv_loop rcv (length buf) 0 buf e"

function send_loop :: "'e send_fn \<Rightarrow> byte list \<Rightarrow> nat \<Rightarrow> 'e \<Rightarrow> bool \<times> 'e" where
  "send_loop send bs don e =
     (if don < length bs
      then (case send (drop don bs) e of (w, e') \<Rightarrow>
              if w \<le> 0 then (False, e') else send_loop send bs (don + nat w) e')
      else (True, e))"
  by auto
termination by (relation "measure (\<lambda>(send, bs, don, e). length bs - don)") auto

definition send_all :: "'e send_fn \<Rightarrow> byte list \<Rightarrow> 'e \<Rightarrow> bool \<times> 'e" where
  "send_all send bs e = send_loop send bs 0 e"

declare recv_loop.simps [simp del] send_loop.simps [simp del]

section \<open>Frames\<close>

definition send_ipc_message :: "'e send_fn \<Rightarrow> IPCMessage \<Rightarrow> 'e \<Rightarrow> bool \<times> 'e" where
  "send_ipc_message send msg e =
     (let buf = to_buffer msg;
          total = (of_nat (length buf) :: u32)
      in case send_all send (le_bytes 4 total) e of
           (False, e1) \<Rightarrow> (False, e1)
         | (True, e1) \<Rightarrow> send_all send buf e1)"

definition recv_ipc_message :: "'e recv_fn \<Rightarrow> 'e \<Rightarrow> IPCMessage \<times> 'e" where
  "recv_ipc_message rcv e =
     (case recv_all rcv (le_bytes 4 (0 :: u32)) e of
        (False, _, e1) \<Rightarrow> (IPCMessage_default, e1)
      | (True, hd4, e1) \<Rightarrow>
          (let total = (le_word hd4 :: u32)
           in if unat total < sizeof_IPCHeader \<or> total > kMaxMessageSize then (IPCMessage_default, e1)
              else case recv_all rcv (replicate (unat total) 0) e1 of
                (False, _, e2) \<Rightarrow> (IPCMessage_default, e2)
              | (True, buf, e2) \<Rightarrow> (from_buffer buf, e2)))"

text \<open>
  The receive loop of a client's thread: the flags are what the successive loads of \<open>running_\<close> return,
  \<open>cb\<close> says whether a callback is set. The result is the messages the callback was called with; \<open>None\<close>
  if the loop has not ended when the list does.
\<close>

fun receive_loop :: "'e recv_fn \<Rightarrow> bool \<Rightarrow> bool list \<Rightarrow> 'e \<Rightarrow> (IPCMessage list \<times> 'e) option" where
  "receive_loop rcv cb [] e = None"
| "receive_loop rcv cb (False # fl) e = Some ([], e)"
| "receive_loop rcv cb (True # fl) e =
     (case recv_ipc_message rcv e of (msg, e') \<Rightarrow>
        if \<not> msg_valid msg then Some ([], e')
        else map_option (\<lambda>(ms, e''). (if cb then msg # ms else ms, e'')) (receive_loop rcv cb fl e'))"

section \<open>The client\<close>

text \<open>
  The calls of \<open>SocketClient\<close>. An environment answers each, given the calls made before. The answer to
  \<open>getaddrinfo\<close> is 0 when it returns 0 and sets the result pointer.
\<close>

datatype sock_call =
  Sock_socket | Sock_nodelay int | Getaddrinfo string u16 | Freeaddrinfo | Sock_connect int
| Sock_shutdown int | Sock_close int

type_synonym net = "sock_call list \<Rightarrow> sock_call \<Rightarrow> int"

record SocketClient =
  cl_host :: string
  cl_port :: u16
  cl_fd :: int

definition SocketClient_ctor :: "string \<Rightarrow> u16 \<Rightarrow> SocketClient" where
  "SocketClient_ctor host port = \<lparr>cl_host = host, cl_port = port, cl_fd = -1\<rparr>"

datatype client_error = Socket_failed | Getaddrinfo_failed string | Connect_failed string

definition connect :: "net \<Rightarrow> SocketClient \<Rightarrow> sock_call list \<Rightarrow> client_error option \<times> SocketClient \<times> sock_call list" where
  "connect net c tr =
     (if cl_fd c \<ge> 0 then (None, c, tr)
      else let d = net tr Sock_socket; c1 = c\<lparr>cl_fd := d\<rparr>; tr1 = tr @ [Sock_socket]
      in if d < 0 then (Some Socket_failed, c1, tr1)
      else let tr2 = tr1 @ [Sock_nodelay d];
               g = Getaddrinfo (cl_host c) (cl_port c); gai = net tr2 g; tr3 = tr2 @ [g]
      in if gai \<noteq> 0 then (Some (Getaddrinfo_failed (cl_host c)), c1\<lparr>cl_fd := -1\<rparr>, tr3 @ [Sock_close d])
      else let ok = (net tr3 (Sock_connect d) = 0); tr4 = tr3 @ [Sock_connect d, Freeaddrinfo]
      in if \<not> ok then (Some (Connect_failed (cl_host c)), c1\<lparr>cl_fd := -1\<rparr>, tr4 @ [Sock_close d])
      else (None, c1, tr4))"

definition disconnect :: "SocketClient \<Rightarrow> sock_call list \<Rightarrow> SocketClient \<times> sock_call list" where
  "disconnect c tr =
     (if cl_fd c \<ge> 0 then (c\<lparr>cl_fd := -1\<rparr>, tr @ [Sock_shutdown (cl_fd c), Sock_close (cl_fd c)])
      else (c, tr))"

definition SocketClient_dtor :: "SocketClient \<Rightarrow> sock_call list \<Rightarrow> SocketClient \<times> sock_call list" where
  "SocketClient_dtor c tr = disconnect c tr"

definition connected :: "SocketClient \<Rightarrow> bool" where
  "connected c \<longleftrightarrow> cl_fd c \<ge> 0"

definition client_send :: "'e send_fn \<Rightarrow> SocketClient \<Rightarrow> IPCMessage \<Rightarrow> 'e \<Rightarrow> bool \<times> 'e" where
  "client_send send c msg e = (if cl_fd c < 0 then (False, e) else send_ipc_message send msg e)"

section \<open>Streams\<close>

text \<open>
  \<open>reliable_recv\<close>: \<open>rest\<close> is what the peer has sent and nobody has read; a call returns at least one
  and at most the requested number of bytes from its front, and 0 or an error when there is nothing
  and the peer has closed. \<open>reliable_send\<close>: \<open>out\<close> is what has been accepted for transmission; a call
  accepts a non-empty prefix of what it is offered, or fails and accepts nothing.
\<close>

definition reliable_recv :: "'e recv_fn \<Rightarrow> ('e \<Rightarrow> byte list) \<Rightarrow> bool" where
  "reliable_recv rcv rest \<longleftrightarrow> (\<forall>k e. 0 < k \<longrightarrow> (case rcv k e of (r, bs, e') \<Rightarrow>
     if rest e = [] then r \<le> 0 \<and> rest e' = []
     else 0 < r \<and> nat r \<le> k \<and> length bs = nat r \<and> rest e = bs @ rest e'))"

definition reliable_send :: "'e send_fn \<Rightarrow> ('e \<Rightarrow> byte list) \<Rightarrow> bool" where
  "reliable_send send out \<longleftrightarrow> (\<forall>bs e. bs \<noteq> [] \<longrightarrow> (case send bs e of (w, e') \<Rightarrow>
     if w \<le> 0 then out e' = out e
     else nat w \<le> length bs \<and> out e' = out e @ take (nat w) bs))"

lemma recv_loop_enough:
  assumes rel: "reliable_recv rcv rest" and "don \<le> n" "length buf = n" "n - don \<le> length (rest e)"
  shows "\<exists>e'. recv_loop rcv n don buf e = (True, take don buf @ take (n - don) (rest e), e') \<and>
    rest e' = drop (n - don) (rest e)"
  using assms(2-)
proof (induction "n - don" arbitrary: don buf e rule: less_induct)
  case less
  show ?case
  proof (cases "don < n")
    case False
    with less.prems show ?thesis by (simp add: recv_loop.simps [of rcv n n])
  next
    case True
    obtain r bs e1 where r: "rcv (n - don) e = (r, bs, e1)" by (cases "rcv (n - don) e")
    have "rest e \<noteq> []" using True less.prems by auto
    then have r0: "0 < r" "nat r \<le> n - don" "length bs = nat r" "rest e = bs @ rest e1"
      using rel [unfolded reliable_recv_def, rule_format, of "n - don" e] True r by auto
    let ?buf = "write_at buf don bs"
    have buf: "length ?buf = n" "take (don + nat r) ?buf = take don buf @ bs"
      using less.prems r0(2,3) by (simp_all add: write_at_def)
    have step: "n - (don + nat r) < n - don" "don + nat r \<le> n" "n - (don + nat r) \<le> length (rest e1)"
      using less.prems(3) r0(1-3) True unfolding r0(4) by simp_all
    obtain e2 where e2: "recv_loop rcv n (don + nat r) ?buf e1 =
        (True, take (don + nat r) ?buf @ take (n - (don + nat r)) (rest e1), e2)"
      "rest e2 = drop (n - (don + nat r)) (rest e1)"
      using less.hyps [OF step(1,2) buf(1) step(3)] by blast
    have split: "n - don = length bs + (n - (don + nat r))" using r0(2,3) by simp
    have "take (n - don) (rest e) = bs @ take (n - (don + nat r)) (rest e1)"
      "drop (n - don) (rest e) = drop (n - (don + nat r)) (rest e1)"
      unfolding r0(4) split by simp_all
    then show ?thesis
      using True r r0(1) e2 buf(2) by (simp add: recv_loop.simps [of rcv n don])
  qed
qed

lemma recv_loop_short:
  assumes rel: "reliable_recv rcv rest" and "length (rest e) < n - don"
  shows "\<exists>buf' e'. recv_loop rcv n don buf e = (False, buf', e') \<and> rest e' = []"
  using assms(2)
proof (induction "n - don" arbitrary: don buf e rule: less_induct)
  case less
  obtain r bs e1 where r: "rcv (n - don) e = (r, bs, e1)" by (cases "rcv (n - don) e")
  note law = rel [unfolded reliable_recv_def, rule_format, of "n - don" e]
  have lt: "don < n" using less.prems by simp
  show ?case
  proof (cases "rest e = []")
    case True
    then show ?thesis using law r lt by (simp add: recv_loop.simps [of rcv n don])
  next
    case False
    then have r0: "0 < r" "nat r \<le> n - don" "length bs = nat r" "rest e = bs @ rest e1" using law r lt by auto
    then have "\<exists>buf' e'. recv_loop rcv n (don + nat r) (write_at buf don bs) e1 = (False, buf', e') \<and> rest e' = []"
      using less.prems lt by (intro less.hyps) auto
    then show ?thesis using r r0(1) lt by (simp add: recv_loop.simps [of rcv n don])
  qed
qed

lemma recv_all_enough:
  assumes "reliable_recv rcv rest" "length buf \<le> length (rest e)"
  shows "\<exists>e'. recv_all rcv buf e = (True, take (length buf) (rest e), e') \<and> rest e' = drop (length buf) (rest e)"
  using recv_loop_enough [OF assms(1), of 0 "length buf" buf e] assms(2) by (simp add: recv_all_def)

lemma recv_all_short:
  assumes "reliable_recv rcv rest" "length (rest e) < length buf"
  shows "\<exists>buf' e'. recv_all rcv buf e = (False, buf', e') \<and> rest e' = []"
  using recv_loop_short [OF assms(1), of e "length buf" 0 buf] assms(2) by (simp add: recv_all_def)

lemma send_loop_out:
  assumes rel: "reliable_send send out" and "don \<le> length bs"
  shows "case send_loop send bs don e of (ok, e') \<Rightarrow>
    \<exists>k. don \<le> k \<and> k \<le> length bs \<and> out e' = out e @ take (k - don) (drop don bs) \<and> (ok \<longleftrightarrow> k = length bs)"
  using assms(2)
proof (induction "length bs - don" arbitrary: don e rule: less_induct)
  case less
  show ?case
  proof (cases "don < length bs")
    case False
    with less.prems show ?thesis by (simp add: send_loop.simps [of send bs "length bs"])
  next
    case True
    obtain w e1 where w: "send (drop don bs) e = (w, e1)" by (cases "send (drop don bs) e")
    note law = rel [unfolded reliable_send_def, rule_format, of "drop don bs" e]
    show ?thesis
    proof (cases "w \<le> 0")
      case w0: True
      then have "out e1 = out e" using law w True by simp
      then show ?thesis using True w w0 by (auto simp: send_loop.simps [of send bs don] intro!: exI [of _ don])
    next
      case False
      then have l: "nat w \<le> length bs - don" "out e1 = out e @ take (nat w) (drop don bs)" using law w True by auto
      have step: "length bs - (don + nat w) < length bs - don" "don + nat w \<le> length bs" using l(1) False True by simp_all
      obtain ok e2 where s: "send_loop send bs (don + nat w) e1 = (ok, e2)" by fastforce
      obtain k where k: "don + nat w \<le> k" "k \<le> length bs" "ok \<longleftrightarrow> k = length bs"
          "out e2 = out e1 @ take (k - (don + nat w)) (drop (don + nat w) bs)"
        using less.hyps [OF step, of e1] s by auto
      have "k - don = nat w + (k - (don + nat w))" using k(1) by simp
      then have "out e2 = out e @ take (k - don) (drop don bs)"
        unfolding k(4) l(2) by (simp add: take_add add.commute)
      then show ?thesis using True w False s k by (auto simp: send_loop.simps [of send bs don] intro!: exI [of _ k])
    qed
  qed
qed

lemma send_all_out:
  assumes "reliable_send send out" "send_all send bs e = (ok, e')"
  shows "\<exists>k \<le> length bs. out e' = out e @ take k bs \<and> (ok \<longleftrightarrow> k = length bs)"
  using send_loop_out [OF assms(1), of 0 bs e] assms(2) by (auto simp: send_all_def)

section \<open>Framing\<close>

definition frame :: "IPCMessage \<Rightarrow> byte list" where
  "frame msg = le_bytes 4 (of_nat (length (to_buffer msg)) :: u32) @ to_buffer msg"

text \<open>What the receiver accepts: the header is well formed and the buffer is not too long.\<close>

definition wire_ok :: "IPCMessage \<Rightarrow> bool" where
  "wire_ok msg \<longleftrightarrow> header_layout (msg_header msg) \<and> IPCHeader_valid (msg_header msg) \<and> msg_valid msg \<and>
     length (msg_data msg) = unat (data_length (msg_header msg)) \<and>
     sizeof_IPCHeader + length (msg_data msg) \<le> unat kMaxMessageSize"

lemma unat_kMaxMessageSize: "unat kMaxMessageSize = 67108864"
  by (simp add: kMaxMessageSize_def)

lemma le_word_frame_length:
  assumes "n < 2 ^ 32"
  shows "unat (le_word (le_bytes 4 (of_nat n :: u32)) :: u32) = n"
proof -
  have "le_word (le_bytes 4 (of_nat n :: u32)) = (of_nat n :: u32)" by (rule le_word_le_bytes) simp
  then show ?thesis using assms by (simp add: unsigned_of_nat take_bit_nat_eq_self)
qed

lemma send_frame:
  assumes "reliable_send send out" "send_ipc_message send msg e = (ok, e')"
  shows "\<exists>k \<le> length (frame msg). out e' = out e @ take k (frame msg) \<and> (ok \<longleftrightarrow> k = length (frame msg))"
proof -
  let ?h = "le_bytes 4 (of_nat (length (to_buffer msg)) :: u32)"
  obtain ok1 e1 where s1: "send_all send ?h e = (ok1, e1)" by fastforce
  obtain k1 where k1: "k1 \<le> 4" "out e1 = out e @ take k1 ?h" "ok1 \<longleftrightarrow> k1 = 4"
    using send_all_out [OF assms(1) s1] by auto
  show ?thesis
  proof (cases ok1)
    case False
    then show ?thesis using assms(2) s1 k1 by (auto simp: send_ipc_message_def Let_def frame_def intro!: exI [of _ k1])
  next
    case True
    then have s2: "send_all send (to_buffer msg) e1 = (ok, e')"
      using assms(2) s1 by (simp add: send_ipc_message_def Let_def)
    from send_all_out [OF assms(1) this] obtain k2 where k2: "k2 \<le> length (to_buffer msg)"
      "out e' = out e1 @ take k2 (to_buffer msg)" "ok \<longleftrightarrow> k2 = length (to_buffer msg)" by blast
    then show ?thesis using k1 True by (intro exI [of _ "4 + k2"]) (auto simp: frame_def)
  qed
qed

text \<open>Receiving a frame whose length field is accepted, whatever its buffer holds.\<close>

lemma recv_frame:
  assumes "reliable_recv rcv rest" "rest e = le_bytes 4 (of_nat (length buf) :: u32) @ buf @ later"
    "sizeof_IPCHeader \<le> length buf" "length buf \<le> unat kMaxMessageSize"
  shows "\<exists>e'. recv_ipc_message rcv e = (from_buffer buf, e') \<and> rest e' = later"
proof -
  let ?n = "of_nat (length buf) :: u32"
  have n: "unat (le_word (le_bytes 4 ?n) :: u32) = length buf"
    using assms(4) unat_kMaxMessageSize by (intro le_word_frame_length) simp
  obtain e1 where e1: "recv_all rcv (le_bytes 4 (0 :: u32)) e = (True, le_bytes 4 ?n, e1)" "rest e1 = buf @ later"
    using recv_all_enough [OF assms(1), of "le_bytes 4 (0 :: u32)" e] assms(2) by auto
  obtain e2 where e2: "recv_all rcv (replicate (length buf) 0) e1 = (True, buf, e2)" "rest e2 = later"
    using recv_all_enough [OF assms(1), of "replicate (length buf) 0" e1] e1(2) by auto
  have "\<not> (unat (le_word (le_bytes 4 ?n) :: u32) < sizeof_IPCHeader \<or> (le_word (le_bytes 4 ?n) :: u32) > kMaxMessageSize)"
    unfolding word_less_nat_alt n using assms(3,4) by simp
  then show ?thesis
    unfolding recv_ipc_message_def e1(1) using e2 by (simp add: Let_def n)
qed

lemma recv_message:
  assumes "reliable_recv rcv rest" "rest e = frame msg @ later" "wire_ok msg"
  shows "\<exists>e'. recv_ipc_message rcv e = (msg, e') \<and> rest e' = later"
proof -
  have "length (to_buffer msg) = sizeof_IPCHeader + length (msg_data msg)"
    using assms(3) by (intro length_to_buffer) (simp add: wire_ok_def)
  moreover have "from_buffer (to_buffer msg) = msg"
    using from_buffer_to_buffer [of msg "[]"] assms(3) by (simp add: wire_ok_def)
  ultimately show ?thesis
    using recv_frame [OF assms(1), of e "to_buffer msg" later] assms(2,3) by (simp add: frame_def wire_ok_def)
qed

lemma recv_at_end:
  assumes "reliable_recv rcv rest" "length (rest e) < 4"
  shows "\<exists>e'. recv_ipc_message rcv e = (IPCMessage_default, e') \<and> rest e' = []"
  using recv_all_short [OF assms(1), of e "le_bytes 4 (0 :: u32)"] assms(2)
  by (auto simp: recv_ipc_message_def)

text \<open>A client that sends a list of messages until one fails.\<close>

fun send_messages :: "'e send_fn \<Rightarrow> IPCMessage list \<Rightarrow> 'e \<Rightarrow> bool \<times> 'e" where
  "send_messages send [] e = (True, e)"
| "send_messages send (m # ms) e =
     (case send_ipc_message send m e of (ok, e') \<Rightarrow> if ok then send_messages send ms e' else (False, e'))"

lemma send_messages_out:
  assumes "reliable_send send out" "send_messages send ms e = (True, e')"
  shows "out e' = out e @ concat (map frame ms)"
  using assms(2)
proof (induction ms arbitrary: e)
  case (Cons m ms)
  obtain ok e1 where s: "send_ipc_message send m e = (ok, e1)" by fastforce
  then have ok: "ok" "send_messages send ms e1 = (True, e')" using Cons.prems by (auto split: if_splits)
  with send_frame [OF assms(1) s] have "out e1 = out e @ frame m" by auto
  with Cons.IH [OF ok(2)] show ?case by simp
qed simp

lemma receive_loop_messages:
  assumes "reliable_recv rcv rest" "\<forall>m \<in> set ms. wire_ok m" "rest e = concat (map frame ms)"
  shows "\<exists>e'. receive_loop rcv True (replicate (Suc (length ms)) True @ fl) e = Some (ms, e') \<and> rest e' = []"
  using assms(2,3)
proof (induction ms arbitrary: e)
  case Nil
  with recv_at_end [OF assms(1), of e] show ?case by (auto simp: IPCMessage_default_def)
next
  case (Cons m ms)
  then have w: "wire_ok m" "rest e = frame m @ concat (map frame ms)" by simp_all
  with recv_message [OF assms(1)] obtain e1 where e1: "recv_ipc_message rcv e = (m, e1)" "rest e1 = concat (map frame ms)" by blast
  have "msg_valid m" using w(1) by (simp add: wire_ok_def)
  with e1 Cons.IH [of e1] Cons.prems(1) show ?case by auto
qed

lemma recv_consumes:
  assumes rel: "reliable_recv rcv rest" and r: "recv_ipc_message rcv e = (m, e')" "msg_valid m"
  shows "length (rest e') + 68 \<le> length (rest e)"
proof -
  have "\<not> length (rest e) < 4" using recv_at_end [OF rel, of e] r by (auto simp: IPCMessage_default_def)
  then obtain e1 where e1: "recv_all rcv (le_bytes 4 (0 :: u32)) e = (True, take 4 (rest e), e1)" "rest e1 = drop 4 (rest e)"
    using recv_all_enough [OF rel, of "le_bytes 4 (0 :: u32)" e] by auto
  let ?n = "le_word (take 4 (rest e)) :: u32"
  have n: "\<not> (unat ?n < sizeof_IPCHeader \<or> kMaxMessageSize < ?n)"
    using r e1(1) by (auto simp: recv_ipc_message_def Let_def IPCMessage_default_def)
  have "\<not> length (rest e1) < unat ?n"
  proof
    assume "length (rest e1) < unat ?n"
    then obtain buf e2 where "recv_all rcv (replicate (unat ?n) 0) e1 = (False, buf, e2)"
      using recv_all_short [OF rel, of e1 "replicate (unat ?n) 0"] by auto
    then show False using r n e1(1) by (auto simp: recv_ipc_message_def Let_def IPCMessage_default_def)
  qed
  then obtain e2 where e2: "recv_all rcv (replicate (unat ?n) 0) e1 = (True, take (unat ?n) (rest e1), e2)"
      "rest e2 = drop (unat ?n) (rest e1)"
    using recv_all_enough [OF rel, of "replicate (unat ?n) 0" e1] by auto
  have "e' = e2" using r n e1(1) e2(1) by (auto simp: recv_ipc_message_def Let_def)
  then show ?thesis
    using n e1(2) e2(2) \<open>\<not> length (rest e1) < unat ?n\<close> \<open>\<not> length (rest e) < 4\<close>
    by (simp add: sizeof_IPCHeader_def) linarith
qed

text \<open>
  A connection that delivers and accepts the bytes in chunks of prescribed sizes, one byte at a time
  when no size is prescribed.
\<close>

definition chunk :: "nat list \<Rightarrow> nat" where
  "chunk cs = (case cs of [] \<Rightarrow> 1 | c # _ \<Rightarrow> max 1 c)"

fun tcp_recv :: "(byte list \<times> nat list) recv_fn" where
  "tcp_recv k (bs, cs) =
     (let n = min (min k (chunk cs)) (length bs) in (int n, take n bs, (drop n bs, tl cs)))"

fun tcp_send :: "(byte list \<times> nat list) send_fn" where
  "tcp_send bs (sent, cs) =
     (let n = min (length bs) (chunk cs) in (int n, (sent @ take n bs, tl cs)))"

lemma chunk_pos: "0 < chunk cs"
  by (cases cs) (simp_all add: chunk_def)

lemma chunk_nonzero [simp]: "chunk cs \<noteq> 0"
  using chunk_pos [of cs] by simp

lemma tcp_reliable: "reliable_recv tcp_recv fst" "reliable_send tcp_send fst"
  by (auto simp: reliable_recv_def reliable_send_def Let_def min_def not_le)

section \<open>Properties\<close>


text \<open>A message of one payload byte.\<close>

definition small_msg :: IPCMessage where
  "small_msg = \<lparr>msg_header = IPCHeader_init\<lparr>data_length := 1\<rparr>, msg_data = [7], msg_valid = True\<rparr>"

lemma small_msg_ok: "wire_ok small_msg"
  using IPCHeader_init_ok unat_kMaxMessageSize
  by (simp add: small_msg_def wire_ok_def header_layout_def IPCHeader_valid_def sizeof_IPCHeader_def)

lemma tcp_send_all: "\<exists>cs'. send_loop tcp_send bs don (sent, cs) = (True, (sent @ drop don bs, cs'))"
proof (induction "length bs - don" arbitrary: don sent cs rule: less_induct)
  case less
  show ?case
  proof (cases "don < length bs")
    case False
    then show ?thesis by (simp add: send_loop.simps [of tcp_send bs don])
  next
    case True
    let ?n = "min (length bs - don) (chunk cs)"
    have n: "0 < ?n" using True chunk_pos [of cs] by simp
    have "\<exists>cs'. send_loop tcp_send bs (don + ?n) (sent @ take ?n (drop don bs), tl cs) =
        (True, ((sent @ take ?n (drop don bs)) @ drop (don + ?n) bs, cs'))"
      using n True by (intro less.hyps) linarith
    moreover have "take ?n (drop don bs) @ drop (don + ?n) bs = drop don bs"
      by (metis add.commute append_take_drop_id drop_drop)
    ultimately show ?thesis
      using n True by (simp add: send_loop.simps [of tcp_send bs don] Let_def)
  qed
qed

lemma tcp_send_message: "\<exists>cs'. send_ipc_message tcp_send m (sent, cs) = (True, (sent @ frame m, cs'))"
proof -
  obtain c1 where "send_all tcp_send (le_bytes 4 (of_nat (length (to_buffer m)) :: u32)) (sent, cs) =
      (True, (sent @ le_bytes 4 (of_nat (length (to_buffer m)) :: u32), c1))"
    using tcp_send_all [of _ 0 sent cs] by (auto simp: send_all_def)
  moreover obtain c2 where "send_all tcp_send (to_buffer m) (sent @ le_bytes 4 (of_nat (length (to_buffer m)) :: u32), c1) =
      (True, ((sent @ le_bytes 4 (of_nat (length (to_buffer m)) :: u32)) @ to_buffer m, c2))"
    using tcp_send_all [of "to_buffer m" 0 "sent @ le_bytes 4 (of_nat (length (to_buffer m)) :: u32)" c1]
    by (simp add: send_all_def) blast
  ultimately show ?thesis by (simp add: send_ipc_message_def Let_def frame_def)
qed


text \<open>
  C33. The receiving loop ends. Every message takes at least 68 bytes of the stream, so once the peer has
  closed the connection the loop returns after at most one round per 68 bytes and one more, even if
  \<open>running_\<close> stays true.
\<close>

theorem receive_loop_returns:
  assumes "reliable_recv rcv rest" "length (rest e) div 68 < length fl"
  shows "\<exists>ms e'. receive_loop rcv cb fl e = Some (ms, e') \<and> length ms \<le> length (rest e) div 68"
  using assms(2)
proof (induction fl arbitrary: e)
  case (Cons f fl)
  obtain m e1 where r: "recv_ipc_message rcv e = (m, e1)" by fastforce
  show ?case
  proof (cases "f \<and> msg_valid m")
    case False
    then show ?thesis using r by (cases f) auto
  next
    case True
    let ?n = "length (rest e) div 68" and ?n1 = "length (rest e1) div 68"
    have "(length (rest e1) + 68) div 68 \<le> ?n"
      by (rule div_le_mono) (use recv_consumes [OF assms(1) r] True in simp)
    then have n: "Suc ?n1 \<le> ?n" by simp
    with Cons.IH [of e1] Cons.prems obtain ms e2 where
      "receive_loop rcv cb fl e1 = Some (ms, e2)" "length ms \<le> ?n1" by auto
    then show ?thesis using True r n by auto
  qed
qed simp

theorem receive_loop_returns_witness:
  "\<exists>ms e'. receive_loop tcp_recv True (replicate 3 True) (replicate 150 9, []) = Some (ms, e') \<and> length ms \<le> 2"
  using receive_loop_returns [OF tcp_reliable(1), of "(replicate 150 9, [])" "replicate 3 True" True]
  by (simp del: receive_loop.simps)

text \<open>
  Oversized messages. \<open>send_ipc_message\<close> does not look at the length, the receiver does: after a
  message of more than 64 MiB the receiving loop ends, without a callback for it or for anything that
  was sent after it.
\<close>

theorem oversize_ends_connection:
  assumes "reliable_recv rcv rest" "rest r = frame msg @ later"
    "unat kMaxMessageSize < length (to_buffer msg)" "length (to_buffer msg) < 2 ^ 32"
  shows "\<exists>r'. receive_loop rcv cb (True # fl) r = Some ([], r') \<and> rest r' = to_buffer msg @ later"
proof -
  let ?n = "of_nat (length (to_buffer msg)) :: u32"
  obtain e1 where e1: "recv_all rcv (le_bytes 4 (0 :: u32)) r = (True, le_bytes 4 ?n, e1)" "rest e1 = to_buffer msg @ later"
    using recv_all_enough [OF assms(1), of "le_bytes 4 (0 :: u32)" r] assms(2) by (auto simp: frame_def)
  have "kMaxMessageSize < (le_word (le_bytes 4 ?n) :: u32)"
    unfolding word_less_nat_alt le_word_frame_length [OF assms(4)] by (rule assms(3))
  then have "recv_ipc_message rcv r = (IPCMessage_default, e1)"
    unfolding recv_ipc_message_def e1(1) by (simp add: Let_def)
  then show ?thesis using e1(2) by (simp add: IPCMessage_default_def)
qed

definition big_msg :: IPCMessage where
  "big_msg = \<lparr>msg_header = IPCHeader_init\<lparr>data_length := 67108801\<rparr>, msg_data = replicate 67108801 0, msg_valid = True\<rparr>"

theorem oversize_ends_connection_witness:
  "(\<exists>e'. send_ipc_message tcp_send big_msg ([], []) = (True, e') \<and> fst e' = frame big_msg) \<and>
   (\<exists>r'. receive_loop tcp_recv True [True, True] (frame big_msg @ frame small_msg, []) = Some ([], r'))"
proof -
  have "header_layout (msg_header big_msg)" using IPCHeader_init_ok by (simp add: big_msg_def header_layout_def)
  then have len: "length (to_buffer big_msg) = 67108865"
    by (simp add: length_to_buffer sizeof_IPCHeader_def) (simp add: big_msg_def)
  obtain r' where "receive_loop tcp_recv True [True, True] (frame big_msg @ frame small_msg, []) = Some ([], r')"
    using oversize_ends_connection [OF tcp_reliable(1), of "(frame big_msg @ frame small_msg, [])" big_msg "frame small_msg" True "[True]"]
    by (auto simp: len unat_kMaxMessageSize simp del: receive_loop.simps)
  moreover obtain cs where "send_ipc_message tcp_send big_msg ([], []) = (True, (frame big_msg, cs))"
    using tcp_send_message [of big_msg "[]" "[]"] by auto
  ultimately show ?thesis by auto
qed

text \<open>The descriptors and address lists that a trace of calls leaves behind.\<close>

fun net_held :: "net \<Rightarrow> sock_call list \<Rightarrow> sock_call list \<Rightarrow> int list \<times> nat \<Rightarrow> int list \<times> nat" where
  "net_held net past [] r = r"
| "net_held net past (c # cs) (fds, infos) = net_held net (past @ [c]) cs
     (case c of
        Sock_socket \<Rightarrow> (if net past c < 0 then fds else net past c # fds, infos)
      | Sock_close d \<Rightarrow> (remove1 d fds, infos)
      | Getaddrinfo h p \<Rightarrow> (fds, if net past c = 0 then Suc infos else infos)
      | Freeaddrinfo \<Rightarrow> (fds, infos - 1)
      | _ \<Rightarrow> (fds, infos))"

lemma net_held_append: "net_held net past (xs @ ys) r = net_held net (past @ xs) ys (net_held net past xs r)"
proof (induction xs arbitrary: past r)
  case (Cons x xs)
  obtain fds infos where "r = (fds, infos)" by (cases r)
  then show ?case using Cons.IH by simp
qed simp

datatype client_op = Connect | Disconnect

fun client_run :: "net \<Rightarrow> client_op list \<Rightarrow> SocketClient \<times> sock_call list \<Rightarrow> SocketClient \<times> sock_call list" where
  "client_run net [] s = s"
| "client_run net (Connect # ops) (c, tr) = (case connect net c tr of (_, c', tr') \<Rightarrow> client_run net ops (c', tr'))"
| "client_run net (Disconnect # ops) (c, tr) = client_run net ops (disconnect c tr)"

definition client_ledger :: "net \<Rightarrow> SocketClient \<times> sock_call list \<Rightarrow> bool" where
  "client_ledger net = (\<lambda>(c, tr). net_held net [] tr ([], 0) = (if connected c then [cl_fd c] else [], 0))"

lemma connect_ledger:
  assumes "client_ledger net (c, tr)"
  shows "client_ledger net (snd (connect net c tr))"
    "fst (connect net c tr) = None \<longleftrightarrow> connected (fst (snd (connect net c tr)))"
  using assms
  by (auto simp: client_ledger_def connect_def connected_def net_held_append Let_def split: if_splits)

lemma disconnect_ledger:
  assumes "client_ledger net (c, tr)"
  shows "client_ledger net (disconnect c tr)" "\<not> connected (fst (disconnect c tr))"
  using assms by (auto simp: client_ledger_def disconnect_def connected_def net_held_append)

lemma client_run_ledger:
  "client_ledger net s \<Longrightarrow> client_ledger net (client_run net ops s)"
proof (induction net ops s rule: client_run.induct)
  case (2 net ops c tr)
  obtain r c' tr' where "connect net c tr = (r, c', tr')" by (cases "connect net c tr")
  with "2.IH" connect_ledger(1) [OF "2.prems"] show ?case by simp
next
  case (3 net ops c tr)
  then show ?case by (simp add: disconnect_ledger)
qed simp

text \<open>
  The client leaks nothing. After any sequence of \<open>connect\<close> (successful or throwing) and \<open>disconnect\<close>
  on a new client, whatever the network answers, the only open descriptor is \<open>fd_\<close> of a connected
  client and every address list is freed; after the destructor nothing is left. \<open>connect\<close> throws
  exactly when the client is not connected afterwards.
\<close>

theorem client_no_leak:
  "case client_run net ops (SocketClient_ctor host port, []) of (c, tr) \<Rightarrow>
     net_held net [] tr ([], 0) = (if connected c then [cl_fd c] else [], 0) \<and>
     net_held net [] (snd (disconnect c tr)) ([], 0) = ([], 0) \<and>
     (fst (connect net c tr) = None \<longleftrightarrow> connected (fst (snd (connect net c tr))))"
proof -
  obtain c tr where r: "client_run net ops (SocketClient_ctor host port, []) = (c, tr)" by fastforce
  have "client_ledger net (SocketClient_ctor host port, [])"
    by (simp add: client_ledger_def SocketClient_ctor_def connected_def)
  then have l: "client_ledger net (c, tr)" using client_run_ledger r by metis
  with disconnect_ledger [OF l] have "net_held net [] (snd (disconnect c tr)) ([], 0) = ([], 0)"
    by (auto simp: client_ledger_def split: prod.splits)
  with l show ?thesis using connect_ledger(2) [OF l] by (simp add: r client_ledger_def)
qed

end
