(* ===== verification/Socket_Server.thy ===== *)
theory Socket_Server
  imports Socket_Transport
begin

text \<open>
  \<open>SocketServer\<close> of \<open>socket_transport.hpp\<close>: the caller of \<open>start\<close> and \<open>stop\<close>, the accept thread and one
  thread per client as interleaved steps. The descriptors that the operating system holds open are
  part of the state; a new descriptor is one that is not open, as POSIX promises. Messages themselves
  are the subject of \<open>Socket_Transport\<close>: here the return of \<open>recv_ipc_message\<close> is one step, valid or
  not, labelled with the client thread.
\<close>

section \<open>State\<close>

datatype acc_pc =
    A_None   \<comment> \<open>\<open>accept_thread_\<close> is not joinable\<close>
  | A_Socket | A_Bind | A_Listen | A_Loop | A_Accept
  | A_Check int | A_Spawn int
  | A_Done   \<comment> \<open>\<open>accept_loop\<close> has returned\<close>

datatype handler_pc = H_None | H_Loop int | H_Recv int | H_Remove int | H_Close int | H_Done

datatype main_pc = M_Idle | M_Listen | M_Join_accept | M_Join nat

record SocketServer =
  sv_running :: bool
  sv_listen :: int                      \<comment> \<open>\<open>listen_fd_\<close>\<close>
  sv_acc :: acc_pc
  sv_fds :: "int list"                  \<comment> \<open>\<open>client_fds_\<close>\<close>
  sv_threads :: "nat option list"       \<comment> \<open>\<open>client_threads_\<close>: \<open>None\<close> once joined\<close>
  sv_main :: main_pc
  sv_handler :: "nat \<Rightarrow> handler_pc"
  sv_spawned :: nat
  sv_listeners :: "int set"             \<comment> \<open>open listening sockets\<close>
  sv_conns :: "int set"                 \<comment> \<open>open connections\<close>

definition server_init :: "SocketServer \<Rightarrow> bool" where
  "server_init s \<longleftrightarrow> s = \<lparr>sv_running = False, sv_listen = -1, sv_acc = A_None, sv_fds = [], sv_threads = [],
     sv_main = M_Idle, sv_handler = (\<lambda>_. H_None), sv_spawned = 0, sv_listeners = {}, sv_conns = {}\<rparr>"

definition client_count :: "SocketServer \<Rightarrow> int" where
  "client_count s = int (length (sv_fds s))"

text \<open>A \<open>std::thread\<close> in the vector is joinable until it has been joined, finished or not.\<close>

definition reap_done_threads :: "nat option list \<Rightarrow> nat option list" where
  "reap_done_threads ts = filter (\<lambda>t. t \<noteq> None) ts"

definition close_listener :: "SocketServer \<Rightarrow> SocketServer" where
  "close_listener s = s\<lparr>sv_listeners := sv_listeners s - {sv_listen s}, sv_listen := -1\<rparr>"

section \<open>Steps\<close>

datatype server_label = Tau | Recv_returns nat

definition fresh_fd :: "SocketServer \<Rightarrow> int \<Rightarrow> bool" where
  "fresh_fd s d \<longleftrightarrow> 0 \<le> d \<and> d \<notin> sv_listeners s \<and> d \<notin> sv_conns s"

inductive server_step :: "int \<Rightarrow> server_label \<Rightarrow> SocketServer \<Rightarrow> SocketServer \<Rightarrow> bool" for max_clients :: int where
  sv_start: "sv_main s = M_Idle \<Longrightarrow> \<not> sv_running s \<Longrightarrow>
    server_step max_clients Tau s (s\<lparr>sv_running := True, sv_acc := A_Socket\<rparr>)"
| sv_stop: "sv_main s = M_Idle \<Longrightarrow> server_step max_clients Tau s (s\<lparr>sv_running := False, sv_main := M_Listen\<rparr>)"
| sv_stop_listen: "sv_main s = M_Listen \<Longrightarrow>
    server_step max_clients Tau s ((if sv_listen s \<ge> 0 then close_listener s else s)\<lparr>sv_main := M_Join_accept\<rparr>)"
| sv_join_accept: "sv_main s = M_Join_accept \<Longrightarrow> sv_acc s = A_None \<or> sv_acc s = A_Done \<Longrightarrow>
    server_step max_clients Tau s (s\<lparr>sv_acc := A_None, sv_main := M_Join 0\<rparr>)"
| sv_join_client: "sv_main s = M_Join k \<Longrightarrow> k < length (sv_threads s) \<Longrightarrow> sv_threads s ! k = Some h \<Longrightarrow>
    sv_handler s h = H_Done \<Longrightarrow>
    server_step max_clients Tau s (s\<lparr>sv_threads := (sv_threads s)[k := None], sv_main := M_Join (Suc k)\<rparr>)"
| sv_join_skip: "sv_main s = M_Join k \<Longrightarrow> k < length (sv_threads s) \<Longrightarrow> sv_threads s ! k = None \<Longrightarrow>
    server_step max_clients Tau s (s\<lparr>sv_main := M_Join (Suc k)\<rparr>)"
| sv_stopped: "sv_main s = M_Join k \<Longrightarrow> \<not> k < length (sv_threads s) \<Longrightarrow>
    server_step max_clients Tau s (s\<lparr>sv_threads := [], sv_main := M_Idle\<rparr>)"
| acc_socket: "sv_acc s = A_Socket \<Longrightarrow> fresh_fd s d \<Longrightarrow>
    server_step max_clients Tau s (s\<lparr>sv_listen := d, sv_listeners := insert d (sv_listeners s), sv_acc := A_Bind\<rparr>)"
| acc_socket_fail: "sv_acc s = A_Socket \<Longrightarrow> d < 0 \<Longrightarrow>
    server_step max_clients Tau s (s\<lparr>sv_listen := d, sv_acc := A_Done\<rparr>)"
| acc_bind: "sv_acc s = A_Bind \<Longrightarrow> sv_listen s \<in> sv_listeners s \<Longrightarrow>
    server_step max_clients Tau s (s\<lparr>sv_acc := A_Listen\<rparr>)"
| acc_bind_fail: "sv_acc s = A_Bind \<Longrightarrow> server_step max_clients Tau s ((close_listener s)\<lparr>sv_acc := A_Done\<rparr>)"
| acc_listen: "sv_acc s = A_Listen \<Longrightarrow> sv_listen s \<in> sv_listeners s \<Longrightarrow>
    server_step max_clients Tau s (s\<lparr>sv_acc := A_Loop\<rparr>)"
| acc_listen_fail: "sv_acc s = A_Listen \<Longrightarrow> server_step max_clients Tau s ((close_listener s)\<lparr>sv_acc := A_Done\<rparr>)"
| acc_loop: "sv_acc s = A_Loop \<Longrightarrow>
    server_step max_clients Tau s (s\<lparr>sv_acc := (if sv_running s then A_Accept else A_Done)\<rparr>)"
| acc_accept: "sv_acc s = A_Accept \<Longrightarrow> sv_listen s \<in> sv_listeners s \<Longrightarrow> fresh_fd s c \<Longrightarrow>
    server_step max_clients Tau s (s\<lparr>sv_conns := insert c (sv_conns s), sv_acc := A_Check c\<rparr>)"
| acc_accept_fail: "sv_acc s = A_Accept \<Longrightarrow> server_step max_clients Tau s (s\<lparr>sv_acc := A_Done\<rparr>)"
| acc_refuse: "sv_acc s = A_Check c \<Longrightarrow> int (length (sv_fds s)) \<ge> max_clients \<Longrightarrow>
    server_step max_clients Tau s (s\<lparr>sv_conns := sv_conns s - {c}, sv_acc := A_Loop\<rparr>)"
| acc_admit: "sv_acc s = A_Check c \<Longrightarrow> \<not> int (length (sv_fds s)) \<ge> max_clients \<Longrightarrow>
    server_step max_clients Tau s (s\<lparr>sv_fds := sv_fds s @ [c], sv_acc := A_Spawn c\<rparr>)"
| acc_spawn: "sv_acc s = A_Spawn c \<Longrightarrow>
    server_step max_clients Tau s (s\<lparr>sv_threads := reap_done_threads (sv_threads s) @ [Some (sv_spawned s)],
      sv_handler := (sv_handler s)(sv_spawned s := H_Loop c), sv_spawned := Suc (sv_spawned s), sv_acc := A_Loop\<rparr>)"
| h_loop: "sv_handler s h = H_Loop c \<Longrightarrow>
    server_step max_clients Tau s (s\<lparr>sv_handler := (sv_handler s)(h := if sv_running s then H_Recv c else H_Remove c)\<rparr>)"
| h_valid: "sv_handler s h = H_Recv c \<Longrightarrow>
    server_step max_clients (Recv_returns h) s (s\<lparr>sv_handler := (sv_handler s)(h := H_Loop c)\<rparr>)"
| h_invalid: "sv_handler s h = H_Recv c \<Longrightarrow>
    server_step max_clients (Recv_returns h) s (s\<lparr>sv_handler := (sv_handler s)(h := H_Remove c)\<rparr>)"
| h_remove: "sv_handler s h = H_Remove c \<Longrightarrow>
    server_step max_clients Tau s (s\<lparr>sv_fds := remove1 c (sv_fds s), sv_handler := (sv_handler s)(h := H_Close c)\<rparr>)"
| h_close: "sv_handler s h = H_Close c \<Longrightarrow>
    server_step max_clients Tau s (s\<lparr>sv_conns := sv_conns s - {c}, sv_handler := (sv_handler s)(h := H_Done)\<rparr>)"

definition server_moves :: "int \<Rightarrow> SocketServer \<Rightarrow> SocketServer \<Rightarrow> bool" where
  "server_moves max_clients s t \<longleftrightarrow> (\<exists>l. server_step max_clients l s t)"

section \<open>Who owns a connection\<close>

text \<open>
  The accept thread is the agent \<open>None\<close>, client thread \<open>h\<close> is \<open>Some h\<close>. An agent owns the connection it
  will close or hand over; \<open>listed\<close> is the part of it that is in \<open>client_fds_\<close>.
\<close>

fun acc_fd :: "acc_pc \<Rightarrow> int set" where
  "acc_fd (A_Check c) = {c}" | "acc_fd (A_Spawn c) = {c}" | "acc_fd _ = {}"

fun acc_listed :: "acc_pc \<Rightarrow> int set" where
  "acc_listed (A_Spawn c) = {c}" | "acc_listed _ = {}"

fun handler_fd :: "handler_pc \<Rightarrow> int set" where
  "handler_fd (H_Loop c) = {c}" | "handler_fd (H_Recv c) = {c}" | "handler_fd (H_Remove c) = {c}"
| "handler_fd (H_Close c) = {c}" | "handler_fd _ = {}"

fun handler_listed :: "handler_pc \<Rightarrow> int set" where
  "handler_listed (H_Loop c) = {c}" | "handler_listed (H_Recv c) = {c}" | "handler_listed (H_Remove c) = {c}"
| "handler_listed _ = {}"

definition owned_by :: "acc_pc \<Rightarrow> (nat \<Rightarrow> handler_pc) \<Rightarrow> nat option \<Rightarrow> int set" where
  "owned_by acc hs a = (case a of None \<Rightarrow> acc_fd acc | Some h \<Rightarrow> handler_fd (hs h))"

definition listed_by :: "acc_pc \<Rightarrow> (nat \<Rightarrow> handler_pc) \<Rightarrow> nat option \<Rightarrow> int set" where
  "listed_by acc hs a = (case a of None \<Rightarrow> acc_listed acc | Some h \<Rightarrow> handler_listed (hs h))"

lemma owned_by_upd:
  "owned_by acc (hs(h := p)) = (owned_by acc hs)(Some h := handler_fd p)"
  "owned_by acc' hs = (owned_by acc hs)(None := acc_fd acc')"
  "listed_by acc (hs(h := p)) = (listed_by acc hs)(Some h := handler_listed p)"
  "listed_by acc' hs = (listed_by acc hs)(None := acc_listed acc')"
  by (auto simp: owned_by_def listed_by_def fun_eq_iff split: option.splits)

definition conns_ok :: "int list \<Rightarrow> int set \<Rightarrow> (nat option \<Rightarrow> int set) \<Rightarrow> (nat option \<Rightarrow> int set) \<Rightarrow> bool" where
  "conns_ok fds conns own listed \<longleftrightarrow> distinct fds \<and>
     (\<forall>c. c \<in> set fds \<longleftrightarrow> (\<exists>a. c \<in> listed a)) \<and> (\<forall>c. c \<in> conns \<longleftrightarrow> (\<exists>a. c \<in> own a)) \<and>
     (\<forall>a b c. c \<in> own a \<and> c \<in> own b \<longrightarrow> a = b) \<and> (\<forall>a c. c \<in> listed a \<longrightarrow> c \<in> own a)"

lemma conns_okD:
  assumes "conns_ok fds conns own listed"
  shows "distinct fds" "c \<in> set fds \<longleftrightarrow> (\<exists>a. c \<in> listed a)" "c \<in> conns \<longleftrightarrow> (\<exists>a. c \<in> own a)"
    "c \<in> own a \<Longrightarrow> c \<in> own b \<Longrightarrow> a = b" "c \<in> listed a \<Longrightarrow> c \<in> own a"
  using assms unfolding conns_ok_def by blast+

lemma mem_upd: "(\<exists>y. x \<in> (f(a := A)) y) \<longleftrightarrow> x \<in> A \<or> (\<exists>y. y \<noteq> a \<and> x \<in> f y)"
  by auto

lemma conns_okI:
  assumes "distinct fds" "\<And>c. c \<in> set fds \<longleftrightarrow> (\<exists>a. c \<in> listed a)" "\<And>c. c \<in> conns \<longleftrightarrow> (\<exists>a. c \<in> own a)"
    "\<And>a b c. c \<in> own a \<Longrightarrow> c \<in> own b \<Longrightarrow> a = b" "\<And>a c. c \<in> listed a \<Longrightarrow> c \<in> own a"
  shows "conns_ok fds conns own listed"
  using assms unfolding conns_ok_def by blast

lemma conns_new:
  assumes ok: "conns_ok fds conns own listed" and a: "own a = {}" and c: "c \<notin> conns"
  shows "conns_ok fds (insert c conns) (own(a := {c})) listed"
proof (rule conns_okI)
  note d = conns_okD [OF ok]
  have la: "x \<notin> listed a" and no: "c \<notin> own b" for x b using d(3,5) a c by blast+
  show "distinct fds" "x \<in> set fds \<longleftrightarrow> (\<exists>a. x \<in> listed a)" for x using d(1,2) by blast+
  show "x \<in> insert c conns \<longleftrightarrow> (\<exists>y. x \<in> (own(a := {c})) y)" for x
    unfolding mem_upd using d(3) [of x] a by (metis empty_iff insert_iff)
  show "y = z" if "x \<in> (own(a := {c})) y" "x \<in> (own(a := {c})) z" for x y z
    using that no d(4) by (auto split: if_splits)
  show "x \<in> (own(a := {c})) y" if "x \<in> listed y" for x y using that la d(5) by auto
qed

lemma conns_list:
  assumes ok: "conns_ok fds conns own listed" and a: "own a = {c}" "listed a = {}"
  shows "conns_ok (fds @ [c]) conns own (listed(a := {c}))"
proof (rule conns_okI)
  note d = conns_okD [OF ok]
  have no: "c \<notin> listed b" for b using d(4,5) a by (metis empty_iff singletonI)
  show "distinct (fds @ [c])" using d(1,2) no by simp
  show "x \<in> set (fds @ [c]) \<longleftrightarrow> (\<exists>b. x \<in> (listed(a := {c})) b)" for x
    unfolding mem_upd using d(2) [of x] a(2) by (metis Un_iff empty_iff insert_iff list.set set_append)
  show "x \<in> conns \<longleftrightarrow> (\<exists>y. x \<in> own y)" for x using d(3) .
  show "y = z" if "x \<in> own y" "x \<in> own z" for x y z using d(4) that .
  show "x \<in> own y" if "x \<in> (listed(a := {c})) y" for x y using that a(1) d(5) by (auto split: if_splits)
qed

lemma conns_unlist:
  assumes ok: "conns_ok fds conns own listed" and a: "listed a = {c}"
  shows "conns_ok (remove1 c fds) conns own (listed(a := {}))"
proof (rule conns_okI)
  note d = conns_okD [OF ok]
  have no: "c \<notin> listed b" if "b \<noteq> a" for b using d(4,5) a that by blast
  show "distinct (remove1 c fds)" using d(1) by simp
  show "x \<in> set (remove1 c fds) \<longleftrightarrow> (\<exists>b. x \<in> (listed(a := {})) b)" for x
    unfolding mem_upd set_remove1_eq [OF d(1)] using d(2) [of x] a no by (cases "x = c") (auto, metis singletonD)
  show "x \<in> conns \<longleftrightarrow> (\<exists>y. x \<in> own y)" for x using d(3) .
  show "y = z" if "x \<in> own y" "x \<in> own z" for x y z using d(4) that .
  show "x \<in> own y" if "x \<in> (listed(a := {})) y" for x y using that d(5) by (auto split: if_splits)
qed

lemma conns_drop:
  assumes ok: "conns_ok fds conns own listed" and a: "own a = {c}" "listed a = {}"
  shows "conns_ok fds (conns - {c}) (own(a := {})) listed"
proof (rule conns_okI)
  note d = conns_okD [OF ok]
  have no: "c \<notin> own b" if "b \<noteq> a" for b using d(4) a that by blast
  show "distinct fds" "x \<in> set fds \<longleftrightarrow> (\<exists>a. x \<in> listed a)" for x using d(1,2) by blast+
  show "x \<in> conns - {c} \<longleftrightarrow> (\<exists>b. x \<in> (own(a := {})) b)" for x
    unfolding mem_upd using d(3) [of x] a no by (cases "x = c") (auto, metis singletonD)
  show "y = z" if "x \<in> (own(a := {})) y" "x \<in> (own(a := {})) z" for x y z
    using that d(4) by (auto split: if_splits)
  show "x \<in> (own(a := {})) y" if "x \<in> listed y" for x y using that a(2) d(5) by auto
qed

lemma conns_move:
  assumes ok: "conns_ok fds conns own listed" and a: "own a = {c}" "listed a = {c}" and b: "own b = {}" "a \<noteq> b"
  shows "conns_ok fds conns (own(a := {}, b := {c})) (listed(a := {}, b := {c}))"
proof (rule conns_okI)
  note d = conns_okD [OF ok]
  have no: "c \<notin> own x" if "x \<noteq> a" for x using d(4) a that by blast
  have lb: "x \<notin> listed b" for x using d(5) b by blast
  show "distinct fds" using d(1) .
  show "x \<in> conns \<longleftrightarrow> (\<exists>y. x \<in> (own(a := {}, b := {c})) y)" for x
    unfolding d(3) mem_upd [of x "own(a := {})"] using a b by (auto split: if_splits)
  show "x \<in> set fds \<longleftrightarrow> (\<exists>y. x \<in> (listed(a := {}, b := {c})) y)" for x
    unfolding d(2) mem_upd [of x "listed(a := {})"] using a b lb by (auto split: if_splits) (metis singletonD)
  show "y = z" if "x \<in> (own(a := {}, b := {c})) y" "x \<in> (own(a := {}, b := {c})) z" for x y z
    using that no d(4) by (auto split: if_splits)
  show "x \<in> (own(a := {}, b := {c})) y" if "x \<in> (listed(a := {}, b := {c})) y" for x y
    using that d(5) by (auto split: if_splits)
qed

section \<open>The invariant\<close>

abbreviation server_conns_ok :: "SocketServer \<Rightarrow> bool" where
  "server_conns_ok s \<equiv> conns_ok (sv_fds s) (sv_conns s) (owned_by (sv_acc s) (sv_handler s)) (listed_by (sv_acc s) (sv_handler s))"

fun live :: "handler_pc \<Rightarrow> bool" where
  "live H_None = False" | "live H_Done = False" | "live _ = True"

fun join_pos :: "main_pc \<Rightarrow> nat" where
  "join_pos (M_Join k) = k" | "join_pos _ = 0"

fun joining :: "main_pc \<Rightarrow> bool" where
  "joining (M_Join k) = True" | "joining _ = False"

definition server_life_ok :: "SocketServer \<Rightarrow> bool" where
  "server_life_ok s \<longleftrightarrow>
     (\<forall>h. live (sv_handler s h) \<longrightarrow> Some h \<in> set (drop (join_pos (sv_main s)) (sv_threads s))) \<and>
     (\<not> joining (sv_main s) \<longrightarrow> None \<notin> set (sv_threads s)) \<and> (joining (sv_main s) \<longrightarrow> sv_acc s = A_None) \<and>
     (sv_main s \<noteq> M_Idle \<longrightarrow> \<not> sv_running s) \<and> (sv_running s \<longrightarrow> sv_acc s \<noteq> A_None) \<and>
     (sv_main s = M_Idle \<and> \<not> sv_running s \<longrightarrow> sv_acc s = A_None \<and> sv_threads s = []) \<and>
     (\<forall>h \<ge> sv_spawned s. sv_handler s h = H_None)"

lemma reap_nothing: "None \<notin> set ts \<Longrightarrow> reap_done_threads ts = ts"
  by (simp add: reap_done_threads_def filter_id_conv) (metis not_None_eq)

lemma server_life_okD:
  assumes "server_life_ok s"
  shows "live (sv_handler s h) \<Longrightarrow> Some h \<in> set (drop (join_pos (sv_main s)) (sv_threads s))"
    "\<not> joining (sv_main s) \<Longrightarrow> None \<notin> set (sv_threads s)" "joining (sv_main s) \<Longrightarrow> sv_acc s = A_None"
    "sv_main s \<noteq> M_Idle \<Longrightarrow> \<not> sv_running s" "sv_running s \<Longrightarrow> sv_acc s \<noteq> A_None"
    "sv_main s = M_Idle \<Longrightarrow> \<not> sv_running s \<Longrightarrow> sv_acc s = A_None \<and> sv_threads s = []"
    "sv_spawned s \<le> h \<Longrightarrow> sv_handler s h = H_None"
  using assms unfolding server_life_ok_def by blast+

lemma server_step_conns:
  assumes "server_step mx l s t" and ok: "server_conns_ok s" and life: "server_life_ok s"
  shows "server_conns_ok t"
proof -
  have new: "sv_handler s (sv_spawned s) = H_None" using server_life_okD(7) [OF life] by simp
  let ?own = "owned_by (sv_acc s) (sv_handler s)" and ?listed = "listed_by (sv_acc s) (sv_handler s)"
  have own: "?own None = acc_fd (sv_acc s)" "?own (Some h) = handler_fd (sv_handler s h)"
    "?listed None = acc_listed (sv_acc s)" "?listed (Some h) = handler_listed (sv_handler s h)" for h
    by (simp_all add: owned_by_def listed_by_def)
  have acc: "owned_by acc' (sv_handler s) = ?own(None := acc_fd acc')"
    "listed_by acc' (sv_handler s) = ?listed(None := acc_listed acc')" for acc'
    by (rule owned_by_upd)+
  have same: "server_conns_ok t" if "acc_fd (sv_acc t) = acc_fd (sv_acc s)" "acc_listed (sv_acc t) = acc_listed (sv_acc s)"
    "sv_handler t = sv_handler s" "sv_fds t = sv_fds s" "sv_conns t = sv_conns s"
  proof -
    have "owned_by (sv_acc t) (sv_handler t) = ?own" "listed_by (sv_acc t) (sv_handler t) = ?listed"
      using that by (auto simp: owned_by_def listed_by_def fun_eq_iff split: option.splits)
    then show ?thesis using that ok by (simp only:)
  qed
  have idem: "?own(a := ?own a) = ?own" "?listed(a := ?listed a) = ?listed" for a by simp_all
  from assms(1) show ?thesis
  proof cases
    case sv_start
    then have "sv_acc s = A_None" using server_life_okD(6) [OF life] by blast
    then show ?thesis using sv_start by (intro same) simp_all
  next
    case sv_join_accept
    then show ?thesis by (intro same) auto
  next
    case (acc_accept c)
    have e: "?own None = {}" "?listed None = {}" by (simp_all add: owned_by_def listed_by_def acc_accept(3))
    have "conns_ok (sv_fds s) (insert c (sv_conns s)) (?own(None := {c})) (?listed(None := {}))"
      using conns_new [OF ok e(1), of c] idem(2) [of None] acc_accept(5) unfolding e(2) fresh_fd_def by simp
    then show ?thesis unfolding acc_accept(2) by (simp add: acc [of "A_Check c"])
  next
    case (acc_refuse c)
    have e: "?own None = {c}" "?listed None = {}" by (simp_all add: owned_by_def listed_by_def acc_refuse(3))
    have "conns_ok (sv_fds s) (sv_conns s - {c}) (?own(None := {})) (?listed(None := {}))"
      using conns_drop [OF ok e] idem(2) [of None] unfolding e(2) by simp
    then show ?thesis unfolding acc_refuse(2) by (simp add: acc [of A_Loop])
  next
    case (acc_admit c)
    have e: "?own None = {c}" "?listed None = {}" by (simp_all add: owned_by_def listed_by_def acc_admit(3))
    have "conns_ok (sv_fds s @ [c]) (sv_conns s) (?own(None := {c})) (?listed(None := {c}))"
      using conns_list [OF ok e] idem(1) [of None] unfolding e(1) by simp
    then show ?thesis unfolding acc_admit(2) by (simp add: acc [of "A_Spawn c"])
  next
    case (acc_spawn c)
    have e: "?own None = {c}" "?listed None = {c}" "?own (Some (sv_spawned s)) = {}"
      by (simp_all add: owned_by_def listed_by_def acc_spawn(3) new)
    show ?thesis using conns_move [OF ok e] unfolding acc_spawn(2) by (simp add: owned_by_upd(1,3) acc [of A_Loop])
  next
    case (h_remove h c)
    then show ?thesis using conns_unlist [OF ok, of "Some h" c] idem(1) [of "Some h"] by (simp add: owned_by_upd(1,3) own)
  next
    case (h_close h c)
    then show ?thesis using conns_drop [OF ok, of "Some h" c] idem(2) [of "Some h"] by (simp add: owned_by_upd(1,3) own)
  next
    case (h_loop h c)
    then show ?thesis using ok idem [of "Some h"] by (simp add: owned_by_upd(1,3) own)
  next
    case (h_valid h c)
    then show ?thesis using ok idem [of "Some h"] by (simp add: owned_by_upd(1,3) own)
  next
    case (h_invalid h c)
    then show ?thesis using ok idem [of "Some h"] by (simp add: owned_by_upd(1,3) own)
  qed (rule same; simp add: close_listener_def)+
qed

lemma server_step_life:
  assumes "server_step mx l s t" and ok: "server_life_ok s"
  shows "server_life_ok t"
proof -
  note d = server_life_okD [OF ok]
  from assms(1) show ?thesis
  proof cases
    case (sv_join_client k h)
    have drop: "drop k (sv_threads s) = Some h # drop (Suc k) (sv_threads s)"
      using sv_join_client by (metis Cons_nth_drop_Suc)
    have "Some h' \<in> set (drop (Suc k) (sv_threads s))" if "live (sv_handler s h')" for h'
      using d(1) [OF that] sv_join_client(3,6) that unfolding sv_join_client(3) join_pos.simps drop by auto
    then show ?thesis using d sv_join_client unfolding server_life_ok_def by simp
  next
    case (sv_join_skip k)
    have drop: "drop k (sv_threads s) = None # drop (Suc k) (sv_threads s)"
      using sv_join_skip by (metis Cons_nth_drop_Suc)
    have "Some h' \<in> set (drop (Suc k) (sv_threads s))" if "live (sv_handler s h')" for h'
      using d(1) [OF that] unfolding sv_join_skip(3) join_pos.simps drop by auto
    then show ?thesis using d sv_join_skip unfolding server_life_ok_def by simp
  next
    case (acc_spawn c)
    then have "\<not> joining (sv_main s)" "sv_main s = M_Idle \<longrightarrow> sv_running s" using d(3,6) by fastforce+
    then show ?thesis using d acc_spawn reap_nothing [OF d(2)]
      unfolding server_life_ok_def by (cases "sv_main s") auto
  next
    case (h_loop h c)
    then show ?thesis using d ok unfolding server_life_ok_def by auto
  qed (use d in \<open>force simp: server_life_ok_def close_listener_def split: if_splits\<close>)+
qed

definition server_ok :: "int \<Rightarrow> SocketServer \<Rightarrow> bool" where
  "server_ok mx s \<longleftrightarrow> server_conns_ok s \<and> server_life_ok s \<and> client_count s \<le> max 0 mx"

lemma server_step_limit:
  assumes "server_step mx l s t" "client_count s \<le> max 0 mx"
  shows "client_count t \<le> max 0 mx"
  using assms by cases (auto simp: client_count_def close_listener_def length_remove1)

interpretation server_sys: invariant_system server_init "server_moves mx" "server_ok mx" for mx
proof unfold_locales
  fix s assume "server_init s"
  then show "server_ok mx s"
    by (auto simp: server_init_def server_ok_def conns_ok_def owned_by_def listed_by_def server_life_ok_def
        client_count_def split: option.splits)
next
  fix s t assume "server_moves mx s t" "server_ok mx s"
  then show "server_ok mx t"
    unfolding server_moves_def server_ok_def using server_step_conns server_step_life server_step_limit by blast
qed

lemma server_conns_facts:
  assumes "reachable server_init (server_moves mx) s"
  shows "client_count s \<le> max 0 mx \<and> distinct (sv_fds s) \<and> set (sv_fds s) \<subseteq> sv_conns s \<and>
    sv_conns s = acc_fd (sv_acc s) \<union> (\<Union>h. handler_fd (sv_handler s h)) \<and>
    (\<forall>h h'. h \<noteq> h' \<longrightarrow> handler_fd (sv_handler s h) \<inter> handler_fd (sv_handler s h') = {}) \<and>
    (\<forall>h. handler_fd (sv_handler s h) \<inter> acc_fd (sv_acc s) = {})"
proof -
  let ?own = "owned_by (sv_acc s) (sv_handler s)"
  have ok: "server_ok mx s" by (rule server_sys.reachable_inv [OF assms])
  then have d: "server_conns_ok s" "client_count s \<le> max 0 mx" by (simp_all add: server_ok_def)
  note c = conns_okD [OF d(1)]
  have own: "?own None = acc_fd (sv_acc s)" "?own (Some h) = handler_fd (sv_handler s h)" for h by (simp_all add: owned_by_def)
  have "x \<in> sv_conns s \<longleftrightarrow> x \<in> acc_fd (sv_acc s) \<or> (\<exists>h. x \<in> handler_fd (sv_handler s h))" for x
    unfolding c(3) own [symmetric] by (metis not_None_eq)
  then have "sv_conns s = acc_fd (sv_acc s) \<union> (\<Union>h. handler_fd (sv_handler s h))" by blast
  moreover have "set (sv_fds s) \<subseteq> sv_conns s" using c(2,3,5) by blast
  moreover have "h \<noteq> h' \<longrightarrow> handler_fd (sv_handler s h) \<inter> handler_fd (sv_handler s h') = {}" for h h'
    using c(4) [of _ "Some h" "Some h'"] own(2) by blast
  moreover have "handler_fd (sv_handler s h) \<inter> acc_fd (sv_acc s) = {}" for h
    using c(4) [of _ "Some h" None] own by blast
  ultimately show ?thesis using c(1) d(2) by blast
qed

section \<open>Broadcasting\<close>

text \<open>\<open>send d\<close> is \<open>send\<close> on descriptor \<open>d\<close>; the state \<open>e\<close> is that of all connections.\<close>

fun broadcast :: "(int \<Rightarrow> 'e send_fn) \<Rightarrow> IPCMessage \<Rightarrow> int list \<Rightarrow> 'e \<Rightarrow> nat \<times> 'e" where
  "broadcast send msg [] e = (0, e)"
| "broadcast send msg (d # ds) e =
     (case send_ipc_message (send d) msg e of (ok, e1) \<Rightarrow>
        case broadcast send msg ds e1 of (n, e2) \<Rightarrow> ((if ok then 1 else 0) + n, e2))"

lemma send_loop_frame:
  assumes "\<And>bs e. P (snd (send bs e)) = P e"
  shows "P (snd (send_loop send bs don e)) = P e"
proof (induction "length bs - don" arbitrary: don e rule: less_induct)
  case less
  show ?case
  proof (cases "don < length bs")
    case False
    then show ?thesis by (simp add: send_loop.simps [of send bs don])
  next
    case True
    obtain w e1 where w: "send (drop don bs) e = (w, e1)" by (cases "send (drop don bs) e")
    then have "P e1 = P e" using assms [of "drop don bs" e] by simp
    then show ?thesis
      using True w less.hyps [of "don + nat w" e1] by (cases "w \<le> 0") (simp_all add: send_loop.simps [of send bs don])
  qed
qed

lemma send_message_frame:
  assumes "\<And>bs e. P (snd (send bs e)) = P e"
  shows "P (snd (send_ipc_message send msg e)) = P e"
proof -
  let ?h = "le_bytes 4 (of_nat (length (to_buffer msg)) :: u32)"
  obtain ok1 e1 where s1: "send_all send ?h e = (ok1, e1)" by fastforce
  have "P e1 = P e" using send_loop_frame [of P send, OF assms, of ?h 0 e] s1 by (simp add: send_all_def)
  moreover have "P (snd (send_all send (to_buffer msg) e1)) = P e1"
    using send_loop_frame [of P send, OF assms, of "to_buffer msg" 0 e1] by (simp add: send_all_def)
  ultimately show ?thesis using s1 by (cases ok1) (simp_all add: send_ipc_message_def Let_def)
qed

section \<open>Properties\<close>

text \<open>
  Broadcasting. When a call of \<open>send\<close> on a descriptor touches only its own connection, \<open>broadcast\<close>
  sends to no descriptor outside \<open>client_fds_\<close>, every client gets a prefix of the frame, and the
  result is the number of clients that got all of it.
\<close>

theorem broadcast_counts:
  assumes rel: "\<forall>d. reliable_send (send d) (out d)" and sep: "\<forall>d d' bs e. d \<noteq> d' \<longrightarrow> out d' (snd (send d bs e)) = out d' e"
    and "distinct ds" "broadcast send msg ds e = (n, e')"
  shows "(\<forall>d. d \<notin> set ds \<longrightarrow> out d e' = out d e) \<and>
    (\<forall>d \<in> set ds. \<exists>k \<le> length (frame msg). out d e' = out d e @ take k (frame msg)) \<and>
    n = card {d \<in> set ds. out d e' = out d e @ frame msg}"
  using assms(3,4)
proof (induction ds arbitrary: e n)
  case (Cons d ds)
  obtain ok e1 where s1: "send_ipc_message (send d) msg e = (ok, e1)" by fastforce
  obtain m e2 where b: "broadcast send msg ds e1 = (m, e2)" by fastforce
  have n: "n = (if ok then 1 else 0) + m" "e' = e2" using Cons.prems(2) s1 b by auto
  have d: "d \<notin> set ds" "distinct ds" using Cons.prems(1) by simp_all
  note ih = Cons.IH [OF d(2) b [folded n(2)]]
  obtain k where k: "k \<le> length (frame msg)" "out d e1 = out d e @ take k (frame msg)" "ok \<longleftrightarrow> k = length (frame msg)"
    using send_frame [OF rel [rule_format] s1] by blast
  have other: "out d' e1 = out d' e" if "d' \<noteq> d" for d'
    using send_message_frame [of "out d'" "send d" msg e] sep that s1 by auto
  have de: "out d e' = out d e @ take k (frame msg)" using ih d(1) k(2) by simp
  have "ok \<longleftrightarrow> out d e' = out d e @ frame msg"
    unfolding de same_append_eq k(3) using k(1) by (metis length_take min.absorb2 nle_le take_all)
  then have "{d' \<in> set (d # ds). out d' e' = out d' e @ frame msg} =
      (if ok then {d} else {}) \<union> {d' \<in> set ds. out d' e' = out d' e1 @ frame msg}"
    using other d(1) by (auto, metis+)
  moreover have "card \<dots> = n" using ih n(1) d(1) by (auto simp: card_insert_if)
  moreover have "\<forall>d' \<in> set (d # ds). \<exists>k \<le> length (frame msg). out d' e' = out d' e @ take k (frame msg)"
    using ih de k(1) other d(1) by (metis set_ConsD)
  ultimately show ?case using ih other by auto
qed simp

text \<open>A network that accepts everything at once.\<close>

definition eager_send :: "int \<Rightarrow> (int \<Rightarrow> byte list) send_fn" where
  "eager_send d bs e = (int (length bs), e(d := e d @ bs))"

theorem broadcast_counts_witness:
  "fst (broadcast eager_send small_msg [3, 5] (\<lambda>_. [])) =
     card {d \<in> {3, 5}. snd (broadcast eager_send small_msg [3, 5] (\<lambda>_. [])) d = frame small_msg} \<and>
   snd (broadcast eager_send small_msg [3, 5] (\<lambda>_. [])) 4 = []"
proof -
  obtain n e' where b: "broadcast eager_send small_msg [3, 5] (\<lambda>_. []) = (n, e')" by fastforce
  have "\<forall>d. reliable_send (eager_send d) (\<lambda>e. e d)" by (simp add: reliable_send_def eager_send_def)
  moreover have "\<forall>d d' bs e. d \<noteq> d' \<longrightarrow> (snd (eager_send d bs e)) d' = e d'" by (simp add: eager_send_def)
  ultimately show ?thesis
    using broadcast_counts [of eager_send "\<lambda>d e. e d" "[3, 5]" small_msg "\<lambda>_. []" n e'] b by simp
qed

text \<open>
  C18. The server's descriptors. In every reachable state at most \<open>max_clients\<close> clients are connected;
  \<open>client_fds_\<close> has no duplicates and lists only open connections; every open connection belongs to
  the accept thread or to exactly one client thread, which will close it.
\<close>

theorem server_descriptors:
  assumes "reachable server_init (server_moves mx) s"
  shows "client_count s \<le> max 0 mx \<and> distinct (sv_fds s) \<and> set (sv_fds s) \<subseteq> sv_conns s \<and>
    sv_conns s = acc_fd (sv_acc s) \<union> (\<Union>h. handler_fd (sv_handler s h)) \<and>
    (\<forall>h h'. h \<noteq> h' \<longrightarrow> handler_fd (sv_handler s h) \<inter> handler_fd (sv_handler s h') = {}) \<and>
    (\<forall>h. handler_fd (sv_handler s h) \<inter> acc_fd (sv_acc s) = {})"
  by (rule server_conns_facts [OF assms])

text \<open>
  C26. When \<open>stop\<close> has returned, every client thread has ended, \<open>client_fds_\<close> and \<open>client_threads_\<close> are
  empty and no connection is open.
\<close>

theorem stop_closes_connections:
  assumes "reachable server_init (server_moves mx) s" "sv_main s = M_Idle" "\<not> sv_running s"
  shows "sv_fds s = [] \<and> sv_conns s = {} \<and> sv_threads s = [] \<and> (\<forall>h. \<not> live (sv_handler s h))"
proof -
  have "server_ok mx s" by (rule server_sys.reachable_inv [OF assms(1)])
  then have life: "server_life_ok s" by (simp add: server_ok_def)
  note l = server_life_okD [OF life]
  have a: "sv_acc s = A_None" "sv_threads s = []" using l(6) assms(2,3) by blast+
  then have dead: "\<not> live (sv_handler s h)" for h using l(1) [of h] by auto
  have "handler_fd p = {}" if "\<not> live p" for p using that by (cases p) simp_all
  then have "sv_conns s = {}" "sv_fds s = []"
    using server_conns_facts [OF assms(1)] dead a(1) by auto
  then show ?thesis using a dead by blast
qed

text \<open>
  Finished threads are never reaped. Whenever the accept thread is about to start a client thread,
  \<open>reap_done_threads\<close> finds only joinable threads and removes none, so the vector has one more element
  after every accepted connection until \<open>stop\<close> clears it.
\<close>

theorem reap_never_reaps:
  assumes "reachable server_init (server_moves mx) s" "sv_acc s = A_Spawn c"
  shows "reap_done_threads (sv_threads s) = sv_threads s \<and>
    (\<forall>l t. server_step mx l s t \<and> sv_acc t = A_Loop \<longrightarrow> length (sv_threads t) = Suc (length (sv_threads s)))"
proof -
  have "server_ok mx s" by (rule server_sys.reachable_inv [OF assms(1)])
  then have life: "server_life_ok s" by (simp add: server_ok_def)
  have "\<not> joining (sv_main s)" using server_life_okD(3) [OF life] assms(2) by auto
  then have reap: "reap_done_threads (sv_threads s) = sv_threads s" using reap_nothing server_life_okD(2) [OF life] by simp
  have "length (sv_threads t) = Suc (length (sv_threads s))" if st: "server_step mx l s t" "sv_acc t = A_Loop" for l t
    using st(1) by cases (use st(2) assms(2) reap in \<open>auto simp: close_listener_def split: if_splits\<close>)
  then show ?thesis using reap by blast
qed


section \<open>Concrete runs\<close>

definition server0 :: SocketServer where
  "server0 = \<lparr>sv_running = False, sv_listen = -1, sv_acc = A_None, sv_fds = [], sv_threads = [],
     sv_main = M_Idle, sv_handler = (\<lambda>_. H_None), sv_spawned = 0, sv_listeners = {}, sv_conns = {}\<rparr>"

definition listening :: SocketServer where
  "listening = server0\<lparr>sv_running := True, sv_listen := 3, sv_listeners := {3}, sv_acc := A_Loop\<rparr>"

definition admitted :: SocketServer where
  "admitted = listening\<lparr>sv_conns := {4}, sv_fds := [4], sv_acc := A_Spawn 4\<rparr>"

definition serving :: SocketServer where
  "serving = admitted\<lparr>sv_threads := [Some 0], sv_handler := (\<lambda>_. H_None)(0 := H_Recv 4), sv_spawned := 1, sv_acc := A_Loop\<rparr>"

definition stopping :: SocketServer where
  "stopping = serving\<lparr>sv_running := False, sv_listen := -1, sv_listeners := {}, sv_acc := A_None, sv_main := M_Join 0\<rparr>"

abbreviation server_run :: "SocketServer \<Rightarrow> SocketServer \<Rightarrow> bool" where
  "server_run \<equiv> (server_moves 8)\<^sup>*\<^sup>*"

lemma run_cons: "server_step 8 l s t \<Longrightarrow> server_run t u \<Longrightarrow> server_run s u"
  by (rule converse_rtranclp_into_rtranclp) (auto simp: server_moves_def)

lemma server0_reachable: "reachable server_init (server_moves 8) server0"
  by (rule reach_init) (simp add: server_init_def server0_def)

lemma run_listening: "server_run server0 listening"
proof -
  let ?s1 = "server0\<lparr>sv_running := True, sv_acc := A_Socket\<rparr>"
  let ?s2 = "?s1\<lparr>sv_listen := 3, sv_listeners := {3}, sv_acc := A_Bind\<rparr>"
  have "server_step 8 Tau server0 ?s1" by (rule sv_start) (simp_all add: server0_def)
  moreover have "server_step 8 Tau ?s1 ?s2" using acc_socket [of ?s1 3 8] by (simp add: fresh_fd_def server0_def)
  moreover have "server_step 8 Tau ?s2 (?s2\<lparr>sv_acc := A_Listen\<rparr>)" by (rule acc_bind) simp_all
  moreover have "server_step 8 Tau (?s2\<lparr>sv_acc := A_Listen\<rparr>) listening"
    using acc_listen [of "?s2\<lparr>sv_acc := A_Listen\<rparr>" 8] by (simp add: listening_def)
  ultimately show ?thesis by (meson run_cons rtranclp.rtrancl_refl)
qed

lemma run_admitted: "server_run listening admitted"
proof -
  let ?s1 = "listening\<lparr>sv_acc := A_Accept\<rparr>" and ?s2 = "listening\<lparr>sv_conns := {4}, sv_acc := A_Check 4\<rparr>"
  have "server_step 8 Tau listening ?s1" using acc_loop [of listening 8] by (simp add: listening_def)
  moreover have "server_step 8 Tau ?s1 ?s2" using acc_accept [of ?s1 4 8] by (simp add: fresh_fd_def listening_def server0_def)
  moreover have "server_step 8 Tau ?s2 admitted" using acc_admit [of ?s2 4 8] by (simp add: admitted_def listening_def server0_def)
  ultimately show ?thesis by (meson run_cons rtranclp.rtrancl_refl)
qed

lemma run_serving: "server_run admitted serving"
proof -
  let ?s1 = "admitted\<lparr>sv_threads := [Some 0], sv_handler := (\<lambda>_. H_None)(0 := H_Loop 4), sv_spawned := 1, sv_acc := A_Loop\<rparr>"
  have "server_step 8 Tau admitted ?s1"
    using acc_spawn [of admitted 4 8] by (simp add: admitted_def listening_def server0_def reap_done_threads_def)
  moreover have "server_step 8 Tau ?s1 serving"
    using h_loop [of ?s1 0 4 8] by (simp add: serving_def admitted_def listening_def server0_def)
  ultimately show ?thesis by (meson run_cons rtranclp.rtrancl_refl)
qed

lemma run_stopping: "server_run serving stopping"
proof -
  let ?s1 = "serving\<lparr>sv_running := False, sv_main := M_Listen\<rparr>"
  let ?s2 = "?s1\<lparr>sv_listen := -1, sv_listeners := {}, sv_main := M_Join_accept\<rparr>"
  let ?s3 = "?s2\<lparr>sv_acc := A_Done\<rparr>"
  have "server_step 8 Tau serving ?s1" by (rule sv_stop) (simp add: serving_def admitted_def listening_def server0_def)
  moreover have "server_step 8 Tau ?s1 ?s2"
    using sv_stop_listen [of ?s1 8] by (simp add: close_listener_def serving_def admitted_def listening_def server0_def)
  moreover have "server_step 8 Tau ?s2 ?s3" using acc_loop [of ?s2 8] by (simp add: serving_def)
  moreover have "server_step 8 Tau ?s3 stopping" using sv_join_accept [of ?s3 8] by (simp add: stopping_def serving_def)
  ultimately show ?thesis by (meson run_cons rtranclp.rtrancl_refl)
qed

lemma reachable_runs:
  "reachable server_init (server_moves 8) admitted" "reachable server_init (server_moves 8) serving"
  using server0_reachable run_listening run_admitted run_serving by (meson reachable_run)+

theorem server_descriptors_witness:
  "client_count serving \<le> 8 \<and> set (sv_fds serving) \<subseteq> sv_conns serving \<and> sv_conns serving = {4}"
proof -
  have "sv_conns serving = {4}" by (simp add: serving_def admitted_def)
  moreover have "client_count serving \<le> max 0 8" "set (sv_fds serving) \<subseteq> sv_conns serving"
    using server_descriptors [OF reachable_runs(2)] by blast+
  ultimately show ?thesis by simp
qed

theorem reap_never_reaps_witness:
  "reap_done_threads (sv_threads admitted) = sv_threads admitted"
  using reap_never_reaps [OF reachable_runs(1), of 4] by (simp add: admitted_def)


definition stopped :: SocketServer where
  "stopped = stopping\<lparr>sv_fds := [], sv_conns := {}, sv_handler := (\<lambda>_. H_None)(0 := H_Done), sv_threads := [], sv_main := M_Idle\<rparr>"

lemma run_stopped: "server_run stopping stopped"
proof -
  let ?s1 = "stopping\<lparr>sv_handler := (\<lambda>_. H_None)(0 := H_Remove 4)\<rparr>"
  let ?s2 = "stopping\<lparr>sv_fds := [], sv_handler := (\<lambda>_. H_None)(0 := H_Close 4)\<rparr>"
  let ?s3 = "stopping\<lparr>sv_fds := [], sv_conns := {}, sv_handler := (\<lambda>_. H_None)(0 := H_Done)\<rparr>"
  let ?s4 = "?s3\<lparr>sv_threads := [None], sv_main := M_Join 1\<rparr>"
  note defs = stopping_def serving_def admitted_def listening_def server0_def
  have "server_step 8 (Recv_returns 0) stopping ?s1" using h_invalid [of stopping 0 4 8] by (simp add: defs)
  moreover have "server_step 8 Tau ?s1 ?s2" using h_remove [of ?s1 0 4 8] by (simp add: defs)
  moreover have "server_step 8 Tau ?s2 ?s3" using h_close [of ?s2 0 4 8] by (simp add: defs)
  moreover have "server_step 8 Tau ?s3 ?s4" using sv_join_client [of ?s3 0 0 8] by (simp add: defs)
  moreover have "server_step 8 Tau ?s4 stopped" using sv_stopped [of ?s4 1 8] by (simp add: stopped_def defs)
  ultimately show ?thesis by (meson run_cons rtranclp.rtrancl_refl)
qed

theorem stop_closes_connections_witness:
  "reachable server_init (server_moves 8) stopped \<and> sv_spawned stopped = 1 \<and> sv_fds stopped = [] \<and> sv_conns stopped = {}"
proof -
  have r: "reachable server_init (server_moves 8) stopped"
    using reachable_runs(2) run_stopping run_stopped by (meson reachable_run)
  moreover have "sv_main stopped = M_Idle" "\<not> sv_running stopped" "sv_spawned stopped = 1"
    by (simp_all add: stopped_def stopping_def serving_def)
  ultimately show ?thesis using stop_closes_connections [OF r] by blast
qed

text \<open>
  A race between \<open>stop\<close> and the start of the accept thread. If \<open>stop\<close> looks at \<open>listen_fd_\<close> before the
  accept thread has created the socket, it returns with the server still listening; a new \<open>start\<close> then
  overwrites \<open>listen_fd_\<close>, and the old listening socket stays open with no variable that refers to it.
\<close>

theorem early_stop_leaks_listener:
  "\<exists>s t. reachable server_init (server_moves 8) s \<and> sv_main s = M_Idle \<and> \<not> sv_running s \<and>
     sv_listen s \<in> sv_listeners s \<and> server_run s t \<and> sv_running t \<and>
     (\<exists>d \<in> sv_listeners t. d \<noteq> sv_listen t \<and> d \<notin> set (sv_fds t))"
proof -
  let ?s1 = "server0\<lparr>sv_running := True, sv_acc := A_Socket\<rparr>"
  let ?s2 = "?s1\<lparr>sv_running := False, sv_main := M_Listen\<rparr>"
  let ?s3 = "?s2\<lparr>sv_main := M_Join_accept\<rparr>"
  let ?s4 = "?s3\<lparr>sv_listen := 3, sv_listeners := {3}, sv_acc := A_Bind\<rparr>"
  let ?s5 = "?s4\<lparr>sv_acc := A_Listen\<rparr>" and ?s6 = "?s4\<lparr>sv_acc := A_Loop\<rparr>" and ?s7 = "?s4\<lparr>sv_acc := A_Done\<rparr>"
  let ?s8 = "?s4\<lparr>sv_acc := A_None, sv_main := M_Join 0\<rparr>"
  let ?s = "?s8\<lparr>sv_main := M_Idle\<rparr>"
  have "server_step 8 Tau server0 ?s1" by (rule sv_start) (simp_all add: server0_def)
  moreover have "server_step 8 Tau ?s1 ?s2" using sv_stop [of ?s1 8] by (simp add: server0_def)
  moreover have "server_step 8 Tau ?s2 ?s3" using sv_stop_listen [of ?s2 8] by (simp add: server0_def)
  moreover have "server_step 8 Tau ?s3 ?s4" using acc_socket [of ?s3 3 8] by (simp add: fresh_fd_def server0_def)
  moreover have "server_step 8 Tau ?s4 ?s5" using acc_bind [of ?s4 8] by simp
  moreover have "server_step 8 Tau ?s5 ?s6" using acc_listen [of ?s5 8] by simp
  moreover have "server_step 8 Tau ?s6 ?s7" using acc_loop [of ?s6 8] by simp
  moreover have "server_step 8 Tau ?s7 ?s8" using sv_join_accept [of ?s7 8] by simp
  moreover have "server_step 8 Tau ?s8 ?s" using sv_stopped [of ?s8 0 8] by (simp add: server0_def)
  ultimately have "server_run server0 ?s" by (meson run_cons rtranclp.rtrancl_refl)
  then have "reachable server_init (server_moves 8) ?s" by (rule reachable_run [OF _ server0_reachable])
  moreover
  let ?t1 = "?s\<lparr>sv_running := True, sv_acc := A_Socket\<rparr>"
  let ?t = "?t1\<lparr>sv_listen := 4, sv_listeners := {4, 3}, sv_acc := A_Bind\<rparr>"
  have "server_step 8 Tau ?s ?t1" by (rule sv_start) simp_all
  moreover have "server_step 8 Tau ?t1 ?t" using acc_socket [of ?t1 4 8] by (simp add: fresh_fd_def server0_def)
  ultimately have "reachable server_init (server_moves 8) ?s" "server_run ?s ?t" by (auto intro: run_cons)
  then show ?thesis by (intro exI [of _ ?s] exI [of _ ?t]) (auto simp: server0_def)
qed

end
