(* ===== verification/Binary32.thy ===== *)
theory Binary32
  imports Payloads "HOL-Library.Log_Nat"
begin

text \<open>
  The \<open>float\<close> arithmetic of the example programs, on 32-bit patterns: IEEE 754 binary32 with
  rounding to nearest, ties to even, which is what the compilers that the project supports give a
  \<open>float\<close> expression. Sign and magnitude of a pattern are read separately; a finite magnitude stands
  for a natural number of units of 2 to the power -149, so that every operation is integer
  arithmetic followed by one rounding.
\<close>

section \<open>Patterns\<close>

definition f32_neg :: "float32 \<Rightarrow> bool" where
  "f32_neg x = bit x 31"

definition f32_mag :: "float32 \<Rightarrow> nat" where
  "f32_mag x = unat (take_bit 31 x)"

definition f32_make :: "bool \<Rightarrow> nat \<Rightarrow> float32" where
  "f32_make neg m = (if neg then 2 ^ 31 else 0) + of_nat m"

abbreviation mag_inf :: nat where
  "mag_inf \<equiv> 255 * 2 ^ 23"

definition f32_nan :: "float32 \<Rightarrow> bool" where
  "f32_nan x \<longleftrightarrow> mag_inf < f32_mag x"

text \<open>The units of a magnitude: subnormal, or with the hidden bit and the exponent.\<close>

definition units :: "nat \<Rightarrow> nat" where
  "units m = (let e = m div 2 ^ 23; f = m mod 2 ^ 23 in if e = 0 then f else (2 ^ 23 + f) * 2 ^ (e - 1))"

text \<open>Comparison: magnitudes are ordered as their values, and the two zeros are equal.\<close>

definition f32_key :: "float32 \<Rightarrow> int" where
  "f32_key x = (if f32_neg x then - int (f32_mag x) else int (f32_mag x))"

definition f32_less :: "float32 \<Rightarrow> float32 \<Rightarrow> bool" where
  "f32_less x y \<longleftrightarrow> \<not> f32_nan x \<and> \<not> f32_nan y \<and> f32_key x < f32_key y"

section \<open>Arithmetic\<close>

definition round_even :: "nat \<Rightarrow> nat \<Rightarrow> nat" where
  "round_even n d = (let q = n div d; r = n mod d in if 2 * r < d \<or> 2 * r = d \<and> even q then q else Suc q)"

text \<open>The magnitude nearest to \<open>n / d\<close> units; what is too large becomes infinity.\<close>

definition round_mag :: "nat \<Rightarrow> nat \<Rightarrow> nat" where
  "round_mag n d = (let s = floorlog 2 (n div d) - 24 in min (s * 2 ^ 23 + round_even n (d * 2 ^ s)) mag_inf)"

definition f32_negate :: "float32 \<Rightarrow> float32" where
  "f32_negate x = x XOR 2 ^ 31"

text \<open>An operation with a NaN operand returns that NaN with the quiet bit set.\<close>

definition f32_quiet :: "float32 \<Rightarrow> float32" where
  "f32_quiet x = x OR 2 ^ 22"

definition f32_div :: "float32 \<Rightarrow> float32 \<Rightarrow> float32" where
  "f32_div x y =
     (let neg = (f32_neg x \<noteq> f32_neg y); a = f32_mag x; b = f32_mag y
      in if f32_nan x then f32_quiet x else if f32_nan y then f32_quiet y
         else if a = mag_inf \<and> b = mag_inf \<or> a = 0 \<and> b = 0 then f32_quiet (f32_make neg mag_inf)
         else if a = mag_inf \<or> b = 0 then f32_make neg mag_inf
         else if b = mag_inf then f32_make neg 0
         else f32_make neg (round_mag (units a * 2 ^ 149) (units b)))"

definition f32_mul :: "float32 \<Rightarrow> float32 \<Rightarrow> float32" where
  "f32_mul x y =
     (let neg = (f32_neg x \<noteq> f32_neg y); a = f32_mag x; b = f32_mag y
      in if f32_nan x then f32_quiet x else if f32_nan y then f32_quiet y
         else if a = mag_inf \<and> b = 0 \<or> a = 0 \<and> b = mag_inf then f32_quiet (f32_make neg mag_inf)
         else if a = mag_inf \<or> b = mag_inf then f32_make neg mag_inf
         else f32_make neg (round_mag (units a * units b) (2 ^ 149)))"

text \<open>A conversion from \<open>int\<close>, and the literal \<open>n / d\<close>.\<close>

definition f32_of_int :: "int \<Rightarrow> float32" where
  "f32_of_int n = f32_make (n < 0) (round_mag (nat \<bar>n\<bar> * 2 ^ 149) 1)"

definition f32_lit :: "nat \<Rightarrow> nat \<Rightarrow> float32" where
  "f32_lit n d = f32_make False (round_mag (n * 2 ^ 149) d)"

text \<open>Evaluation on numerals.\<close>

lemma floorlog2_simps [simp]:
  "floorlog 2 (numeral n) = Suc (floorlog 2 (numeral n div 2))" "floorlog 2 (Suc 0) = Suc 0" "floorlog 2 0 = 0"
  by (subst compute_floorlog, simp)+

lemmas f32_eval = f32_lit_def f32_div_def f32_mul_def f32_of_int_def round_mag_def round_even_def f32_make_def Let_def
  f32_nan_def f32_neg_def f32_mag_def units_def f32_negate_def f32_less_def f32_key_def

lemma f32_lits [simp]: "f32_lit (Suc 0) (Suc 0) = 0x3F800000" "f32_lit 20 (Suc 0) = 0x41A00000"
  by (simp_all add: f32_eval)


section \<open>Signs and magnitudes\<close>

lemma f32_mag_less: "f32_mag x < 2 ^ 31"
  by (simp add: f32_mag_def unat_take_bit)

lemma bit_31_unat: "bit (x :: float32) 31 \<longleftrightarrow> 2 ^ 31 \<le> unat x"
proof -
  have "unat x < 2 ^ 32" using unsigned_less [of x] by simp
  then have "unat x div 2 ^ 31 < 2" by (simp add: div_less_iff_less_mult)
  then have "odd (unat x div 2 ^ 31) \<longleftrightarrow> unat x div 2 ^ 31 = 1" by (auto simp: less_Suc_eq numeral_2_eq_2)
  also have "\<dots> \<longleftrightarrow> 2 ^ 31 \<le> unat x" using \<open>unat x < 2 ^ 32\<close> by (auto simp: div_nat_eqI dest: div_less)
  finally show ?thesis using bit_unsigned_iff [where ?'a = nat, of x 31] by (simp add: bit_iff_odd_drop_bit drop_bit_eq_div)
qed

lemma f32_make_parts [simp]:
  assumes "m < 2 ^ 31"
  shows "f32_mag (f32_make neg m) = m" "f32_neg (f32_make neg m) = neg"
proof -
  have "unat (of_nat m :: float32) = m" using assms by (simp add: unat_of_nat)
  then have u: "unat (f32_make neg m) = (if neg then 2 ^ 31 else 0) + m"
    using assms unat_add_lt [of "2 ^ 31 :: float32" "of_nat m"] by (auto simp: f32_make_def)
  then show "f32_mag (f32_make neg m) = m" using assms by (auto simp: f32_mag_def unat_take_bit)
  show "f32_neg (f32_make neg m) = neg" using assms u by (auto simp: f32_neg_def bit_31_unat)
qed

lemma f32_negate_parts [simp]: "f32_mag (f32_negate x) = f32_mag x" "f32_neg (f32_negate x) = (\<not> f32_neg x)"
proof -
  have "take_bit 31 (x XOR 2 ^ 31) = take_bit 31 x"
    by (rule bit_word_eqI) (auto simp: bit_simps)
  then show "f32_mag (f32_negate x) = f32_mag x" by (simp add: f32_mag_def f32_negate_def)
  show "f32_neg (f32_negate x) = (\<not> f32_neg x)" by (simp add: f32_neg_def f32_negate_def bit_simps)
qed

lemma f32_nan_quiet: "f32_nan x \<Longrightarrow> f32_nan (f32_quiet x)"
  using le_word_or2 [of "take_bit 31 x" "take_bit 31 (2 ^ 22)"]
  by (simp add: f32_nan_def f32_mag_def f32_quiet_def word_le_nat_alt take_bit_or)

section \<open>Rounding\<close>

lemma floorlog2_bounds:
  assumes "0 < t"
  shows "2 ^ (floorlog 2 t - 1) \<le> t" "t < 2 ^ floorlog 2 t"
  using floorlog_bounds [of t 2] assms by auto

text \<open>The significand has 24 bits, or fewer when nothing is shifted out.\<close>

lemma significand_bounds:
  assumes "s = floorlog 2 t - 24"
  shows "t div 2 ^ s < 2 ^ 24" "0 < s \<Longrightarrow> 2 ^ 23 \<le> t div 2 ^ s"
proof -
  have lt: "t < 2 ^ (24 + s)"
  proof (cases "t = 0")
    case False
    then have "t < 2 ^ floorlog 2 t" by (intro floorlog2_bounds) simp
    also have "\<dots> \<le> 2 ^ (24 + s)" using assms by (intro power_increasing) auto
    finally show ?thesis .
  qed simp
  then show "t div 2 ^ s < 2 ^ 24" by (simp add: less_mult_imp_div_less power_add)
  assume s: "0 < s"
  then have "floorlog 2 t - 1 = 23 + s" "0 < t" using assms by (auto simp: floorlog_def split: if_splits)
  then have "2 ^ 23 * 2 ^ s \<le> t" using floorlog2_bounds(1) [of t] by (simp add: power_add)
  then show "2 ^ 23 \<le> t div 2 ^ s" by (simp add: less_eq_div_iff_mult_less_eq)
qed

lemma round_even_bounds: "n div d \<le> round_even n d" "round_even n d \<le> Suc (n div d)"
  by (auto simp: round_even_def Let_def)

lemma round_even_nearest:
  assumes "0 < d"
  shows "2 * \<bar>int (round_even n d * d) - int n\<bar> \<le> int d"
proof -
  define q r where "q = n div d" and "r = n mod d"
  have n: "n = q * d + r" and r: "r < d" using assms by (simp_all add: q_def r_def)
  consider "2 * r \<le> d" "round_even n d = q" | "d \<le> 2 * r" "round_even n d = Suc q"
    unfolding round_even_def Let_def q_def r_def by (metis le_less_linear linorder_not_less nat_less_le order.refl)
  then show ?thesis by cases (use r in \<open>auto simp: n\<close>)
qed

text \<open>The magnitude \<open>s * 2 ^ 23 + k\<close> is \<open>k\<close> shifted by \<open>s\<close>, also when rounding made \<open>k\<close> a power of two.\<close>

lemma units_shift:
  assumes "k \<le> 2 ^ 24" "0 < s \<Longrightarrow> 2 ^ 23 \<le> k"
  shows "units (s * 2 ^ 23 + k) = k * 2 ^ s"
proof -
  consider "k < 2 ^ 23" | "2 ^ 23 \<le> k" "k < 2 ^ 24" | "k = 2 ^ 24" using assms(1) by linarith
  then show ?thesis
  proof cases
    case 1
    then have "s = 0" using assms(2) by (cases s) auto
    then show ?thesis using 1 by (simp add: units_def)
  next
    case 2
    then have "(s * 2 ^ 23 + k) div 2 ^ 23 = Suc s" "(s * 2 ^ 23 + k) mod 2 ^ 23 = k - 2 ^ 23"
      by (simp_all add: div_nat_eqI le_mod_geq)
    then show ?thesis using 2 by (simp add: units_def)
  next
    case 3
    then have "(s * 2 ^ 23 + k) div 2 ^ 23 = s + 2" "(s * 2 ^ 23 + k) mod 2 ^ 23 = 0" by simp_all
    then show ?thesis using 3 by (simp add: units_def)
  qed
qed

lemma round_mag_parts:
  assumes "0 < d"
  obtains s k where "round_mag n d = min (s * 2 ^ 23 + k) mag_inf" "s = floorlog 2 (n div d) - 24"
    "k = round_even n (d * 2 ^ s)" "k \<le> 2 ^ 24" "0 < s \<Longrightarrow> 2 ^ 23 \<le> k" "units (s * 2 ^ 23 + k) = k * 2 ^ s"
proof -
  define s where "s = floorlog 2 (n div d) - 24"
  define k where "k = round_even n (d * 2 ^ s)"
  have dv: "n div (d * 2 ^ s) = n div d div 2 ^ s" by (simp add: div_mult2_eq)
  have "k \<le> 2 ^ 24" "0 < s \<Longrightarrow> 2 ^ 23 \<le> k"
    using significand_bounds [OF s_def] round_even_bounds [of n "d * 2 ^ s"] unfolding k_def dv by linarith+
  then show thesis using that [of s k] units_shift by (simp add: round_mag_def s_def k_def Let_def)
qed

text \<open>A finite result is a nearest one: it is off by at most half of its last place.\<close>

lemma round_mag_nearest:
  assumes "0 < d" "round_mag n d < mag_inf"
  shows "\<exists>s. 2 * \<bar>int (units (round_mag n d) * d) - int n\<bar> \<le> int (d * 2 ^ s) \<and> 2 ^ s dvd units (round_mag n d) \<and>
    (s = 0 \<or> 2 ^ (23 + s) \<le> units (round_mag n d))"
proof -
  obtain s k where p: "round_mag n d = min (s * 2 ^ 23 + k) mag_inf" "k = round_even n (d * 2 ^ s)" "0 < s \<Longrightarrow> 2 ^ 23 \<le> k"
    "units (s * 2 ^ 23 + k) = k * 2 ^ s" using round_mag_parts [OF assms(1)] by metis
  then have u: "units (round_mag n d) = k * 2 ^ s" using assms(2) by (simp add: min_def split: if_splits)
  have "2 * \<bar>int (k * (d * 2 ^ s)) - int n\<bar> \<le> int (d * 2 ^ s)" unfolding p(2) using assms(1) by (intro round_even_nearest) simp
  moreover have "s = 0 \<or> 2 ^ (23 + s) \<le> k * 2 ^ s" using p(3) by (auto simp: power_add)
  ultimately show ?thesis by (intro exI [of _ s]) (simp add: u ac_simps)
qed

text \<open>Rounding and the value 1, which is \<open>2 ^ 149\<close> units.\<close>

lemma round_mag_one:
  assumes "0 < d"
  shows "d * 2 ^ 149 \<le> n \<Longrightarrow> 127 * 2 ^ 23 \<le> round_mag n d" "n < d * 2 ^ 149 \<Longrightarrow> round_mag n d \<le> 127 * 2 ^ 23"
proof -
  obtain s k where p: "round_mag n d = min (s * 2 ^ 23 + k) mag_inf" "s = floorlog 2 (n div d) - 24" "k \<le> 2 ^ 24" "0 < s \<Longrightarrow> 2 ^ 23 \<le> k"
    using round_mag_parts [OF assms] by metis
  {
    assume "d * 2 ^ 149 \<le> n"
    then have "2 ^ 149 \<le> n div d" using assms by (simp add: less_eq_div_iff_mult_less_eq mult.commute)
    then have "150 \<le> floorlog 2 (n div d)" using floorlog_mono [of "2 ^ 149" "n div d" 2] by simp
    then have s: "126 \<le> s" using p(2) by simp
    then have "126 * 2 ^ 23 \<le> s * 2 ^ 23" by simp
    then show "127 * 2 ^ 23 \<le> round_mag n d" using p(1,4) s by simp
  next
    assume "n < d * 2 ^ 149"
    then have "n div d < 2 ^ 149" using assms by (simp add: div_less_iff_less_mult mult.commute)
    then have "floorlog 2 (n div d) \<le> 149" by (intro floorlog_leI) simp_all
    then have "s * 2 ^ 23 \<le> 125 * 2 ^ 23" using p(2) by simp
    then show "round_mag n d \<le> 127 * 2 ^ 23" using p(1,3) by simp
  }
qed

lemma round_mag_le: "round_mag n d \<le> mag_inf"
  by (simp add: round_mag_def Let_def)

text \<open>Larger magnitudes are larger values.\<close>

lemma units_less_power: "units m < 2 ^ (23 + m div 2 ^ 23)"
proof (cases "m div 2 ^ 23")
  case (Suc e)
  have "(2 ^ 23 + m mod 2 ^ 23) * 2 ^ e < (2 ^ 24 * 2 ^ e :: nat)" by (rule mult_strict_right_mono) simp_all
  then show ?thesis unfolding units_def Let_def Suc by (simp add: power_add)
qed (simp add: units_def Let_def)

lemma units_less:
  assumes "m < m'"
  shows "units m < units m'"
proof (cases "m div 2 ^ 23 = m' div 2 ^ 23")
  case True
  have "m mod 2 ^ 23 = m - m' div 2 ^ 23 * 2 ^ 23" "m' mod 2 ^ 23 = m' - m' div 2 ^ 23 * 2 ^ 23"
    using True by (simp_all flip: minus_div_mult_eq_mod)
  then have "m mod 2 ^ 23 < m' mod 2 ^ 23" using assms div_times_less_eq_dividend [of m "2 ^ 23", unfolded True] by linarith
  then show ?thesis using True assms by (simp add: units_def Let_def)
next
  case False
  then have lt: "m div 2 ^ 23 < m' div 2 ^ 23" using div_le_mono [OF less_imp_le [OF assms], of "2 ^ 23"] by simp
  then obtain e where e: "m' div 2 ^ 23 = Suc e" by (cases "m' div 2 ^ 23") auto
  have "units m < 2 ^ (23 + m div 2 ^ 23)" by (rule units_less_power)
  also have "\<dots> \<le> 2 ^ (23 + e)" using lt e by (intro power_increasing) simp_all
  also have "\<dots> \<le> units m'" unfolding units_def Let_def e by (simp add: power_add)
  finally show ?thesis .
qed

lemma units_le: "m \<le> m' \<Longrightarrow> units m \<le> units m'"
  using units_less [of m m'] by (cases "m = m'") auto

end
