(* ===== verification/Sensor_Publisher.thy ===== *)
theory Sensor_Publisher
  imports Binary32 Subscriber
begin

text \<open>
  The LiDAR publisher of \<open>examples/sensor_publisher.cpp\<close>: 500 frames on a channel of 128 slots.
  \<open>std::cos\<close> and \<open>std::sin\<close> are parameters, the clock readings are inputs, and what the program prints is
  a value of the model.
\<close>

section \<open>The program\<close>

definition lidar_point :: "(float32 \<Rightarrow> float32) \<Rightarrow> (float32 \<Rightarrow> float32) \<Rightarrow> nat \<Rightarrow> PointXYZI" where
  "lidar_point cosf sinf fr =
     (let angle = f32_mul (f32_of_int (int fr)) (f32_lit 2 100)
      in \<lparr>pt_x = f32_mul (cosf angle) (f32_lit 10 1), pt_y = f32_mul (sinf angle) (f32_lit 10 1),
          pt_z = f32_mul (f32_of_int (int (fr mod 32))) (f32_lit 1 10), pt_intensity = f32_lit 8 10\<rparr>)"

text \<open>One turn of the loop, and the lines printed: the frame number and \<open>published()\<close>.\<close>

definition sensor_turn ::
  "(float32 \<Rightarrow> float32) \<Rightarrow> (float32 \<Rightarrow> float32) \<Rightarrow> (nat \<Rightarrow> u64 \<times> u64) \<Rightarrow> nat \<Rightarrow>
   (nat \<times> u64) list \<times> Publisher \<times> pub_slot shm_segment \<Rightarrow> (nat \<times> u64) list \<times> Publisher \<times> pub_slot shm_segment" where
  "sensor_turn cosf sinf clk fr st =
     (let (lines, w) = st;
          w' = publish 128 (clk fr) (point_bytes (lidar_point cosf sinf fr)) w
      in (if fr mod 100 = 0 then lines @ [(fr, published (fst w'))] else lines, w'))"

definition sensor_main ::
  "(float32 \<Rightarrow> float32) \<Rightarrow> (float32 \<Rightarrow> float32) \<Rightarrow> (nat \<Rightarrow> u64 \<times> u64) \<Rightarrow> Publisher \<times> pub_slot shm_segment \<Rightarrow>
   (nat \<times> u64) list \<times> Publisher \<times> pub_slot shm_segment" where
  "sensor_main cosf sinf clk w = fold (sensor_turn cosf sinf clk) [1..<501] ([], w)"

definition sensor_items ::
  "(float32 \<Rightarrow> float32) \<Rightarrow> (float32 \<Rightarrow> float32) \<Rightarrow> (nat \<Rightarrow> u64 \<times> u64) \<Rightarrow> nat list \<Rightarrow> ((u64 \<times> u64) \<times> byte list) list" where
  "sensor_items cosf sinf clk fs = map (\<lambda>f. (clk f, point_bytes (lidar_point cosf sinf f))) fs"

lemma sensor_fold:
  "snd (fold (sensor_turn cosf sinf clk) fs (lines, w)) = publish_all 128 (sensor_items cosf sinf clk fs) w"
  by (induction fs arbitrary: lines w) (simp_all add: sensor_turn_def publish_all_def sensor_items_def Let_def split_beta)

lemma publish_sequence: "pub_sequence (fst (publish C clk x w)) = pub_sequence (fst w) + 1"
  by (simp add: publish_def publish_at_def Let_def split_beta)

lemma sensor_lines:
  assumes "pub_sequence (fst w) = of_nat n"
  shows "fst (fold (sensor_turn cosf sinf clk) [Suc n..<Suc (n + k)] (lines, w)) =
    lines @ map (\<lambda>f. (f, of_nat f)) (filter (\<lambda>f. f mod 100 = 0) [Suc n..<Suc (n + k)])"
  using assms
proof (induction k arbitrary: n w lines)
  case (Suc k)
  let ?w = "publish 128 (clk (Suc n)) (point_bytes (lidar_point cosf sinf (Suc n))) w"
  let ?l = "if Suc n mod 100 = 0 then lines @ [(Suc n, published (fst ?w))] else lines"
  have sq: "pub_sequence (fst ?w) = of_nat (Suc n)" using Suc.prems by (simp add: publish_sequence add.commute)
  have up: "[Suc n..<Suc (n + Suc k)] = Suc n # [Suc (Suc n)..<Suc (Suc n + k)]" by (simp add: upt_conv_Cons)
  have "fst (fold (sensor_turn cosf sinf clk) [Suc n..<Suc (n + Suc k)] (lines, w)) =
      fst (fold (sensor_turn cosf sinf clk) [Suc (Suc n)..<Suc (Suc n + k)] (?l, ?w))"
    unfolding up by (simp add: sensor_turn_def Let_def)
  also have "\<dots> = ?l @ map (\<lambda>f. (f, of_nat f)) (filter (\<lambda>f. f mod 100 = 0) [Suc (Suc n)..<Suc (Suc n + k)])"
    by (rule Suc.IH [OF sq])
  finally show ?case unfolding up using sq by (simp add: published_def)
qed simp

text \<open>The points and the sequence numbers of the published slots.\<close>

lemma sensor_points:
  "map (point_of_bytes \<circ> snd \<circ> slot_message) (slots_of pub n (sensor_items cosf sinf clk fs)) = map (lidar_point cosf sinf) fs"
  using arg_cong [OF slots_payloads [of pub n "sensor_items cosf sinf clk fs"], of "map point_of_bytes"]
  by (simp add: sensor_items_def point_codec.dec_enc comp_def)

lemma slots_sequences:
  "map (sequence \<circ> fst \<circ> slot_message) (slots_of pub (of_nat n) xs) = map of_nat [Suc n..<Suc (n + length xs)]"
proof (induction xs arbitrary: n)
  case (Cons x xs)
  have n: "of_nat n + 1 = (of_nat (Suc n) :: u64)" by simp
  show ?case using Cons.IH [of "Suc n"]
    by (cases x) (simp add: n slot_message_def make_slot_def upt_conv_Cons del: of_nat_Suc upt_Suc)
qed simp

text \<open>
  \<open>sensor_publisher\<close>, run with a fresh channel: it prints its progress at frames 100 to 500 with
  the right counts and publishes 500 frames; a subscriber that then reads the channel from the
  beginning receives exactly the frames 373 to 500, in order, with 372 counted as dropped.
\<close>

theorem sensor_run:
  fixes sub :: "'d Subscriber"
  assumes "pub_sequence pub = 0"
  shows "case sensor_main cosf sinf clk (pub, shm_init 128 (slot_zero 16)) of (lines, pub', seg') \<Rightarrow>
    (case receive_all dm 16 rclk (\<lambda>c out. shm_pop 128 c out seg') 500 make_cursor_from_start sub of (msgs, c, sub') \<Rightarrow>
      lines = [(100, 100), (200, 200), (300, 300), (400, 400), (500, 500)] \<and> published pub' = 500 \<and>
      map (point_of_bytes \<circ> snd) msgs = map (lidar_point cosf sinf) [373..<501] \<and>
      map (sequence \<circ> fst) msgs = map of_nat [373..<501] \<and>
      sub_received sub' = sub_received sub + 128 \<and> sub_dropped sub' = sub_dropped sub + 372)"
proof -
  let ?xs = "sensor_items cosf sinf clk [1..<501]" and ?z = "shm_init 128 (slot_zero 16)"
  let ?hs = "slots_of pub 0 ?xs"
  obtain lines pub' seg' where main: "sensor_main cosf sinf clk (pub, ?z) = (lines, pub', seg')" by (metis prod.exhaust)
  have C: "valid_capacity 128" by (simp add: valid_capacity_def)
  have len: "length ?hs = 500" by (simp add: sensor_items_def)
  have w: "publish_all 128 ?xs (pub, ?z) = (pub', seg')"
    using sensor_fold [of cosf sinf clk "[1..<501]" "[]" "(pub, ?z)"] main by (simp add: sensor_main_def)
  have h: "shm_history 128 seg' ?hs" "pub_sequence pub' = 500"
    using publish_all_history [OF shm_init_history [OF C], of ?xs pub "slot_zero 16"] len assms unfolding w by simp_all
  obtain sub' where r: "receive_all dm 16 rclk (\<lambda>c out. shm_pop 128 c out seg') 500 make_cursor_from_start sub =
      (map slot_message (drop 372 ?hs), 500, sub')"
    "sub_received sub' = sub_received sub + 128" "sub_dropped sub' = sub_dropped sub + 372"
    using receive_all_history [OF h(1), of 0 500 dm 16 rclk sub] len by (auto simp: make_cursor_from_start_def)
  have "fst (fold (sensor_turn cosf sinf clk) [1..<501] ([], pub, ?z)) =
      map (\<lambda>f. (f, of_nat f)) (filter (\<lambda>f. f mod 100 = 0) [1..<501])"
    using sensor_lines [of "(pub, ?z)" 0 cosf sinf clk 500 "[]"] assms by (simp del: upt_rec_numeral)
  moreover have "filter (\<lambda>f. f mod 100 = 0) [1..<501] = [100, 200, 300, 400, 500 :: nat]"
    by (subst upt_conv_Cons) (simp_all add: numeral_2_eq_2 [symmetric])
  ultimately have lines: "lines = [(100, 100), (200, 200), (300, 300), (400, 400), (500, 500)]"
    using main unfolding sensor_main_def by (simp del: upt_rec_numeral)
  have points: "map (point_of_bytes \<circ> snd \<circ> slot_message) (drop 372 ?hs) = map (lidar_point cosf sinf) (drop 372 [1..<501])"
    unfolding drop_map [symmetric] sensor_points ..
  have "Suc (0 + length ?xs) = 501" using len by simp
  with slots_sequences [of pub 0 ?xs] have "map (sequence \<circ> fst \<circ> slot_message) ?hs = map of_nat [1..<501]" by (simp del: upt_rec_numeral upt_Suc)
  then have seqs: "map (sequence \<circ> fst \<circ> slot_message) (drop 372 ?hs) = map of_nat (drop 372 [1..<501])"
    unfolding drop_map [symmetric] by simp
  have window: "drop 372 [1..<501] = [373..<501::nat]" by (simp add: drop_upt del: upt_rec_numeral)
  show ?thesis
    using r(2,3) h(2) lines points seqs unfolding window main prod.case r(1) by (simp add: published_def comp_assoc del: upt_rec_numeral)
qed

definition sensor_example :: Publisher where
  "sensor_example = \<lparr>pub_channel_name = ''/lwipc_lidar'', pub_msg_type = POINTCLOUD, pub_sensor_id = 1, pub_sequence = 0,
     pub_pool = ObjectPool_ctor 128 0 (replicate 16 0), pub_exhaustions = 0\<rparr>"

theorem sensor_run_witness:
  "case sensor_main id id (\<lambda>f. (of_nat f, of_nat f)) (sensor_example, shm_init 128 (slot_zero 16)) of (lines, pub', seg') \<Rightarrow>
    (case receive_all nat_double 16 of_nat (\<lambda>c out. shm_pop 128 c out seg') 500 make_cursor_from_start sub_example of
       (msgs, c, sub') \<Rightarrow> lines = [(100, 100), (200, 200), (300, 300), (400, 400), (500, 500)] \<and>
         map (sequence \<circ> fst) msgs = map of_nat [373..<501])"
proof -
  have "pub_sequence sensor_example = 0" by (simp add: sensor_example_def)
  from sensor_run [OF this, where cosf = id and sinf = id and clk = "\<lambda>f. (of_nat f, of_nat f)" and dm = nat_double
      and rclk = of_nat and sub = sub_example] show ?thesis
    unfolding case_prod_unfold by blast
qed

end
