(* ===== verification/Ai_Subscriber.thy ===== *)
theory Ai_Subscriber
  imports Binary32 Subscriber
begin

text \<open>
  The inference process of \<open>examples/ai_subscriber.cpp\<close>: it answers every point it receives with a
  control command whose steering value is computed in \<open>float\<close> arithmetic.
\<close>

section \<open>The program\<close>

definition ai_steer :: "float32 \<Rightarrow> float32" where
  "ai_steer x =
     (let steer = f32_div (f32_negate x) (f32_lit 20 1);
          steer = (if f32_less (f32_lit 1 1) steer then f32_lit 1 1 else steer);
          steer = (if f32_less steer (f32_negate (f32_lit 1 1)) then f32_negate (f32_lit 1 1) else steer)
      in steer)"

definition ai_command :: "float32 \<Rightarrow> ControlCmd" where
  "ai_command steer = \<lparr>steering = steer, throttle = f32_lit 1 2, brake = f32_lit 0 1, gear = 3, cmd_pad = [0, 0, 0]\<rparr>"

definition ai_answer :: "byte list \<Rightarrow> byte list" where
  "ai_answer p = control_bytes (ai_command (ai_steer (pt_x (point_of_bytes p))))"

text \<open>
  The loop of \<open>main\<close>. A round is what the stop flag, the clock and \<open>pop\<close> give it, as for \<open>spin\<close>; \<open>clk k\<close> are
  the clock readings of the publication that follows the \<open>k\<close>-th processed point. The lines printed
  hold the count, the steering value and the sequence number.
\<close>

fun ai_loop ::
  "'d double_ops \<Rightarrow> (nat \<Rightarrow> u64 \<times> u64) \<Rightarrow> (bool \<times> u64 \<times> pub_slot pop_fun) list \<Rightarrow> Cursor \<Rightarrow>
   nat \<Rightarrow> (nat \<times> float32 \<times> u64) list \<Rightarrow> 'd Subscriber \<Rightarrow> Publisher \<times> pub_slot shm_segment \<Rightarrow>
   (nat \<times> (nat \<times> float32 \<times> u64) list \<times> 'd Subscriber \<times> Publisher \<times> pub_slot shm_segment) option" where
  "ai_loop dm clk [] cursor processed lines sub w = None"
| "ai_loop dm clk ((g_stop, now, pop) # rs) cursor processed lines sub w =
     (if g_stop then Some (processed, lines, sub, w)
      else case try_receive dm 16 now pop (cursor, IPCHeader_init, replicate 16 0) sub of
             (True, (cursor', hdr, pt), sub') \<Rightarrow>
               let steer = ai_steer (pt_x (point_of_bytes pt));
                   w' = publish 32 (clk processed) (control_bytes (ai_command steer)) w;
                   processed' = processed + 1;
                   lines' = (if processed' mod 50 = 0 then lines @ [(processed', steer, sequence hdr)] else lines)
               in ai_loop dm clk rs cursor' processed' lines' sub' w'
           | (False, (cursor', _, _), sub') \<Rightarrow> ai_loop dm clk rs cursor' processed lines sub' w)"

text \<open>What the loop publishes and prints for the messages that \<open>spin\<close> would hand to a callback.\<close>

definition ai_items :: "(nat \<Rightarrow> u64 \<times> u64) \<Rightarrow> nat \<Rightarrow> (IPCHeader \<times> byte list) list \<Rightarrow> ((u64 \<times> u64) \<times> byte list) list" where
  "ai_items clk k msgs = map (\<lambda>(k, m). (clk k, ai_answer (snd m))) (enumerate k msgs)"

definition ai_lines :: "nat \<Rightarrow> (IPCHeader \<times> byte list) list \<Rightarrow> (nat \<times> float32 \<times> u64) list" where
  "ai_lines k msgs = map (\<lambda>(k, m). (k, ai_steer (pt_x (point_of_bytes (snd m))), sequence (fst m)))
     (filter (\<lambda>(k, _). k mod 50 = 0) (enumerate (Suc k) msgs))"

lemma ai_loop_spin:
  "ai_loop dm clk rs c k lines sub w =
     map_option (\<lambda>(msgs, sub'). (k + length msgs, lines @ ai_lines k msgs, sub', publish_all 32 (ai_items clk k msgs) w))
       (spin dm 16 rs c sub)"
proof (induction rs arbitrary: c k lines sub w)
  case (Cons r rs)
  obtain g now pop where r: "r = (g, now, pop)" by (metis prod.exhaust)
  obtain ok c' h p sub' where tr: "try_receive dm 16 now pop (c, IPCHeader_init, replicate 16 0) sub = (ok, (c', h, p), sub')"
    by (metis prod.exhaust)
  consider "g" | "\<not> g" "\<not> ok" | "\<not> g" "ok" by blast
  then show ?case
  proof cases
    case 3
    then show ?thesis unfolding r ai_loop.simps spin.simps tr Cons.IH
      by (cases "spin dm 16 rs c' sub'") (auto simp: Let_def option.map_comp comp_def split_beta ai_lines_def ai_items_def publish_all_def ai_answer_def)
  qed (simp_all add: r tr Cons.IH ai_lines_def ai_items_def publish_all_def)
qed simp

section \<open>Steering\<close>

abbreviation mag_one :: nat where
  "mag_one \<equiv> 127 * 2 ^ 23"

lemma twenty: "f32_mag 0x41A00000 = 0x41A00000" "\<not> f32_neg 0x41A00000" "\<not> f32_nan 0x41A00000" "units 0x41A00000 = 20 * 2 ^ 149"
  by (simp_all add: f32_eval)

lemma one: "f32_key 0x3F800000 = int mag_one" "\<not> f32_nan 0x3F800000"
  "f32_key (f32_negate 0x3F800000) = - int mag_one" "\<not> f32_nan (f32_negate 0x3F800000)"
  by (simp_all add: f32_eval)

lemma small_quotient:
  assumes "f32_mag x < f32_mag 0x41A00000"
  shows "round_mag (units (f32_mag x) * 2 ^ 149) (20 * 2 ^ 149) \<le> mag_one"
  using units_less [OF assms] by (intro round_mag_one(2)) (simp_all add: twenty)

text \<open>The quotient before the two comparisons.\<close>

lemma steer_quotient:
  assumes "\<not> f32_nan x"
  obtains m where "f32_div (f32_negate x) 0x41A00000 = f32_make (\<not> f32_neg x) m" "m \<le> mag_inf"
    "f32_mag 0x41A00000 \<le> f32_mag x \<Longrightarrow> mag_one \<le> m"
    "f32_mag x < f32_mag 0x41A00000 \<Longrightarrow> m = round_mag (units (f32_mag x) * 2 ^ 149) (20 * 2 ^ 149) \<and> m \<le> mag_one"
proof (cases "f32_mag x = mag_inf")
  case True
  then have "f32_div (f32_negate x) 0x41A00000 = f32_make (\<not> f32_neg x) mag_inf"
    by (simp add: f32_div_def twenty f32_nan_def)
  from that [OF this] show thesis by (simp add: True twenty)
next
  case False
  let ?m = "round_mag (units (f32_mag x) * 2 ^ 149) (20 * 2 ^ 149)"
  have "f32_div (f32_negate x) 0x41A00000 = f32_make (\<not> f32_neg x) ?m"
    using False assms by (simp add: f32_div_def twenty f32_nan_def)
  moreover have "mag_one \<le> ?m" if "f32_mag 0x41A00000 \<le> f32_mag x"
    using units_le [OF that] by (intro round_mag_one(1)) (simp_all add: twenty)
  ultimately show thesis using that [of ?m] round_mag_le small_quotient by blast
qed

text \<open>The two comparisons clamp the magnitude at 1 and keep the sign.\<close>

lemma steer_clamp:
  assumes "m \<le> mag_inf" "q = f32_make neg m"
  shows "(let s = (if f32_less 0x3F800000 q then 0x3F800000 else q) in if f32_less s (f32_negate 0x3F800000) then f32_negate 0x3F800000 else s)
    = f32_make neg (min m mag_one)"
proof -
  have m: "m < 2 ^ 31" using assms(1) by simp
  have q: "\<not> f32_nan q" "f32_key q = (if neg then - int m else int m)" using assms m by (simp_all add: f32_nan_def f32_key_def)
  have less: "f32_less 0x3F800000 q \<longleftrightarrow> \<not> neg \<and> mag_one < m" "f32_less q (f32_negate 0x3F800000) \<longleftrightarrow> neg \<and> mag_one < m"
    "\<not> f32_less 0x3F800000 (f32_negate 0x3F800000)" using q one by (auto simp: f32_less_def)
  have make: "f32_make False 0x3F800000 = 0x3F800000" "f32_make True 0x3F800000 = f32_negate 0x3F800000" by (simp_all add: f32_eval)
  show ?thesis using less by (cases "mag_one < m"; cases neg) (simp_all add: make assms(2) min_def)
qed

lemma ai_steer_make:
  assumes "\<not> f32_nan x"
  shows "ai_steer x = f32_make (\<not> f32_neg x) (if f32_mag x < f32_mag (f32_lit 20 1)
    then round_mag (units (f32_mag x) * 2 ^ 149) (units (f32_mag (f32_lit 20 1))) else mag_one)"
proof -
  obtain m where m: "f32_div (f32_negate x) 0x41A00000 = f32_make (\<not> f32_neg x) m" "m \<le> mag_inf"
    "f32_mag 0x41A00000 \<le> f32_mag x \<Longrightarrow> mag_one \<le> m"
    "f32_mag x < f32_mag 0x41A00000 \<Longrightarrow> m = round_mag (units (f32_mag x) * 2 ^ 149) (20 * 2 ^ 149) \<and> m \<le> mag_one"
    using steer_quotient [OF assms] by blast
  have "ai_steer x = f32_make (\<not> f32_neg x) (min m mag_one)"
    using steer_clamp [OF m(2,1)] by (simp only: ai_steer_def Let_def One_nat_def f32_lits)
  then show ?thesis using m(3,4) by (auto simp: twenty min_def)
qed

section \<open>Properties\<close>

text \<open>
  C15. The steering value. For a coordinate that is a number, also an infinite one, the steering value is
  a number in [-1, 1] of the opposite sign; from \<open>|x| = 20\<close> on it is exactly 1 or -1, and below it is
  the \<open>float\<close> nearest to \<open>- x / 20\<close>: off by at most half a unit in its last place.
\<close>

theorem steer_range:
  assumes "\<not> f32_nan x"
  defines "m \<equiv> f32_mag (ai_steer x)"
  shows "\<not> f32_nan (ai_steer x) \<and> f32_neg (ai_steer x) = (\<not> f32_neg x) \<and>
    f32_key (f32_negate (f32_lit 1 1)) \<le> f32_key (ai_steer x) \<and> f32_key (ai_steer x) \<le> f32_key (f32_lit 1 1) \<and>
    (if f32_mag (f32_lit 20 1) \<le> f32_mag x then ai_steer x = (if f32_neg x then f32_lit 1 1 else f32_negate (f32_lit 1 1))
     else \<exists>s. 2 * \<bar>int (units m * 20) - int (units (f32_mag x))\<bar> \<le> 20 * 2 ^ s \<and> 2 ^ s dvd units m \<and>
       (s = 0 \<or> 2 ^ (23 + s) \<le> units m))"
proof -
  let ?r = "round_mag (units (f32_mag x) * 2 ^ 149) (20 * 2 ^ 149)"
  define k where "k = (if f32_mag x < f32_mag (f32_lit 20 1) then ?r else mag_one)"
  have st: "ai_steer x = f32_make (\<not> f32_neg x) k"
    using ai_steer_make [OF assms(1)] by (simp add: k_def twenty)
  have k: "k \<le> mag_one"
    using small_quotient unfolding k_def by simp
  then have parts: "m = k" "f32_neg (ai_steer x) = (\<not> f32_neg x)" "f32_mag (ai_steer x) = k"
    unfolding m_def st by simp_all
  have near: "\<exists>s. 2 * \<bar>int (units m * 20) - int (units (f32_mag x))\<bar> \<le> 20 * 2 ^ s \<and> 2 ^ s dvd units m \<and>
       (s = 0 \<or> 2 ^ (23 + s) \<le> units m)" if "\<not> f32_mag (f32_lit 20 1) \<le> f32_mag x"
  proof -
    have kr: "k = ?r" using that by (simp add: k_def)
    have lt: "?r < mag_inf" using k kr by simp
    obtain s where s: "2 * \<bar>int (units k * (20 * 2 ^ 149)) - int (units (f32_mag x) * 2 ^ 149)\<bar> \<le> int (20 * 2 ^ 149 * 2 ^ s)"
      "2 ^ s dvd units k" "s = 0 \<or> 2 ^ (23 + s) \<le> units k"
      using round_mag_nearest [OF _ lt] unfolding kr by auto
    have "int (units k * (20 * 2 ^ 149)) - int (units (f32_mag x) * 2 ^ 149) = 2 ^ 149 * (int (units k * 20) - int (units (f32_mag x)))"
      "int (20 * 2 ^ 149 * 2 ^ s) = 2 ^ 149 * (20 * 2 ^ s)" by (simp_all add: algebra_simps)
    with s(1) have "2 ^ 149 * (2 * \<bar>int (units k * 20) - int (units (f32_mag x))\<bar>) \<le> 2 ^ 149 * (20 * 2 ^ s)"
      by (simp only: abs_mult) simp
    then have "2 * \<bar>int (units k * 20) - int (units (f32_mag x))\<bar> \<le> 20 * 2 ^ s" by (rule mult_left_le_imp_le) simp
    then show ?thesis using s(2,3) unfolding parts(1) by blast
  qed
  have "f32_make False 0x3F800000 = 0x3F800000" "f32_make True 0x3F800000 = f32_negate 0x3F800000" by (simp_all add: f32_eval)
  then have sat: "ai_steer x = (if f32_neg x then f32_lit 1 1 else f32_negate (f32_lit 1 1))" if "f32_mag (f32_lit 20 1) \<le> f32_mag x"
    using that by (simp add: st k_def)
  show ?thesis using k near sat parts one by (auto simp: f32_nan_def f32_key_def)
qed

theorem steer_range_witness:
  "ai_steer (f32_lit 40 1) = f32_negate (f32_lit 1 1) \<and> f32_key (ai_steer (f32_lit 1 3)) \<le> f32_key (f32_lit 1 1)"
proof -
  have "\<not> f32_nan (f32_lit 40 1)" "\<not> f32_nan (f32_lit 1 3)" by (simp_all add: f32_eval)
  note ok = this
  have "f32_mag (f32_lit 20 1) \<le> f32_mag (f32_lit 40 1)" "\<not> f32_neg (f32_lit 40 1)" by (simp_all add: f32_eval)
  then have "ai_steer (f32_lit 40 1) = f32_negate (f32_lit 1 1)" using steer_range [OF ok(1)] by argo
  then show ?thesis using steer_range [OF ok(2)] by blast
qed

text \<open>
  The two comparisons do not catch a value that is not a number: for a NaN coordinate the published
  steering value is a NaN, outside the range [-1, 1] that \<open>ControlCmd\<close> documents.
\<close>

theorem steer_nan:
  assumes "f32_nan x"
  shows "f32_nan (ai_steer x)"
proof -
  have "f32_nan (f32_negate x)" using assms by (simp add: f32_nan_def)
  then have "f32_div (f32_negate x) 0x41A00000 = f32_quiet (f32_negate x)" "f32_nan (f32_quiet (f32_negate x))"
    by (simp_all add: f32_div_def f32_nan_quiet Let_def)
  then show ?thesis by (simp add: ai_steer_def Let_def f32_less_def)
qed

theorem steer_nan_witness: "f32_nan (ai_steer 0x7FC00000)"
  by (rule steer_nan) (simp add: f32_eval)

text \<open>
  The inference process is the polling loop with a publisher as its callback: it returns when
  \<open>spin\<close> would, counts the messages that \<open>spin\<close> would hand on, and publishes one command for each, in
  order.
\<close>

theorem ai_loop_is_spin:
  "ai_loop dm clk rs c 0 [] sub w =
     map_option (\<lambda>(msgs, sub'). (length msgs, ai_lines 0 msgs, sub', publish_all 32 (ai_items clk 0 msgs) w))
       (spin dm 16 rs c sub)"
  by (simp add: ai_loop_spin)

lemma ai_items_payloads: "map snd (ai_items clk k msgs) = map (ai_answer \<circ> snd) msgs"
  by (induction msgs arbitrary: k) (simp_all add: ai_items_def)

lemma ai_answer_point: "control_of_bytes (ai_answer (point_bytes p)) = ai_command (ai_steer (pt_x p))"
  by (simp add: ai_answer_def point_codec.dec_enc control_codec.dec_enc control_layout_def ai_command_def)


definition ai_publisher :: Publisher where
  "ai_publisher = \<lparr>pub_channel_name = ''/lwipc_ctrl'', pub_msg_type = CONTROL_CMD, pub_sensor_id = 0, pub_sequence = 0,
     pub_pool = ObjectPool_ctor 32 0 (replicate 16 0), pub_exhaustions = 0\<rparr>"


end
