(* ===== verification/Benchmark.thy ===== *)
theory Benchmark
  imports Binary32 Subscriber "HOL-Library.Multiset"
begin

text \<open>
  The latency benchmark of \<open>examples/benchmark.cpp\<close>: a publisher and a subscriber of one process, one
  message at a time, and the figures that are printed. The steady clock and the clocks of the
  library are inputs. The state keeps the received payloads beside what the program keeps.
\<close>

section \<open>The program\<close>

definition bench_N :: nat where
  "bench_N = 100000"

definition bench_point :: "nat \<Rightarrow> PointXYZI" where
  "bench_point i = \<lparr>pt_x = f32_of_int (int i), pt_y = f32_of_int 0, pt_z = f32_of_int 0, pt_intensity = f32_of_int 0\<rparr>"

text \<open>\<open>while (!sub.try_receive(cur, got)) {}\<close>; \<open>now k\<close> is the clock at the attempt \<open>k\<close>.\<close>

partial_function (option) bench_spin ::
  "'d double_ops \<Rightarrow> (nat \<Rightarrow> u64) \<Rightarrow> pub_slot pop_fun \<Rightarrow> nat \<Rightarrow> Cursor \<times> byte list \<Rightarrow> 'd Subscriber \<Rightarrow>
   ((Cursor \<times> byte list) \<times> 'd Subscriber) option" where
  "bench_spin dm now pop k args sub =
     (case try_receive_payload dm 16 (now k) pop args sub of (ok, args', sub') \<Rightarrow>
        if ok then Some (args', sub') else bench_spin dm now pop (Suc k) args' sub')"

record 'd bench_state =
  bn_cur :: Cursor
  bn_latencies :: "int list"
  bn_got :: "byte list list"
  bn_sub :: "'d Subscriber"
  bn_pub :: "Publisher \<times> pub_slot shm_segment"

text \<open>One turn; \<open>time i\<close> are the two readings \<open>t0\<close> and \<open>t1\<close>.\<close>

definition bench_turn ::
  "'d double_ops \<Rightarrow> (nat \<Rightarrow> u64 \<times> u64) \<Rightarrow> (nat \<Rightarrow> nat \<Rightarrow> u64) \<Rightarrow> (nat \<Rightarrow> int \<times> int) \<Rightarrow> nat \<Rightarrow>
   'd bench_state \<Rightarrow> 'd bench_state option" where
  "bench_turn dm clk now time i st =
     (let w = publish 1024 (clk i) (point_bytes (bench_point i)) (bn_pub st)
      in map_option (\<lambda>((cur, got), sub). st\<lparr>bn_cur := cur, bn_latencies := bn_latencies st @ [snd (time i) - fst (time i)],
           bn_got := bn_got st @ [got], bn_sub := sub, bn_pub := w\<rparr>)
         (bench_spin dm (now i) (\<lambda>c out. shm_pop 1024 c out (snd w)) 0 (bn_cur st, replicate 16 0) (bn_sub st)))"

fun bench_loop ::
  "'d double_ops \<Rightarrow> (nat \<Rightarrow> u64 \<times> u64) \<Rightarrow> (nat \<Rightarrow> nat \<Rightarrow> u64) \<Rightarrow> (nat \<Rightarrow> int \<times> int) \<Rightarrow> nat list \<Rightarrow>
   'd bench_state \<Rightarrow> 'd bench_state option" where
  "bench_loop dm clk now time [] st = Some st"
| "bench_loop dm clk now time (i # is) st = Option.bind (bench_turn dm clk now time i st) (bench_loop dm clk now time is)"

definition bench_start :: "'d Subscriber \<Rightarrow> Publisher \<times> pub_slot shm_segment \<Rightarrow> 'd bench_state" where
  "bench_start sub w = \<lparr>bn_cur = subscriber_make_cursor (snd w), bn_latencies = [], bn_got = [], bn_sub = sub, bn_pub = w\<rparr>"

text \<open>The \<open>double\<close> arithmetic of the figures is an argument.\<close>

record 'd bench_ops =
  bo_of_int :: "int \<Rightarrow> 'd"
  bo_mul :: "'d \<Rightarrow> 'd \<Rightarrow> 'd"
  bo_div :: "'d \<Rightarrow> 'd \<Rightarrow> 'd"

record 'd bench_report =
  rep_avg :: 'd
  rep_p50 :: int
  rep_p99 :: int
  rep_min :: int
  rep_max :: int
  rep_throughput :: 'd

definition bench_figures :: "'d bench_ops \<Rightarrow> nat \<Rightarrow> int list \<Rightarrow> 'd bench_report" where
  "bench_figures bo N latencies =
     (let ls = sort latencies;
          avg = bo_div bo (bo_of_int bo (fold (\<lambda>x acc. acc + x) ls 0)) (bo_of_int bo (int N));
          throughput = bo_div bo
            (bo_div bo (bo_mul bo (bo_of_int bo (int N)) (bo_of_int bo 16)) (bo_of_int bo (10 ^ 9)))
            (bo_div bo (bo_of_int bo (last ls)) (bo_of_int bo (10 ^ 9)))
      in \<lparr>rep_avg = avg, rep_p50 = ls ! (N div 2), rep_p99 = ls ! (N * 99 div 100), rep_min = hd ls, rep_max = last ls,
          rep_throughput = throughput\<rparr>)"

section \<open>One message at a time\<close>

lemma bench_spin_first:
  assumes "pop c (slot_zero 16) = (True, c + 1, s)" "c < c + 1"
  shows "bench_spin dm now pop k (c, got) sub = Some ((c + 1, slot_payload s), count_receive dm (now k) 0 (slot_header s) sub)"
  using try_receive_True [of pop c 16 "c + 1" s dm "now k" IPCHeader_init got sub] assms
  by (subst bench_spin.simps) (simp add: try_receive_payload_def)

lemma count_receive_counters:
  "sub_received (count_receive dm n 0 h sub) = sub_received sub + 1" "sub_dropped (count_receive dm n 0 h sub) = sub_dropped sub"
  by (simp_all add: count_receive_def)

lemma bench_turn_step:
  assumes "shm_history 1024 (snd (bn_pub st)) hs" "bn_cur st = of_nat (length hs)" "Suc (length hs) < 2 ^ 63"
  shows "\<exists>st' s. bench_turn dm clk now time i st = Some st' \<and> shm_history 1024 (snd (bn_pub st')) (hs @ [s]) \<and>
    bn_cur st' = of_nat (Suc (length hs)) \<and> bn_latencies st' = bn_latencies st @ [snd (time i) - fst (time i)] \<and>
    bn_got st' = bn_got st @ [point_bytes (bench_point i)] \<and>
    sub_received (bn_sub st') = sub_received (bn_sub st) + 1 \<and> sub_dropped (bn_sub st') = sub_dropped (bn_sub st)"
proof -
  let ?c = "of_nat (length hs) :: u64"
  obtain pub seg where w: "bn_pub st = (pub, seg)" by (cases "bn_pub st")
  let ?s = "make_slot pub (fst (clk i)) (pub_sequence pub + 1) (point_bytes (bench_point i))"
  let ?w = "publish 1024 (clk i) (point_bytes (bench_point i)) (bn_pub st)"
  have h: "shm_history 1024 (snd ?w) (hs @ [?s])"
    unfolding w publish_eq snd_conv by (rule shm_push_history(2)) (use assms w in simp_all)
  have u: "unat ?c = length hs" "unat (?c + 1) = Suc (length hs)"
    using assms(3) unat_of_nat_u64 [of "length hs"] unat_suc_u64 [of ?c] by simp_all
  then have lt: "?c < ?c + 1" by (simp add: word_less_nat_alt)
  have m: "max (unat ?c) (length (hs @ [?s]) - unat (1024 :: u64)) = length hs" using u by simp
  have "shm_pop 1024 ?c (slot_zero 16) (snd ?w) = (True, ?c + 1, ?s)"
    using shm_pop_behind [OF h, of ?c "slot_zero 16"] u(1) unfolding m Let_def by (simp add: add.commute)
  from bench_spin_first [of "\<lambda>c out. shm_pop 1024 c out (snd ?w)", OF this lt, of dm "now i" 0 "replicate 16 0" "bn_sub st"]
  have "bench_turn dm clk now time i st = Some (st\<lparr>bn_cur := ?c + 1, bn_latencies := bn_latencies st @ [snd (time i) - fst (time i)],
      bn_got := bn_got st @ [slot_payload ?s], bn_sub := count_receive dm (now i 0) 0 (slot_header ?s) (bn_sub st), bn_pub := ?w\<rparr>)"
    using assms(2) by (simp only: bench_turn_def Let_def option.map prod.case)
  then show ?thesis using h by (auto simp: count_receive_counters make_slot_def)
qed

lemma bench_loop_run:
  assumes "shm_history 1024 (snd (bn_pub st)) hs" "bn_cur st = of_nat (length hs)" "length hs + length is < 2 ^ 63"
  shows "\<exists>st'. bench_loop dm clk now time is st = Some st' \<and>
    bn_latencies st' = bn_latencies st @ map (\<lambda>i. snd (time i) - fst (time i)) is \<and>
    bn_got st' = bn_got st @ map (point_bytes \<circ> bench_point) is \<and>
    sub_received (bn_sub st') = sub_received (bn_sub st) + of_nat (length is) \<and> sub_dropped (bn_sub st') = sub_dropped (bn_sub st)"
  using assms
proof (induction "is" arbitrary: st hs)
  case (Cons i js)
  have lt: "Suc (length hs) < 2 ^ 63" using Cons.prems(3) by simp
  obtain st1 s where st1: "bench_turn dm clk now time i st = Some st1" "shm_history 1024 (snd (bn_pub st1)) (hs @ [s])"
    "bn_cur st1 = of_nat (Suc (length hs))" "bn_latencies st1 = bn_latencies st @ [snd (time i) - fst (time i)]"
    "bn_got st1 = bn_got st @ [point_bytes (bench_point i)]"
    "sub_received (bn_sub st1) = sub_received (bn_sub st) + 1" "sub_dropped (bn_sub st1) = sub_dropped (bn_sub st)"
    using bench_turn_step [OF Cons.prems(1,2) lt] by blast
  from Cons.IH [OF st1(2)] st1(3) Cons.prems(3) obtain st2 where
    "bench_loop dm clk now time js st1 = Some st2" "bn_latencies st2 = bn_latencies st1 @ map (\<lambda>i. snd (time i) - fst (time i)) js"
    "bn_got st2 = bn_got st1 @ map (point_bytes \<circ> bench_point) js"
    "sub_received (bn_sub st2) = sub_received (bn_sub st1) + of_nat (length js)" "sub_dropped (bn_sub st2) = sub_dropped (bn_sub st1)"
    by auto
  with st1 show ?case by simp
qed simp

section \<open>Percentiles\<close>

lemma sorted_prefix_count:
  assumes "sorted ls" "k < length ls"
  shows "k < length (filter (\<lambda>x. x \<le> ls ! k) ls)"
proof -
  have "filter (\<lambda>x. x \<le> ls ! k) (take (Suc k) ls) = take (Suc k) ls"
    using assms by (auto simp: filter_id_conv set_conv_nth sorted_nth_mono)
  then have "Suc k \<le> length (filter (\<lambda>x. x \<le> ls ! k) (take (Suc k) ls))" using assms(2) by simp
  also have "\<dots> \<le> length (filter (\<lambda>x. x \<le> ls ! k) ls)"
    by (metis append_take_drop_id filter_append le_add1 length_append)
  finally show ?thesis by simp
qed

lemma length_filter_sort: "length (filter P (sort xs)) = length (filter P xs)"
  by (metis mset_filter mset_sort size_mset)

lemma accumulate_sum: "fold (\<lambda>x acc. acc + x) xs a = a + sum_list (xs :: int list)"
  by (induction xs arbitrary: a) simp_all

lemma sum_list_sort: "sum_list (sort xs) = sum_list (xs :: int list)"
  by (metis mset_sort sum_mset_sum_list)

section \<open>Properties\<close>

text \<open>
  C34. The benchmark ends. On a fresh channel every spin returns at its first attempt: the program
  receives the points it published, each once and in order, records one latency per message and
  counts no message as dropped.
\<close>

theorem bench_completes:
  fixes sub :: "'d Subscriber"
  shows "\<exists>st. bench_loop dm clk now time [0..<bench_N] (bench_start sub (pub, shm_init 1024 (slot_zero 16))) = Some st \<and>
    map point_of_bytes (bn_got st) = map bench_point [0..<bench_N] \<and>
    bn_latencies st = map (\<lambda>i. snd (time i) - fst (time i)) [0..<bench_N] \<and>
    sub_received (bn_sub st) = sub_received sub + of_nat bench_N \<and> sub_dropped (bn_sub st) = sub_dropped sub"
proof -
  let ?st = "bench_start sub (pub, shm_init 1024 (slot_zero 16))"
  have "valid_capacity 1024" by (simp add: valid_capacity_def)
  then have h: "shm_history 1024 (snd (bn_pub ?st)) []" by (simp add: bench_start_def shm_init_history)
  have c: "bn_cur ?st = of_nat (length ([] :: pub_slot list))"
    by (simp add: bench_start_def subscriber_make_cursor_def shm_make_cursor_def shm_init_def)
  have n: "length ([] :: pub_slot list) + length [0..<bench_N] < 2 ^ 63" by (simp add: bench_N_def)
  from bench_loop_run [OF h c n, of dm clk now time] show ?thesis
    by (auto simp: bench_start_def point_codec.dec_enc comp_def)
qed

text \<open>
  The printed figures. The minimum, median, 99th percentile and maximum are recorded latencies, in
  this order; more than half of the latencies are at most the median, at least 99 in 100 are at most
  the 99th percentile, none is outside the minimum and the maximum.
\<close>

theorem bench_percentiles:
  assumes "length latencies = N" "0 < N"
  shows "(let r = bench_figures bo N latencies in
    rep_min r \<le> rep_p50 r \<and> rep_p50 r \<le> rep_p99 r \<and> rep_p99 r \<le> rep_max r \<and>
    {rep_min r, rep_p50 r, rep_p99 r, rep_max r} \<subseteq> set latencies \<and>
    rep_avg r = bo_div bo (bo_of_int bo (sum_list latencies)) (bo_of_int bo (int N)) \<and>
    N < 2 * length (filter (\<lambda>x. x \<le> rep_p50 r) latencies) \<and> 99 * N < 100 * length (filter (\<lambda>x. x \<le> rep_p99 r) latencies) \<and>
    list_all (\<lambda>x. rep_min r \<le> x \<and> x \<le> rep_max r) latencies)"
proof -
  let ?ls = "sort latencies"
  have len: "length ?ls = N" and set: "set ?ls = set latencies" using assms(1) by simp_all
  have ix: "N div 2 \<le> N * 99 div 100" "N * 99 div 100 < N" "N div 2 < N" using assms(2) by auto
  have ends: "hd ?ls = ?ls ! 0" "last ?ls = ?ls ! (N - 1)" using assms len by (simp_all add: hd_conv_nth last_conv_nth flip: length_0_conv)
  have le: "?ls ! i \<le> ?ls ! j" if "i \<le> j" "j < N" for i j using that len by (simp add: sorted_nth_mono)
  have mem: "?ls ! i \<in> set latencies" if "i < N" for i using that len set nth_mem by metis
  have total: "fold (\<lambda>x acc. acc + x) ?ls 0 = sum_list latencies"
    by (simp add: accumulate_sum sum_list_sort)
  have cnt: "k < length (filter (\<lambda>x. x \<le> ?ls ! k) latencies)" if "k < N" for k
    using sorted_prefix_count [of ?ls k] that len by (simp add: length_filter_sort)
  have all: "list_all (\<lambda>x. ?ls ! 0 \<le> x \<and> x \<le> ?ls ! (N - 1)) latencies"
    unfolding list_all_iff
  proof
    fix x assume "x \<in> set latencies"
    then obtain i where "i < N" "x = ?ls ! i" unfolding set [symmetric] in_set_conv_nth len by blast
    then show "?ls ! 0 \<le> x \<and> x \<le> ?ls ! (N - 1)" using le [of 0 i] le [of i "N - 1"] by simp
  qed
  have "N < 2 * length (filter (\<lambda>x. x \<le> ?ls ! (N div 2)) latencies)" using cnt [OF ix(3)] by linarith
  moreover have "99 * N < 100 * length (filter (\<lambda>x. x \<le> ?ls ! (N * 99 div 100)) latencies)" using cnt [OF ix(2)] by linarith
  ultimately show ?thesis using le mem all total ix assms(2) by (simp add: bench_figures_def Let_def ends)
qed

text \<open>Exact arithmetic as an instance.\<close>

definition rat_ops :: "rat bench_ops" where
  "rat_ops = \<lparr>bo_of_int = of_int, bo_mul = (*), bo_div = (/)\<rparr>"

theorem bench_percentiles_witness:
  "rep_p50 (bench_figures rat_ops 4 [30, 10, 40, 20]) = 30 \<and>
   rep_p99 (bench_figures rat_ops 4 [30, 10, 40, 20]) \<le> rep_max (bench_figures rat_ops 4 [30, 10, 40, 20])"
  using bench_percentiles [of "[30, 10, 40, 20]" 4 rat_ops] by (simp add: bench_figures_def Let_def)

text \<open>
  The throughput is not a throughput. In exact arithmetic, when every message of 16 bytes takes the
  same time \<open>t\<close> in nanoseconds, the figure is not \<open>16 / t\<close> bytes per nanosecond but \<open>N\<close> times that.
\<close>

theorem throughput_inflated:
  assumes "0 < N" "0 < t"
  shows "rep_throughput (bench_figures rat_ops N (replicate N t)) = of_nat N * (16 / of_int t)"
proof -
  have "sort (replicate N t) = replicate N t" by (simp add: sorted_sort_id sorted_replicate)
  then show ?thesis using assms by (simp add: bench_figures_def Let_def rat_ops_def)
qed

theorem throughput_inflated_witness: "rep_throughput (bench_figures rat_ops 3 (replicate 3 8)) = 6"
  using throughput_inflated [of 3 8] by simp

end
