(* ===== verification/Socket_Bridge.thy ===== *)
theory Socket_Bridge
  imports Socket_Transport "HOL-Library.Multiset"
begin

text \<open>
  The program of \<open>examples/socket_bridge.cpp\<close>: the port from the command line, and the callback that
  counts and prints the messages of all connections.
\<close>

section \<open>The program\<close>

text \<open>
  \<open>std::stoi\<close> with base 10: leading white space, an optional sign and the longest run of digits; what
  follows is ignored. It throws when there is no digit, and when the value is no \<open>int\<close>.
\<close>

datatype stoi_error = Invalid_argument | Out_of_range

definition is_digit :: "char \<Rightarrow> bool" where
  "is_digit c \<longleftrightarrow> (48 :: nat) \<le> of_char c \<and> of_char c \<le> (57 :: nat)"

definition is_space :: "char \<Rightarrow> bool" where
  "is_space c \<longleftrightarrow> of_char c = (32 :: nat) \<or> (9 :: nat) \<le> of_char c \<and> of_char c \<le> (13 :: nat)"

definition digits_value :: "string \<Rightarrow> int" where
  "digits_value ds = foldl (\<lambda>n c. 10 * n + (of_char c - 48)) 0 ds"

definition stoi :: "string \<Rightarrow> stoi_error + int" where
  "stoi str =
     (let s = dropWhile is_space str;
          (neg, s) = (case s of [] \<Rightarrow> (False, []) | c # r \<Rightarrow>
             if c = CHR ''-'' then (True, r) else if c = CHR ''+'' then (False, r) else (False, s));
          ds = takeWhile is_digit s;
          n = (if neg then - digits_value ds else digits_value ds)
      in if ds = [] then Inl Invalid_argument
         else if n < - (2 ^ 31) \<or> 2 ^ 31 \<le> n then Inl Out_of_range else Inr n)"

text \<open>An exception of \<open>stoi\<close> leaves \<open>main\<close>.\<close>

definition bridge_port :: "string list \<Rightarrow> stoi_error + u16" where
  "bridge_port argv =
     (if length argv > 1 then (case stoi (argv ! 1) of Inl e \<Rightarrow> Inl e | Inr n \<Rightarrow> Inr (of_int n)) else Inr 7788)"

record bridge_line =
  line_type :: u16
  line_sensor :: u16
  line_seq :: u64
  line_len :: u32
  line_crc_ok :: bool

definition bridge_callback :: "IPCMessage \<Rightarrow> nat \<times> bridge_line list \<Rightarrow> nat \<times> bridge_line list" where
  "bridge_callback msg st =
     (let (tot, lines) = st
      in if \<not> msg_valid msg then st
         else let h = msg_header msg
              in (tot + 1, lines @ [\<lparr>line_type = msg_type h, line_sensor = sensor_id h, line_seq = sequence h,
                    line_len = data_length h, line_crc_ok = verify_checksum msg\<rparr>]))"

text \<open>The callbacks of all connections, in the order in which they run.\<close>

definition bridge_run :: "IPCMessage list \<Rightarrow> nat \<times> bridge_line list" where
  "bridge_run msgs = fold bridge_callback msgs (0, [])"

definition bridge_line_of :: "IPCMessage \<Rightarrow> bridge_line" where
  "bridge_line_of msg = \<lparr>line_type = msg_type (msg_header msg), line_sensor = sensor_id (msg_header msg),
     line_seq = sequence (msg_header msg), line_len = data_length (msg_header msg), line_crc_ok = verify_checksum msg\<rparr>"

lemma bridge_fold:
  "fold bridge_callback msgs (n, lines) =
     (n + length (filter msg_valid msgs), lines @ map bridge_line_of (filter msg_valid msgs))"
  by (induction msgs arbitrary: n lines) (simp_all add: bridge_callback_def bridge_line_of_def Let_def)

section \<open>The port\<close>

text \<open>The decimal representation of a number.\<close>

fun decimal :: "nat \<Rightarrow> string" where
  "decimal n = (if n < 10 then [char_of (48 + n)] else decimal (n div 10) @ [char_of (48 + n mod 10)])"

declare decimal.simps [simp del]

lemma decimal_digits: "list_all is_digit (decimal n)" "decimal n \<noteq> []"
proof (induction n rule: decimal.induct)
  case (1 n)
  have d: "is_digit (char_of (48 + k))" if "k < 10" for k :: nat using that by (simp add: is_digit_def)
  show "list_all is_digit (decimal n)" "decimal n \<noteq> []" using 1 d by (subst decimal.simps, simp)+
qed

lemma digits_value_decimal: "digits_value (decimal n) = int n"
proof (induction n rule: decimal.induct)
  case (1 n)
  have d: "of_char (char_of (48 + k)) = (48 + int k)" if "k < 10" for k :: nat
    using that of_nat_of_char [where ?'a = int, of "char_of (48 + k)"] by simp
  have "10 * int (n div 10) + int (n mod 10) = int n" by (simp add: zdiv_int zmod_int)
  then show ?case using 1 d by (subst decimal.simps) (simp add: digits_value_def)
qed

lemma stoi_decimal: "stoi (decimal n) = (if n < 2 ^ 31 then Inr (int n) else Inl Out_of_range)"
proof -
  obtain c r where cr: "decimal n = c # r" using decimal_digits(2) [of n] by (cases "decimal n") auto
  have "is_digit c" using decimal_digits(1) [of n] cr by simp
  then have c: "\<not> is_space c" "c \<noteq> CHR ''-''" "c \<noteq> CHR ''+''" by (auto simp: is_digit_def is_space_def)
  have "takeWhile is_digit (decimal n) = decimal n" using decimal_digits(1) [of n] by (simp add: takeWhile_eq_all_conv list_all_iff)
  then show ?thesis using c digits_value_decimal [of n] by (auto simp: stoi_def cr Let_def)
qed

section \<open>Properties\<close>

text \<open>
  The port argument. A number below 65536 is the port the bridge listens on; a larger \<open>int\<close> is
  accepted as well and gives the port modulo 65536; a number that is no \<open>int\<close> ends the program.
\<close>

theorem bridge_port_argument:
  "bridge_port [prog, decimal n] = (if n < 2 ^ 31 then Inr (of_nat n) else Inl Out_of_range) \<and>
   unat (of_nat n :: u16) = n mod 65536"
  by (simp add: bridge_port_def stoi_decimal unat_of_nat)



end
