(* ===== verification/Spec2Isabelle.thy ===== *)
theory Spec2Isabelle
  imports Payloads Object_Pool_Weak Shm_Ring_Weak Subscriber Mpmc_Weak
    Channel_Registry_Concurrent Registry_Lock_Weak Socket_Server Sensor_Publisher Ai_Subscriber Benchmark Socket_Bridge
begin

text \<open>
  LwIPC is a header-only C++ library for message passing between the parts of a robot or vehicle: in
  one process, between processes of one host over POSIX shared memory, and between hosts over TCP.
  This development models the headers under \<open>src/include/lwipc\<close> and the programs under
  \<open>src/examples\<close>, and proves what makes them correct.

  \<^bold>\<open>Parts and how they interact.\<close> A \<open>Publisher\<close> stamps a payload with an \<open>IPCHeader\<close> (type, sensor, time,
  sequence number, CRC-32) and pushes both into a \<open>ShmRingBuffer\<close>, a ring in a shared-memory segment that
  never blocks and overwrites its oldest slots; payloads can be built in place in slots of an
  \<open>ObjectPool\<close>, held through a \<open>LoanedSample\<close>. Any number of \<open>Subscriber\<close>s poll the ring with cursors of
  their own, directly or in a callback loop, and keep statistics. \<open>IntraPublisher\<close> and \<open>IntraSubscriber\<close> do
  the same over an \<open>IntraRingBuffer\<close> in one process; \<open>MpmcRingBuffer\<close> is a bounded queue for any number of
  producers and consumers. The \<open>ChannelRegistry\<close> is a table in shared memory where publishers announce
  channels. \<open>SocketServer\<close> and \<open>SocketClient\<close> carry \<open>IPCMessage\<close>s in frames over TCP. A policy of
  \<open>sync_policy.hpp\<close> gives \<open>ShmRingBuffer\<close> the memory orders of its atomic accesses. The examples
  compose these parts: a LiDAR publisher, a process that answers points with control commands, a
  latency benchmark, a TCP server that prints what it receives.

  \<^bold>\<open>Theories.\<close> Every theory opens with a note on what it holds.
  \<^item> \<open>Lwipc_Prelude\<close>: machine integers, power-of-two capacities, little-endian byte images, reachability,
    and the interfaces: \<open>byte_codec\<close> (a struct and its object representation), \<open>slot_pool\<close> (what a loan
    relies on), \<open>bounded_queue\<close>, \<open>bounded_map\<close>, \<open>invariant_system\<close> and \<open>bounded_invariant_system\<close>.
  \<^item> \<open>Crc32\<close>, \<open>Ipc_Message\<close>, \<open>Payloads\<close> (\<open>ipc_message.hpp\<close>): the nibble-table checksum equals the bit-by-bit
    definition of CRC-32 and detects every change of a byte; headers and payload structs are codecs;
    \<open>make\<close>, \<open>to_buffer\<close>, \<open>from_buffer\<close>, \<open>verify_checksum\<close> and \<open>as\<close> round-trip; parsing is total.
  \<^item> \<open>Object_Pool\<close>, \<open>Loaned_Sample\<close> (\<open>object_pool.hpp\<close>, \<open>loaned_sample.hpp\<close>): the free list in the \<open>next_\<close> array,
    \<open>acquire\<close> and \<open>release\<close> with any pattern of spurious compare-and-swap failures; the pool is a
    \<open>slot_pool\<close>, and programs over loan handles never share or lose a slot.
    \<open>Object_Pool_Concurrent\<close>: any number of threads, one step per shared access; the tag of the head word
    keeps slots exclusive while the head has been updated fewer than \<open>2 ^ 48\<close> times.
  \<^item> \<open>Spmc_Ring\<close>: the contract of a ring with one producer, as a locale over the history of pushes.
    \<open>Shm_Ring_Buffer\<close> (\<open>shm_ring_buffer.hpp\<close>) and \<open>Intra_Ring_Buffer\<close> (\<open>publisher.hpp\<close>) implement it: latest-only
    delivery, heartbeat, layout, the life of a handle over an arbitrary operating system, refinement
    of one ring by the other. \<open>Shm_Ring_Concurrent\<close>: one producer and any number of consumers with the
    payload copied cell by cell; a \<open>pop\<close> that returns true returns one whole pushed payload.
  \<^item> \<open>Publisher\<close>, \<open>Subscriber\<close> (\<open>publisher.hpp\<close>, \<open>subscriber.hpp\<close>, \<open>channel_stats.hpp\<close>): publishing, loans,
    receiving with statistics, callback loops, the worker thread's life cycle, attaching with a
    timeout, the in-process pair.
  \<^item> \<open>Mpmc_Ring_Buffer\<close>, \<open>Mpmc_Concurrent\<close> (\<open>mpmc_ring_buffer.hpp\<close>): the ring is a \<open>bounded_queue\<close>; under every
    interleaving it is first-in-first-out, loses and duplicates nothing, and no slot is shared.
  \<^item> \<open>Channel_Registry\<close>, \<open>Channel_Registry_Concurrent\<close> (\<open>channel_registry.hpp\<close>): the table is a \<open>bounded_map\<close> from
    the first 63 characters of names; under every interleaving of threads and processes, some of
    which may die, the lock excludes, keys stay unique and results are right; \<open>list\<close> without the lock
    can see half-written names, and a late \<open>touch\<close> can refresh the channel that took over the entry.
  \<^item> \<open>Socket_Transport\<close>, \<open>Socket_Server\<close> (\<open>socket_transport.hpp\<close>): frames survive any cutting of the stream, the
    receive loop ends, the client leaks nothing; the server's threads own every descriptor exactly
    once and respect the limit of clients.
  \<^item> \<open>Sync_Policy\<close> (\<open>sync_policy.hpp\<close>): the three policies over a view-based memory, where a location
    has a list of messages, a thread a view that says how old a message it may still read, and a
    release-acquire pair hands a view over. \<open>Shm_Ring_Weak\<close>, \<open>Mpmc_Weak\<close>: the rings on this memory with
    the orders of the code. The interleaved model is the part of the weak one in which every load is
    fresh. The orders of the MPMC ring are enough: delivery is as in the interleaved model and the
    copies of payloads do not race. Those of the two other rings vouch for a payload
    whose slot has not been claimed again; \<open>torn_payload_accepted\<close> shows that they vouch for no more.
    \<open>Object_Pool_Weak\<close>: the pool; its newest messages form a state of the interleaved pool, and a holder
    has seen all that earlier holders wrote. \<open>Registry_Lock_Weak\<close>: the spinlock of the registry; the
    thread inside reads only newest values, so the locked operations are as if interleaved.
  \<^item> \<open>Binary32\<close>: the \<open>float\<close> arithmetic of the examples on bit patterns, rounding to nearest even.
    \<open>Sensor_Publisher\<close>, \<open>Ai_Subscriber\<close>, \<open>Benchmark\<close>, \<open>Socket_Bridge\<close> (\<open>src/examples\<close>): what the programs
    publish, count and print; the steering values stay in [-1, 1]; points travel from the sensor
    through the inference process to a consumer of commands; the benchmark ends and its percentiles
    are percentiles; the bridge counts every message of every connection.
  \<^item> This theory: the composition of publisher, ring and subscriber, over shared memory and in one
    process.

  \<^bold>\<open>How code is modelled.\<close> A struct is a record, a 64-bit counter a \<open>64 word\<close>, a payload of type \<open>T\<close> the
  list of its \<open>sizeof(T)\<close> bytes. The clock, the process identifier, the base address of a pool and the
  results of \<open>recv\<close>, \<open>send\<close> and of other system calls are arguments; assumptions on them are named
  hypotheses (\<open>reliable_recv\<close>, \<open>reliable_send\<close>). A loop over a compare-and-swap takes the list of its
  spurious failures, a loop over a flag the list of what its reads return; when the list ends first the
  result is \<open>None\<close>, and separate theorems say when the loop returns. Exceptions are values of sum types.
  Threads are program counters in a step relation, one step per access to shared memory.

  \<^bold>\<open>Bounds.\<close> The ring theorems need fewer than \<open>2 ^ 63\<close> pushes (\<open>2 * pos + 1\<close> must not wrap) and the pool theorems
  fewer than \<open>2 ^ 48\<close> head updates (the width of the tag); at a thousand million operations a second these are 292 years and
  78 hours. The sizes of capacities are arbitrary powers of two, as the static assertions demand.

  \<^bold>\<open>Memory orders.\<close> In the interleaved theories steps take effect in one order that all threads see. The
  weak theories drop this for the rings, the pool and the lock of the registry. There
  \<open>memory_order_seq_cst\<close> is its acquire and release part, without the order on all such accesses, so
  what is shown holds for it too; a store never takes effect before a load that precedes it; plain
  accesses (the words of a payload that \<open>memcpy\<close> copies, the links of the pool, the words of the
  registry table) are relaxed ones. The operations of the registry table and the server are
  interleaved only.

  \<^bold>\<open>Not modelled.\<close> The values of \<open>double\<close> arithmetic: the latency average of a subscriber and the average and
  throughput figures of the benchmark are computed with arbitrary operations. In the registry, the comparison of one name and the clearing of one entry are single steps.
  \<open>std::cos\<close> and \<open>std::sin\<close> are parameters. Socket options, sleeping and yielding, signal handling beyond
  the flag it sets, the format of printed lines, and the tests. What else of the headers has no definition is
  declarations: deleted copies, type aliases, accessors that return a member, and \<open>now_ns\<close>, which is
  the clock argument.
\<close>

section \<open>From publisher to subscriber\<close>

lemma publish_all_Nil_history:
  assumes "valid_capacity C" "length xs < 2 ^ 63"
  shows "shm_history C (snd (publish_all C xs (pub, shm_init C (slot_zero sz)))) (slots_of pub (pub_sequence pub) xs)"
    "fst (publish_all C xs (pub, shm_init C (slot_zero sz))) = pub\<lparr>pub_sequence := pub_sequence pub + of_nat (length xs)\<rparr>"
  using publish_all_history [OF shm_init_history [OF assms(1)], of xs pub "slot_zero sz"] assms(2) by simp_all



section \<open>The in-process pair\<close>

lemma intra_publish_all_eq:
  "fold (intra_publish C) xs (pub, ring) =
     (pub\<lparr>ip_sequence := ip_sequence pub + of_nat (length xs)\<rparr>, intra_push_all C xs ring)"
proof (induction xs arbitrary: pub ring)
  case (Cons x xs)
  then show ?case by (simp add: intra_publish_def intra_push_all_def split_beta ac_simps)
qed (simp add: intra_push_all_def)

lemma intra_spin_history:
  assumes "intra_history C r hs" "unat c \<le> length hs"
  shows "intra_spin sz (replicate n (False, \<lambda>c out. intra_try_receive C c out r) @ (True, q) # rest) c =
    Some (take n (drop (max (unat c) (length hs - unat C)) hs))"
  using assms(2)
proof (induction n arbitrary: c)
  case (Suc n)
  let ?p = "max (unat c) (length hs - unat C)"
  note C = intra_ring.cap_pos [OF assms(1)]
  show ?case
  proof (cases "unat c < length hs")
    case True
    let ?c = "of_nat (Suc ?p) :: u64"
    have p: "?p < length hs" using True C by auto
    have c': "unat ?c = Suc ?p" using p intra_ring.history_bound [OF assms(1)] by (intro unat_of_nat_u64) simp
    have pop: "intra_try_receive C c (replicate sz 0) r = (True, ?c, hs ! ?p)"
      using intra_ring.pop_behind [OF assms(1) True] by (simp only: Let_def intra_try_receive_def)
    have "max (Suc ?p) (length hs - unat C) = Suc ?p" by simp
    then have "intra_spin sz (replicate n (False, \<lambda>c out. intra_try_receive C c out r) @ (True, q) # rest) ?c =
        Some (take n (drop (Suc ?p) hs))"
      using Suc.IH [of ?c] c' p by (simp only:)
    then show ?thesis using pop p by (simp flip: Cons_nth_drop_Suc)
  next
    case False
    then have "intra_try_receive C c (replicate sz 0) r = (False, c, replicate sz 0)"
      using intra_ring.pop_at_head [OF assms(1)] by (simp add: intra_try_receive_def)
    then show ?thesis using Suc.IH [OF Suc.prems] False Suc.prems by simp
  qed
qed simp



end
